(* ===== verification/Prelude.thy ===== *)
theory Prelude
  imports Main "HOL-Library.AList" "HOL-Library.Word" "HOL-Library.Multiset"
begin

text \<open>
  Shared vocabulary of the development.

  \<^item> Machine integers. A Rust \<open>u32\<close>, \<open>u64\<close> or \<open>usize\<close> is a \<^typ>\<open>nat\<close>; every operation
    that can leave the range is written with the rule the source uses:
    \<open>sat_add32\<close> for \<open>saturating_add\<close>, \<open>wrap32\<close> for the wrap-around of a plain
    \<open>+\<close> or \<open>*\<close> (the release build), truncated subtraction for \<open>saturating_sub\<close>.
  \<^item> Hashes and bytes. A \<open>Hash256\<close> is a 256-bit word: its derived order on \<open>[u8; 32]\<close> is
    the unsigned order of the big-endian word, and \<open>Hash256::ZERO\<close> is 0.
  \<^item> Hash maps and hash sets. A \<open>HashMap\<close> is an association list with distinct keys and
    a \<open>HashSet\<close> a list with distinct elements. The order of the list stands for the
    iteration order, which Rust leaves unspecified: the theorems quantify over every
    list, so they hold whatever order the table yields.
\<close>

unbundle bit_operations_syntax

named_theorems hm_simps \<open>lookup and key facts of the association lists that stand for hash maps\<close>
named_theorems u32_simps \<open>range facts of the 32-bit operations\<close>

subsection \<open>Integers of a fixed width\<close>

type_synonym byte = "8 word"
type_synonym bytes = "8 word list"
type_synonym hash256 = "256 word"

definition u32_max :: nat where
  "u32_max = 4294967295"

definition u64_max :: nat where
  "u64_max = 18446744073709551615"

definition sat_add32 :: "nat \<Rightarrow> nat \<Rightarrow> nat" where
  "sat_add32 a b = min (a + b) u32_max"

definition wrap32 :: "nat \<Rightarrow> nat" where
  "wrap32 a = a mod 4294967296"

definition wrap64 :: "nat \<Rightarrow> nat" where
  "wrap64 a = a mod 18446744073709551616"

definition abs_diff :: "nat \<Rightarrow> nat \<Rightarrow> nat" where
  "abs_diff a b = (if a \<le> b then b - a else a - b)"

definition div_ceil :: "nat \<Rightarrow> nat \<Rightarrow> nat" where
  "div_ceil a b = (a + b - 1) div b"

lemma sat_add32_le_max [u32_simps]: "sat_add32 a b \<le> u32_max"
  by (simp add: sat_add32_def)

lemma sat_add32_id [u32_simps]: "a + b \<le> u32_max \<Longrightarrow> sat_add32 a b = a + b"
  by (simp add: sat_add32_def)

lemma sat_add32_ge [u32_simps]: "a \<le> u32_max \<Longrightarrow> a \<le> sat_add32 a b"
  by (simp add: sat_add32_def)

lemma sat_add32_mono: "a \<le> c \<Longrightarrow> b \<le> d \<Longrightarrow> sat_add32 a b \<le> sat_add32 c d"
  by (auto simp: sat_add32_def)

lemma wrap32_id [u32_simps]: "a \<le> u32_max \<Longrightarrow> wrap32 a = a"
  by (simp add: wrap32_def u32_max_def)

lemma wrap32_le [u32_simps]: "wrap32 a \<le> u32_max"
  by (simp add: wrap32_def u32_max_def)

lemma wrap64_id [u32_simps]: "a \<le> u64_max \<Longrightarrow> wrap64 a = a"
  by (simp add: wrap64_def u64_max_def)

lemma abs_diff_sym: "abs_diff a b = abs_diff b a"
  by (simp add: abs_diff_def)

lemma abs_diff_le_iff: "abs_diff a b \<le> d \<longleftrightarrow> a \<le> b + d \<and> b \<le> a + d"
  by (auto simp: abs_diff_def)

lemma div_ceil_le_iff:
  assumes "0 < b"
  shows "div_ceil a b \<le> n \<longleftrightarrow> a \<le> n * b"
proof
  assume "div_ceil a b \<le> n"
  then have "a + b - 1 < Suc n * b"
    using assms by (simp add: div_ceil_def less_Suc_eq_le [symmetric] div_less_iff_less_mult)
  then show "a \<le> n * b" using assms by simp
next
  assume "a \<le> n * b"
  then have "a + b - 1 < Suc n * b" using assms by simp
  then show "div_ceil a b \<le> n"
    using assms by (simp add: div_ceil_def less_Suc_eq_le [symmetric] div_less_iff_less_mult)
qed

subsection \<open>Hash maps\<close>

type_synonym ('k, 'v) hmap = "('k \<times> 'v) list"

abbreviation hm_get :: "('k, 'v) hmap \<Rightarrow> 'k \<Rightarrow> 'v option" where
  "hm_get m k \<equiv> map_of m k"

abbreviation hm_insert :: "'k \<Rightarrow> 'v \<Rightarrow> ('k, 'v) hmap \<Rightarrow> ('k, 'v) hmap" where
  "hm_insert k v m \<equiv> AList.update k v m"

abbreviation hm_remove :: "'k \<Rightarrow> ('k, 'v) hmap \<Rightarrow> ('k, 'v) hmap" where
  "hm_remove k m \<equiv> AList.delete k m"

abbreviation hm_keys :: "('k, 'v) hmap \<Rightarrow> 'k list" where
  "hm_keys m \<equiv> map fst m"

abbreviation hm_values :: "('k, 'v) hmap \<Rightarrow> 'v list" where
  "hm_values m \<equiv> map snd m"

abbreviation hm_wf :: "('k, 'v) hmap \<Rightarrow> bool" where
  "hm_wf m \<equiv> distinct (map fst m)"

definition hm_retain :: "('k \<Rightarrow> 'v \<Rightarrow> bool) \<Rightarrow> ('k, 'v) hmap \<Rightarrow> ('k, 'v) hmap" where
  "hm_retain P m = filter (\<lambda>(k, v). P k v) m"

lemma hm_get_insert [hm_simps]: "hm_get (hm_insert k v m) k' = (if k' = k then Some v else hm_get m k')"
  by (simp add: update_conv')

lemma hm_get_remove [hm_simps]: "hm_get (hm_remove k m) k' = (if k' = k then None else hm_get m k')"
  by (simp add: delete_conv')

lemma hm_wf_insert [hm_simps, intro]: "hm_wf m \<Longrightarrow> hm_wf (hm_insert k v m)"
  by (rule distinct_update)

lemma hm_wf_remove [hm_simps, intro]: "hm_wf m \<Longrightarrow> hm_wf (hm_remove k m)"
  by (rule distinct_delete)

lemma hm_wf_retain [hm_simps, intro]: "hm_wf m \<Longrightarrow> hm_wf (hm_retain P m)"
  by (simp add: hm_retain_def distinct_map_filter)

lemma hm_get_retain [hm_simps]:
  "hm_wf m \<Longrightarrow> hm_get (hm_retain P m) k =
     (case hm_get m k of None \<Rightarrow> None | Some v \<Rightarrow> if P k v then Some v else None)"
  unfolding hm_retain_def
  by (induction m) (auto simp: map_of_eq_None_iff split: option.splits dest: map_of_SomeD)

lemma hm_get_in: "hm_get m k = Some v \<Longrightarrow> (k, v) \<in> set m"
  by (rule map_of_SomeD)

lemma hm_get_of_in: "hm_wf m \<Longrightarrow> (k, v) \<in> set m \<Longrightarrow> hm_get m k = Some v"
  by simp

lemma hm_get_None: "hm_get m k = None \<longleftrightarrow> k \<notin> set (hm_keys m)"
  by (simp add: map_of_eq_None_iff)

lemma set_hm_insert: "hm_wf m \<Longrightarrow> set (hm_insert k v m) = insert (k, v) {p \<in> set m. fst p \<noteq> k}"
  by (induction m) (auto simp: rev_image_eqI)

lemma hm_keys_insert [hm_simps]: "set (hm_keys (hm_insert k v m)) = insert k (set (hm_keys m))"
  by (induction m) auto

lemma hm_keys_list_insert:
  "hm_keys (hm_insert k v m) = (if k \<in> set (hm_keys m) then hm_keys m else hm_keys m @ [k])"
  by (rule update_keys)

lemma hm_insert_absent: "k \<notin> set (hm_keys m) \<Longrightarrow> hm_insert k v m = m @ [(k, v)]"
  by (induction m) auto

lemma hm_keys_retain: "hm_keys (hm_retain (\<lambda>k _. P k) m) = filter P (hm_keys m)"
  by (induction m) (auto simp: hm_retain_def)

lemma set_hm_retain: "set (hm_retain P m) = {(k, v) \<in> set m. P k v}"
  by (auto simp: hm_retain_def)

lemma hm_len_insert:
  "length (hm_insert k v m) = (if k \<in> set (hm_keys m) then length m else Suc (length m))"
  by (induction m) auto

lemma hm_remove_filter: "hm_remove k m = filter (\<lambda>p. fst p \<noteq> k) m"
  by (induction m) auto

lemma set_hm_remove: "set (hm_remove k m) = {p \<in> set m. fst p \<noteq> k}"
  by (auto simp: hm_remove_filter)

lemma hm_len_remove_le: "length (hm_remove k m) \<le> length m"
  by (rule length_delete_le)

lemma hm_len_remove: "k \<in> set (hm_keys m) \<Longrightarrow> length (hm_remove k m) < length m"
proof (induction m)
  case (Cons a m)
  then show ?case by (cases "fst a = k") (auto simp: less_Suc_eq_le hm_len_remove_le)
qed simp

lemma hm_remove_absent: "k \<notin> set (hm_keys m) \<Longrightarrow> hm_remove k m = m"
  by (simp add: delete_id)

lemma hm_all_iff:
  assumes "hm_wf m"
  shows "(\<forall>p\<in>set m. P (fst p) (snd p)) \<and> (\<forall>k. k \<notin> set (hm_keys m) \<longrightarrow> Q k)
    \<longleftrightarrow> (\<forall>k. case hm_get m k of None \<Rightarrow> Q k | Some v \<Rightarrow> P k v)" (is "?l \<and> ?m \<longleftrightarrow> ?r")
proof
  assume lm: "?l \<and> ?m"
  show ?r
  proof
    fix k
    show "case hm_get m k of None \<Rightarrow> Q k | Some v \<Rightarrow> P k v"
    proof (cases "hm_get m k")
      case None
      then have "k \<notin> set (hm_keys m)" unfolding hm_get_None .
      with lm have "Q k" by blast
      with None show ?thesis by simp
    next
      case (Some v)
      with lm hm_get_in [OF Some] show ?thesis by fastforce
    qed
  qed
next
  assume r: ?r
  have "P (fst p) (snd p)" if "p \<in> set m" for p
  proof -
    have "hm_get m (fst p) = Some (snd p)" using that by (intro hm_get_of_in [OF assms]) simp
    with r [rule_format, of "fst p"] show ?thesis by simp
  qed
  moreover have "Q k" if "k \<notin> set (hm_keys m)" for k
    using r [rule_format, of k] that unfolding hm_get_None [symmetric] by simp
  ultimately show "?l \<and> ?m" by blast
qed

subsection \<open>Loops that may fail\<close>

text \<open>A \<open>for\<close> loop whose body may panic: \<^const>\<open>None\<close> as soon as one step is.\<close>

fun fold_opt :: "('x \<Rightarrow> 's \<Rightarrow> 's option) \<Rightarrow> 'x list \<Rightarrow> 's \<Rightarrow> 's option" where
  "fold_opt f [] s = Some s"
| "fold_opt f (x # xs) s = (case f x s of None \<Rightarrow> None | Some s' \<Rightarrow> fold_opt f xs s')"

subsection \<open>Hash sets\<close>

abbreviation hs_insert :: "'a \<Rightarrow> 'a list \<Rightarrow> 'a list" where
  "hs_insert x s \<equiv> List.insert x s"

abbreviation hs_remove :: "'a \<Rightarrow> 'a list \<Rightarrow> 'a list" where
  "hs_remove x s \<equiv> removeAll x s"

lemma length_hs_insert: "length (hs_insert x s) = (if x \<in> set s then length s else Suc (length s))"
  by (simp add: List.insert_def)

end
