(* ===== verification/Consensus_Params.thy ===== *)
theory Consensus_Params
  imports Prelude
begin

text \<open>
  Parameters, phases, stall accounting and the validation freshness window of the
  consensus crate: \<^verbatim>\<open>crates/consensus/src/{params,phase,stall,validation_current}.rs\<close>.
  The theorems give the escalation of the agreement threshold, the exact stall history
  that makes a node resynchronise, and the freshness window without its saturations.
\<close>

subsection \<open>Parameters and phases\<close>

record consensus_params =
  ledger_idle_interval_ms :: nat
  propose_interval_ms :: nat
  converge_poll_interval_ms :: nat
  initial_threshold :: nat
  threshold_increase :: nat
  max_threshold :: nat
  max_consensus_rounds :: nat
  close_time_resolution :: nat
  min_consensus_time_ms :: nat

definition default_params :: consensus_params where
  "default_params =
     \<lparr>ledger_idle_interval_ms = 2000, propose_interval_ms = 1250, converge_poll_interval_ms = 0,
      initial_threshold = 50, threshold_increase = 10, max_threshold = 80,
      max_consensus_rounds = 25, close_time_resolution = 30, min_consensus_time_ms = 0\<rparr>"

definition threshold_for_round :: "consensus_params \<Rightarrow> nat \<Rightarrow> nat" where
  "threshold_for_round p round =
     (let threshold = wrap32 (initial_threshold p + wrap32 (round * threshold_increase p))
      in min threshold (max_threshold p))"

datatype consensus_phase = Open | Establish | Accepted

fun phase_to_string :: "consensus_phase \<Rightarrow> string" where
  "phase_to_string Open = ''open''"
| "phase_to_string Establish = ''establish''"
| "phase_to_string Accepted = ''accepted''"

datatype consensus_error =
    WrongPhase string string \<comment> \<open>expected, actual\<close>
  | InvalidProposal
  | InvalidValidation

subsection \<open>Stall accounting\<close>

datatype stall_action = Retry | Resync

record stall_metrics =
  total_stalls :: nat
  consecutive_stalls :: nat
  last_stall_ledger :: hash256

definition MAX_RETRY_BEFORE_RESYNC :: nat where
  "MAX_RETRY_BEFORE_RESYNC = 3"

definition stall_metrics_new :: stall_metrics where
  "stall_metrics_new = \<lparr>total_stalls = 0, consecutive_stalls = 0, last_stall_ledger = 0\<rparr>"

definition record_stall :: "stall_metrics \<Rightarrow> hash256 \<Rightarrow> stall_metrics \<times> stall_action" where
  "record_stall m prev_ledger =
     (let m = m\<lparr>total_stalls := wrap64 (total_stalls m + 1)\<rparr>;
          m = (if prev_ledger = last_stall_ledger m
               then m\<lparr>consecutive_stalls := wrap32 (consecutive_stalls m + 1)\<rparr>
               else m\<lparr>consecutive_stalls := 1, last_stall_ledger := prev_ledger\<rparr>)
      in (m, if MAX_RETRY_BEFORE_RESYNC \<le> consecutive_stalls m then Resync else Retry))"

definition reset_consecutive :: "stall_metrics \<Rightarrow> stall_metrics" where
  "reset_consecutive m = m\<lparr>consecutive_stalls := 0, last_stall_ledger := 0\<rparr>"

fun record_stalls :: "stall_metrics \<Rightarrow> hash256 list \<Rightarrow> stall_metrics" where
  "record_stalls m [] = m"
| "record_stalls m (h # hs) = record_stalls (fst (record_stall m h)) hs"

text \<open>The length of the run of equal ledgers that ends a stall history.\<close>

definition final_run :: "hash256 list \<Rightarrow> nat" where
  "final_run hs = length (takeWhile ((=) (last hs)) (rev hs))"

subsection \<open>Freshness of validations\<close>

definition VALIDATION_CURRENT_WALL :: nat where
  "VALIDATION_CURRENT_WALL = 5 * 60"

definition VALIDATION_CURRENT_LOCAL :: nat where
  "VALIDATION_CURRENT_LOCAL = 3 * 60"

definition VALIDATION_CURRENT_EARLY :: nat where
  "VALIDATION_CURRENT_EARLY = 3 * 60"

definition is_current :: "nat \<Rightarrow> nat \<Rightarrow> nat \<Rightarrow> bool" where
  "is_current now sign_time seen_time =
     (let early_floor = now - VALIDATION_CURRENT_EARLY;
          wall_ceiling = sat_add32 now VALIDATION_CURRENT_WALL;
          local_ceiling = sat_add32 now VALIDATION_CURRENT_LOCAL;
          sign_in_window = (early_floor < sign_time \<and> sign_time < wall_ceiling);
          seen_ok = (seen_time = 0 \<or> seen_time < local_ceiling)
      in sign_in_window \<and> seen_ok)"

subsection \<open>Threshold escalation\<close>

lemma threshold_no_wrap:
  assumes "initial_threshold p + r * threshold_increase p \<le> u32_max"
  shows "threshold_for_round p r = min (initial_threshold p + r * threshold_increase p) (max_threshold p)"
  using assms by (simp add: threshold_for_round_def Let_def wrap32_id)

text \<open>As long as the linear escalation stays inside u32, the agreement threshold never
  drops from one round to a later one, never exceeds the configured maximum, and sits at the
  maximum from the round on at which the escalation reaches it.\<close>

theorem threshold_escalates:
  assumes "initial_threshold p + s * threshold_increase p \<le> u32_max" and "r \<le> s"
  shows "threshold_for_round p r \<le> threshold_for_round p s
    \<and> threshold_for_round p s \<le> max_threshold p
    \<and> (max_threshold p \<le> initial_threshold p + r * threshold_increase p
        \<longrightarrow> threshold_for_round p s = max_threshold p)"
proof -
  have le: "r * threshold_increase p \<le> s * threshold_increase p"
    using assms(2) by simp
  then have "initial_threshold p + r * threshold_increase p \<le> u32_max"
    using assms(1) by linarith
  note eqs = threshold_no_wrap [OF this] threshold_no_wrap [OF assms(1)]
  show ?thesis unfolding eqs using le by linarith
qed

theorem threshold_escalates_witness:
  "threshold_for_round default_params 1 \<le> threshold_for_round default_params 3
    \<and> threshold_for_round default_params 3 \<le> 80
    \<and> threshold_for_round default_params 3 = 80"
  using threshold_escalates [of default_params 3 1] threshold_escalates [of default_params 3 3]
  by (simp add: default_params_def u32_max_def)

subsection \<open>Stall histories\<close>

lemma final_run_small [simp]: "final_run [] = 0" "final_run [h] = 1"
  by (simp_all add: final_run_def)

lemma final_run_snoc:
  "final_run (hs @ [h]) = (if hs \<noteq> [] \<and> last hs = h then Suc (final_run hs) else 1)"
  by (cases hs rule: rev_cases) (auto simp: final_run_def)

lemma final_run_le: "final_run hs \<le> length hs"
  using length_takeWhile_le [of _ "rev hs"] by (simp add: final_run_def)

lemma record_stalls_snoc: "record_stalls m (hs @ [h]) = fst (record_stall (record_stalls m hs) h)"
  by (induction hs arbitrary: m) auto

lemma record_stalls_state:
  assumes "length hs \<le> u32_max"
  shows "consecutive_stalls (record_stalls stall_metrics_new hs) = final_run hs
    \<and> (hs \<noteq> [] \<longrightarrow> last_stall_ledger (record_stalls stall_metrics_new hs) = last hs)
    \<and> (hs = [] \<longrightarrow> last_stall_ledger (record_stalls stall_metrics_new hs) = 0)"
  using assms
proof (induction hs rule: rev_induct)
  case Nil
  show ?case by (simp add: stall_metrics_new_def final_run_def)
next
  case (snoc h hs)
  let ?m = "record_stalls stall_metrics_new hs"
  have IH: "consecutive_stalls ?m = final_run hs"
    "hs \<noteq> [] \<Longrightarrow> last_stall_ledger ?m = last hs" "hs = [] \<Longrightarrow> last_stall_ledger ?m = 0"
    using snoc by auto
  have "Suc (final_run hs) \<le> u32_max"
    using final_run_le [of hs] snoc.prems by simp
  then show ?case
    using IH by (cases "hs = []")
      (auto simp: record_stalls_snoc record_stall_def Let_def final_run_snoc wrap32_id u32_max_def
        simp flip: One_nat_def)
qed

text \<open>After any history of fewer than 2^32 stalls since the metrics were created, the next
  stall asks for a resync exactly when it and the two stalls before it hit the same previous
  ledger; otherwise the round is retried.\<close>

theorem stall_resync_iff_three_in_a_row:
  assumes "length hs < u32_max"
  shows "snd (record_stall (record_stalls stall_metrics_new hs) h) = Resync
    \<longleftrightarrow> 3 \<le> final_run (hs @ [h])"
proof -
  let ?m = "record_stalls stall_metrics_new hs"
  have "consecutive_stalls (fst (record_stall ?m h)) = final_run (hs @ [h])"
    using record_stalls_state [of "hs @ [h]"] assms by (simp add: record_stalls_snoc)
  then show ?thesis
    by (auto simp: record_stall_def Let_def MAX_RETRY_BEFORE_RESYNC_def split: if_splits)
qed

theorem stall_resync_iff_three_in_a_row_witness:
  "snd (record_stall (record_stalls stall_metrics_new [1, 7, 7]) 7) = Resync
    \<and> snd (record_stall (record_stalls stall_metrics_new [7, 7, 1]) 7) = Retry"
proof -
  have a: "snd (record_stall (record_stalls stall_metrics_new [1, 7, 7]) 7) = Resync"
    using stall_resync_iff_three_in_a_row [of "[1, 7, 7]" 7] by (simp add: u32_max_def final_run_def)
  have "snd (record_stall (record_stalls stall_metrics_new [7, 7, 1]) 7) \<noteq> Resync"
    using stall_resync_iff_three_in_a_row [of "[7, 7, 1]" 7] by (simp add: u32_max_def final_run_def)
  then have "snd (record_stall (record_stalls stall_metrics_new [7, 7, 1]) 7) = Retry"
    by (cases "snd (record_stall (record_stalls stall_metrics_new [7, 7, 1]) 7)") auto
  with a show ?thesis by blast
qed

subsection \<open>The freshness window\<close>

text \<open>Away from the ends of the 32-bit clock the saturating window test is the documented
  one over unbounded integers: signed later than three minutes ago, earlier than five minutes
  ahead, and first seen (if a seen time is set) earlier than three minutes ahead.\<close>

theorem is_current_window:
  assumes "180 \<le> now" and "now + 300 \<le> u32_max"
  shows "is_current now sign seen \<longleftrightarrow>
    int now - 180 < int sign \<and> int sign < int now + 300 \<and> (seen = 0 \<or> int seen < int now + 180)"
  using assms
  by (auto simp: is_current_def Let_def VALIDATION_CURRENT_WALL_def VALIDATION_CURRENT_LOCAL_def
      VALIDATION_CURRENT_EARLY_def sat_add32_id)

theorem is_current_window_witness:
  "is_current 1000000 1000299 0 \<and> \<not> is_current 1000000 999820 0 \<and> \<not> is_current 1000000 1000000 1000180"
  using is_current_window [of 1000000 1000299 0] is_current_window [of 1000000 999820 0]
    is_current_window [of 1000000 1000000 1000180]
  by (simp add: u32_max_def)

end
