(* ===== verification/Consensus_Timer.thy ===== *)
theory Consensus_Timer
  imports Consensus_Params
begin

text \<open>
  The tick mechanism of \<^verbatim>\<open>crates/consensus/src/timer.rs\<close>. An \<open>Instant\<close> and a \<open>Duration\<close>
  are numbers of nanoseconds; each operation takes the instant that \<open>Instant::now()\<close> returns
  in it. \<open>duration_since\<close> and \<open>saturating_sub\<close> stop at zero, as subtraction on
  \<^typ>\<open>nat\<close> does. The theorems bound the adaptive open duration over every reachable
  timer state, space the convergence ticks, and tie the reported waiting time to the tick.
\<close>

datatype timer_action = CloseLedger | Converge | StallAbort

definition from_millis :: "nat \<Rightarrow> nat" where
  "from_millis ms = ms * 1000000"

definition duration_checked_mul :: "nat \<Rightarrow> nat \<Rightarrow> nat option" where
  "duration_checked_mul d n = (if u64_max < d * n div 1000000000 then None else Some (d * n))"

record consensus_timer =
  phase_start :: nat
  timer_phase :: consensus_phase
  open_duration :: nat
  converge_interval :: nat
  last_converge :: nat
  stall_timeout :: nat
  last_converge_duration :: "nat option"
  min_open_duration :: nat
  base_open_duration :: nat

definition timer_new :: "consensus_params \<Rightarrow> nat \<Rightarrow> consensus_timer" where
  "timer_new params now =
     (let open_dur = from_millis (ledger_idle_interval_ms params);
          poll_ms = (if 0 < converge_poll_interval_ms params
                     then converge_poll_interval_ms params else propose_interval_ms params);
          stall = (case duration_checked_mul (from_millis (propose_interval_ms params))
                          (wrap32 (max_consensus_rounds params * 2)) of
                     Some d \<Rightarrow> d | None \<Rightarrow> from_millis 60000)
      in \<lparr>phase_start = now, timer_phase = Open, open_duration = open_dur,
          converge_interval = from_millis poll_ms, last_converge = now, stall_timeout = stall,
          last_converge_duration = None, min_open_duration = from_millis 2000,
          base_open_duration = open_dur\<rparr>)"

definition adapt_open_duration :: "consensus_timer \<Rightarrow> consensus_timer" where
  "adapt_open_duration t =
     (case last_converge_duration t of
        None \<Rightarrow> t
      | Some converge_dur \<Rightarrow>
          (let fast_threshold = converge_interval t in
           if converge_dur \<le> fast_threshold
           then (let reduction = open_duration t div 5
                 in t\<lparr>open_duration := max (open_duration t - reduction) (min_open_duration t)\<rparr>)
           else (let increase = base_open_duration t div 10
                 in t\<lparr>open_duration := min (open_duration t + increase) (base_open_duration t)\<rparr>)))"

definition on_phase_change :: "consensus_timer \<Rightarrow> consensus_phase \<Rightarrow> nat \<Rightarrow> consensus_timer" where
  "on_phase_change t new_phase now =
     (let t = (if timer_phase t = Establish \<and> new_phase = Accepted
               then t\<lparr>last_converge_duration := Some (now - phase_start t)\<rparr> else t);
          t = (if new_phase = Open then adapt_open_duration t else t)
      in t\<lparr>timer_phase := new_phase, phase_start := now, last_converge := now\<rparr>)"

definition tick :: "consensus_timer \<Rightarrow> nat \<Rightarrow> consensus_timer \<times> timer_action option" where
  "tick t now =
     (let elapsed = now - phase_start t in
      case timer_phase t of
        Open \<Rightarrow> (t, if open_duration t \<le> elapsed then Some CloseLedger else None)
      | Establish \<Rightarrow>
          (if stall_timeout t \<le> elapsed then (t, Some StallAbort)
           else (let since_last = now - last_converge t in
                 if converge_interval t \<le> since_last
                 then (t\<lparr>last_converge := now\<rparr>, Some Converge)
                 else (t, None)))
      | Accepted \<Rightarrow> (t, None))"

definition time_until_next_action :: "consensus_timer \<Rightarrow> nat \<Rightarrow> nat option" where
  "time_until_next_action t now =
     (let elapsed = now - phase_start t in
      case timer_phase t of
        Open \<Rightarrow> Some (open_duration t - elapsed)
      | Establish \<Rightarrow> (let since_last = now - last_converge t
                       in Some (converge_interval t - since_last))
      | Accepted \<Rightarrow> None)"

text \<open>The states a timer goes through when its owner ticks it and reports phase changes at
  whatever instants the clock gives.\<close>

inductive timer_step :: "consensus_timer \<Rightarrow> consensus_timer \<Rightarrow> bool" where
  step_tick: "timer_step t (fst (tick t now))"
| step_phase: "timer_step t (on_phase_change t phase now)"

inductive timer_reachable :: "consensus_params \<Rightarrow> consensus_timer \<Rightarrow> bool" for params where
  timer_start: "timer_reachable params (timer_new params now)"
| timer_next: "timer_reachable params t \<Longrightarrow> timer_step t t' \<Longrightarrow> timer_reachable params t'"

text \<open>The instants at which a sequence of ticks asks for a convergence round.\<close>

fun converge_times :: "consensus_timer \<Rightarrow> nat list \<Rightarrow> nat list" where
  "converge_times t [] = []"
| "converge_times t (now # ts) =
     (case tick t now of (t', a) \<Rightarrow>
        (if a = Some Converge then [now] else []) @ converge_times t' ts)"

subsection \<open>The open duration stays in its bounds\<close>

definition open_bounds :: "nat \<Rightarrow> consensus_timer \<Rightarrow> bool" where
  "open_bounds base t \<longleftrightarrow> base_open_duration t = base \<and> min_open_duration t = from_millis 2000
     \<and> min_open_duration t \<le> open_duration t \<and> open_duration t \<le> base"

lemma tick_frame [simp]:
  "open_duration (fst (tick t now)) = open_duration t"
  "base_open_duration (fst (tick t now)) = base_open_duration t"
  "min_open_duration (fst (tick t now)) = min_open_duration t"
  "timer_phase (fst (tick t now)) = timer_phase t"
  "converge_interval (fst (tick t now)) = converge_interval t"
  "stall_timeout (fst (tick t now)) = stall_timeout t"
  "phase_start (fst (tick t now)) = phase_start t"
  by (simp_all add: tick_def Let_def split: consensus_phase.split)

lemma open_bounds_step:
  assumes "timer_step t t'" and "open_bounds base t"
  shows "open_bounds base t'"
  using assms(1)
proof (cases rule: timer_step.cases)
  case (step_tick now)
  with assms(2) show ?thesis by (simp add: open_bounds_def)
next
  case (step_phase phase now)
  with assms(2) show ?thesis
    by (auto simp: open_bounds_def on_phase_change_def adapt_open_duration_def Let_def
        split: option.split)
qed

text \<open>With an idle interval of at least two seconds, in every state the timer can reach the
  adaptive open duration stays between the two second floor and the configured base.\<close>

theorem timer_open_duration_bounded:
  assumes "timer_reachable params t" and "2000 \<le> ledger_idle_interval_ms params"
  shows "from_millis 2000 \<le> open_duration t
    \<and> open_duration t \<le> from_millis (ledger_idle_interval_ms params)"
proof -
  have "open_bounds (from_millis (ledger_idle_interval_ms params)) t"
    using assms(1)
  proof (induction rule: timer_reachable.induct)
    case (timer_start now)
    show ?case using assms(2)
      by (simp add: open_bounds_def timer_new_def Let_def from_millis_def)
  next
    case (timer_next t t')
    then show ?case by (blast intro: open_bounds_step)
  qed
  then show ?thesis by (simp add: open_bounds_def)
qed

theorem timer_open_duration_bounded_witness:
  "from_millis 2000 \<le> open_duration (on_phase_change (timer_new default_params 0) Establish 9)
    \<and> open_duration (on_phase_change (timer_new default_params 0) Establish 9) \<le> from_millis 2000"
proof -
  have "timer_reachable default_params (on_phase_change (timer_new default_params 0) Establish 9)"
    by (rule timer_next [OF timer_start]) (rule step_phase)
  from timer_open_duration_bounded [OF this] show ?thesis by (simp add: default_params_def)
qed

text \<open>With an idle interval below two seconds the floor wins over the documented ceiling:
  after one round whose Establish phase took at most one converge interval, the open phase is
  set to two seconds, longer than the configured base that the field comment calls the ceiling
  of the adaptation.\<close>

theorem timer_short_interval_exceeds_base:
  assumes "ledger_idle_interval_ms params < 2000"
    and "t2 - t1 \<le> converge_interval (timer_new params t0)"
  shows "let t = on_phase_change (on_phase_change (on_phase_change
               (timer_new params t0) Establish t1) Accepted t2) Open t3
         in open_duration t = from_millis 2000 \<and> base_open_duration t < open_duration t"
proof -
  have "from_millis (ledger_idle_interval_ms params) < from_millis 2000"
    using assms(1) by (simp add: from_millis_def)
  then show ?thesis
    using assms(2) by (simp add: timer_new_def on_phase_change_def adapt_open_duration_def Let_def)
qed

theorem timer_short_interval_exceeds_base_witness:
  "open_duration (on_phase_change (on_phase_change (on_phase_change
      (timer_new (default_params\<lparr>ledger_idle_interval_ms := 100\<rparr>) 0) Establish 1) Accepted 2) Open 3)
    = from_millis 2000"
proof -
  let ?p = "default_params\<lparr>ledger_idle_interval_ms := 100\<rparr>"
  have "ledger_idle_interval_ms ?p < 2000" by (simp add: default_params_def)
  moreover have "2 - 1 \<le> converge_interval (timer_new ?p 0)"
    by (simp add: timer_new_def default_params_def Let_def from_millis_def)
  ultimately show ?thesis
    using timer_short_interval_exceeds_base [of ?p 2 1 0 3] by (simp add: Let_def)
qed

subsection \<open>Spacing of convergence ticks\<close>

lemma converge_times_spaced:
  "sorted ts \<Longrightarrow> (\<forall>x\<in>set ts. last_converge t \<le> x) \<Longrightarrow>
     successively (\<lambda>a b. a + converge_interval t \<le> b) (last_converge t # converge_times t ts)"
proof (induction ts arbitrary: t)
  case Nil
  then show ?case by simp
next
  case (Cons now ts)
  obtain t' a where tick: "tick t now = (t', a)" by (cases "tick t now")
  show ?case
  proof (cases "a = Some Converge")
    case True
    then have t': "last_converge t' = now" "converge_interval t' = converge_interval t"
      and gap: "converge_interval t \<le> now - last_converge t"
      using tick by (auto simp: tick_def Let_def split: consensus_phase.splits if_splits)
    have "successively (\<lambda>a b. a + converge_interval t \<le> b) (now # converge_times t' ts)"
      using Cons.IH [of t'] Cons.prems t' by simp
    moreover have "last_converge t + converge_interval t \<le> now"
      using gap Cons.prems(2) by auto
    ultimately show ?thesis using tick True by simp
  next
    case False
    then have "last_converge t' = last_converge t" "converge_interval t' = converge_interval t"
      using tick by (auto simp: tick_def Let_def split: consensus_phase.splits if_splits)
    then show ?thesis using Cons.IH [of t'] Cons.prems tick False by simp
  qed
qed

text \<open>Whatever the polling instants, as long as the clock does not run backwards, two
  convergence rounds that a timer asks for within one phase lie at least one converge interval
  apart, and the first lies at least that far from the start of the phase.\<close>

theorem timer_converge_spacing:
  assumes "sorted ts" and "\<forall>x\<in>set ts. now \<le> x"
  shows "successively (\<lambda>a b. a + converge_interval t \<le> b)
           (now # converge_times (on_phase_change t Establish now) ts)"
proof -
  let ?t = "on_phase_change t Establish now"
  have "last_converge ?t = now" "converge_interval ?t = converge_interval t"
    by (simp_all add: on_phase_change_def Let_def)
  then show ?thesis using converge_times_spaced [of ts ?t] assms by simp
qed

theorem timer_converge_spacing_witness:
  "successively (\<lambda>a b. a + converge_interval (timer_new default_params 0) \<le> b)
     (5 # converge_times (on_phase_change (timer_new default_params 0) Establish 5)
        [10, 1250000005, 1250000006, 2600000000])"
  by (rule timer_converge_spacing) simp_all

text \<open>The reported waiting time is honest: when it is zero, ticking at that instant yields
  an action, and while it is positive a tick yields nothing but a stall abort.\<close>

theorem time_until_next_action_sound:
  assumes "time_until_next_action t now = Some d"
  shows "(d = 0 \<longrightarrow> snd (tick t now) \<noteq> None) \<and> (0 < d \<longrightarrow> snd (tick t now) \<in> {None, Some StallAbort})"
  using assms
  by (auto simp: time_until_next_action_def tick_def Let_def split: consensus_phase.splits)

theorem time_until_next_action_sound_witness:
  "snd (tick (timer_new default_params 0) 2000000000) \<noteq> None
    \<and> snd (tick (timer_new default_params 0) 1999999999) \<in> {None, Some StallAbort}"
proof -
  have a: "time_until_next_action (timer_new default_params 0) 2000000000 = Some 0"
    and b: "time_until_next_action (timer_new default_params 0) 1999999999 = Some 1"
    by (simp_all add: time_until_next_action_def timer_new_def default_params_def Let_def from_millis_def)
  show ?thesis
    using time_until_next_action_sound [OF a] time_until_next_action_sound [OF b] by simp
qed

end
