(* ===== verification/Close_Resolution.thy ===== *)
theory Close_Resolution
  imports Prelude
begin

text \<open>
  Close-time resolution and rounding: \<^verbatim>\<open>crates/consensus/src/close_resolution.rs\<close> and the
  free functions \<open>avalanche_dispute_threshold\<close>, \<open>round_close_time\<close> and \<open>eff_close_time\<close>
  of \<^verbatim>\<open>crates/consensus/src/engine.rs\<close>. The theorems show that the tracker never leaves
  the table of bins, that it finds the nearest bin, where repeated agreement and
  disagreement drive it, and what rounding and clamping do to a close time.
\<close>

subsection \<open>Bins and the next resolution\<close>

definition TIME_RESOLUTIONS :: "nat list" where
  "TIME_RESOLUTIONS = [10, 20, 30, 60, 90, 120]"

definition DEFAULT_RESOLUTION_INDEX :: nat where
  "DEFAULT_RESOLUTION_INDEX = 2"

definition GENESIS_RESOLUTION_INDEX :: nat where
  "GENESIS_RESOLUTION_INDEX = 0"

definition AGREEMENTS_TO_TIGHTEN :: nat where
  "AGREEMENTS_TO_TIGHTEN = 5"

definition INCREASE_LEDGER_TIME_RESOLUTION_EVERY :: nat where
  "INCREASE_LEDGER_TIME_RESOLUTION_EVERY = 8"

definition DECREASE_LEDGER_TIME_RESOLUTION_EVERY :: nat where
  "DECREASE_LEDGER_TIME_RESOLUTION_EVERY = 1"

text \<open>\<open>iter().position(|&r| r == x)\<close>: the index of the first occurrence.\<close>

fun position :: "'a \<Rightarrow> 'a list \<Rightarrow> nat option" where
  "position x [] = None"
| "position x (y # ys) = (if y = x then Some 0 else map_option Suc (position x ys))"

definition next_resolution :: "nat \<Rightarrow> bool \<Rightarrow> nat \<Rightarrow> nat" where
  "next_resolution parent_resolution previous_agree new_ledger_seq =
     (if new_ledger_seq = 0 then parent_resolution
      else case position parent_resolution TIME_RESOLUTIONS of
        None \<Rightarrow> parent_resolution
      | Some idx \<Rightarrow>
          if \<not> previous_agree \<and> new_ledger_seq mod DECREASE_LEDGER_TIME_RESOLUTION_EVERY = 0
             \<and> idx + 1 < length TIME_RESOLUTIONS
          then TIME_RESOLUTIONS ! (idx + 1)
          else if previous_agree \<and> new_ledger_seq mod INCREASE_LEDGER_TIME_RESOLUTION_EVERY = 0
             \<and> 0 < idx
          then TIME_RESOLUTIONS ! (idx - 1)
          else parent_resolution)"

fun nearest_index_loop :: "nat \<Rightarrow> nat \<Rightarrow> nat list \<Rightarrow> nat \<Rightarrow> nat \<Rightarrow> nat" where
  "nearest_index_loop resolution i [] best_idx best_diff = best_idx"
| "nearest_index_loop resolution i (r # rs) best_idx best_diff =
     (let diff = abs_diff r resolution in
      if diff < best_diff then nearest_index_loop resolution (Suc i) rs i diff
      else nearest_index_loop resolution (Suc i) rs best_idx best_diff)"

definition nearest_index :: "nat \<Rightarrow> nat" where
  "nearest_index resolution = nearest_index_loop resolution 0 TIME_RESOLUTIONS 0 u32_max"

subsection \<open>The adaptive tracker\<close>

record adaptive_close_time =
  act_index :: nat
  consecutive_agreements :: nat
  agreements_to_tighten :: nat

definition act_new :: "nat \<Rightarrow> adaptive_close_time" where
  "act_new initial_resolution =
     \<lparr>act_index = nearest_index initial_resolution, consecutive_agreements = 0,
      agreements_to_tighten = AGREEMENTS_TO_TIGHTEN\<rparr>"

definition act_with_index :: "nat \<Rightarrow> nat \<Rightarrow> adaptive_close_time" where
  "act_with_index index tighten =
     \<lparr>act_index = min index (length TIME_RESOLUTIONS - 1), consecutive_agreements = 0,
      agreements_to_tighten = tighten\<rparr>"

definition act_default :: adaptive_close_time where
  "act_default = act_with_index DEFAULT_RESOLUTION_INDEX AGREEMENTS_TO_TIGHTEN"

definition act_resolution :: "adaptive_close_time \<Rightarrow> nat" where
  "act_resolution a = TIME_RESOLUTIONS ! act_index a"

definition set_resolution :: "adaptive_close_time \<Rightarrow> nat \<Rightarrow> adaptive_close_time" where
  "set_resolution a resolution = a\<lparr>act_index := nearest_index resolution\<rparr>"

definition on_agreement :: "adaptive_close_time \<Rightarrow> adaptive_close_time" where
  "on_agreement a =
     (let a = a\<lparr>consecutive_agreements := wrap32 (consecutive_agreements a + 1)\<rparr> in
      if agreements_to_tighten a \<le> consecutive_agreements a
      then (if 0 < act_index a then a\<lparr>act_index := act_index a - 1\<rparr> else a)\<lparr>consecutive_agreements := 0\<rparr>
      else a)"

definition on_disagreement :: "adaptive_close_time \<Rightarrow> adaptive_close_time" where
  "on_disagreement a =
     (let a = a\<lparr>consecutive_agreements := 0\<rparr> in
      if act_index a + 1 < length TIME_RESOLUTIONS then a\<lparr>act_index := act_index a + 1\<rparr> else a)"

definition act_reset :: "adaptive_close_time \<Rightarrow> adaptive_close_time" where
  "act_reset a = a\<lparr>act_index := DEFAULT_RESOLUTION_INDEX, consecutive_agreements := 0\<rparr>"

text \<open>One round of the engine: recompute the resolution from the tracker's own value.\<close>

definition act_round :: "adaptive_close_time \<Rightarrow> bool \<Rightarrow> nat \<Rightarrow> adaptive_close_time" where
  "act_round a agreed ledger_seq =
     set_resolution a (next_resolution (act_resolution a) agreed ledger_seq)"

fun act_rounds :: "adaptive_close_time \<Rightarrow> bool list \<Rightarrow> nat \<Rightarrow> adaptive_close_time" where
  "act_rounds a [] ledger_seq = a"
| "act_rounds a (agreed # rest) ledger_seq = act_rounds (act_round a agreed ledger_seq) rest (Suc ledger_seq)"

subsection \<open>Thresholds and rounding\<close>

definition avalanche_dispute_threshold :: "nat \<Rightarrow> nat" where
  "avalanche_dispute_threshold round =
     (if round = 0 then 50 else if round = 1 then 65 else if round = 2 then 70 else 95)"

definition round_close_time :: "nat \<Rightarrow> nat \<Rightarrow> nat" where
  "round_close_time t resolution =
     (if resolution = 0 then t
      else sat_add32 t (resolution div 2) div resolution * resolution)"

definition eff_close_time :: "nat \<Rightarrow> nat \<Rightarrow> nat \<Rightarrow> nat" where
  "eff_close_time close_time resolution prior_close_time =
     (if close_time = 0 then 0
      else let rounded = round_close_time close_time resolution;
               min_allowed = sat_add32 prior_close_time 1
           in if min_allowed < rounded then rounded else min_allowed)"

subsection \<open>The tracker stays on the table\<close>

definition act_wf :: "adaptive_close_time \<Rightarrow> bool" where
  "act_wf a \<longleftrightarrow> act_index a < length TIME_RESOLUTIONS"

lemmas resolution_tables = TIME_RESOLUTIONS_def DEFAULT_RESOLUTION_INDEX_def
  INCREASE_LEDGER_TIME_RESOLUTION_EVERY_def DECREASE_LEDGER_TIME_RESOLUTION_EVERY_def

lemma abs_diff_less_iff: "a < b \<Longrightarrow> abs_diff b r < abs_diff a r \<longleftrightarrow> a + b < 2 * r"
  by (auto simp: abs_diff_def)

lemma nearest_index_closed_form:
  assumes "res \<le> u32_max"
  shows "nearest_index res =
    (if res \<le> 15 then 0 else if res \<le> 25 then 1 else if res \<le> 45 then 2
     else if res \<le> 75 then 3 else if res \<le> 105 then 4 else 5)"
proof -
  have "abs_diff 10 res < u32_max" using assms by (auto simp: abs_diff_def u32_max_def)
  then show ?thesis
    by (simp add: nearest_index_def TIME_RESOLUTIONS_def Let_def abs_diff_less_iff)
qed

lemma less_6_cases: "k < (6::nat) \<Longrightarrow> k \<in> {0, 1, 2, 3, 4, 5}"
  by auto

lemma resolution_nth [simp]:
  "TIME_RESOLUTIONS ! 0 = 10" "TIME_RESOLUTIONS ! Suc 0 = 20" "TIME_RESOLUTIONS ! 2 = 30"
  "TIME_RESOLUTIONS ! 3 = 60" "TIME_RESOLUTIONS ! 4 = 90" "TIME_RESOLUTIONS ! 5 = 120"
  "length TIME_RESOLUTIONS = 6"
  by (simp_all add: TIME_RESOLUTIONS_def)

text \<open>The index chosen for a resolution is that of a bin at minimal distance, and among
  the bins at that distance the finest.\<close>

theorem nearest_index_is_nearest:
  assumes "res \<le> u32_max" and "k < length TIME_RESOLUTIONS"
  shows "abs_diff (TIME_RESOLUTIONS ! nearest_index res) res \<le> abs_diff (TIME_RESOLUTIONS ! k) res
    \<and> (abs_diff (TIME_RESOLUTIONS ! k) res = abs_diff (TIME_RESOLUTIONS ! nearest_index res) res
        \<longrightarrow> nearest_index res \<le> k)
    \<and> nearest_index res < length TIME_RESOLUTIONS"
proof -
  from assms(2) have "k \<in> {0, 1, 2, 3, 4, 5}" by (intro less_6_cases) simp
  then show ?thesis
    by (elim insertE emptyE; auto simp: nearest_index_closed_form [OF assms(1)] abs_diff_def)
qed

theorem nearest_index_is_nearest_witness:
  "abs_diff (TIME_RESOLUTIONS ! nearest_index 45) 45 \<le> abs_diff (TIME_RESOLUTIONS ! 3) 45"
  using nearest_index_is_nearest [of 45 3] by (simp add: u32_max_def)

subsection \<open>Where agreement and disagreement drive the resolution\<close>

lemma nearest_index_of_bin: "i < length TIME_RESOLUTIONS \<Longrightarrow> nearest_index (TIME_RESOLUTIONS ! i) = i"
  using less_6_cases [of i] by (auto simp: nearest_index_closed_form u32_max_def)

lemma next_resolution_of_bin:
  assumes "i < length TIME_RESOLUTIONS" and "0 < seq"
  shows "next_resolution (TIME_RESOLUTIONS ! i) agreed seq = TIME_RESOLUTIONS !
    (if \<not> agreed then min (Suc i) 5 else if 8 dvd seq then i - 1 else i)"
  using less_6_cases [of i] assms
  by (auto simp: next_resolution_def resolution_tables dvd_eq_mod_eq_0)

lemma act_round_index:
  assumes "act_wf a" and "0 < seq"
  shows "act_index (act_round a agreed seq) =
    (if \<not> agreed then min (Suc (act_index a)) 5 else if 8 dvd seq then act_index a - 1 else act_index a)"
proof -
  let ?j = "if \<not> agreed then min (Suc (act_index a)) 5 else if 8 dvd seq then act_index a - 1 else act_index a"
  have "?j < length TIME_RESOLUTIONS" using assms(1) by (auto simp: act_wf_def)
  then show ?thesis
    using next_resolution_of_bin [of "act_index a" seq agreed] nearest_index_of_bin [of ?j] assms
    by (simp add: act_round_def set_resolution_def act_resolution_def act_wf_def)
qed

lemma nearest_index_lt: "nearest_index res < 6"
proof -
  have "nearest_index_loop res i rs bi bd < max (Suc bi) (i + length rs)" for i rs bi bd
    by (induction res i rs bi bd rule: nearest_index_loop.induct) (auto simp: Let_def)
  from this [of 0 TIME_RESOLUTIONS 0 u32_max] show ?thesis by (simp add: nearest_index_def)
qed

text \<open>Every operation of the tracker, the deprecated ones included, keeps its index inside
  the table of bins, so reading the resolution never indexes out of range.\<close>

theorem act_operations_stay_on_table:
  "act_wf (act_new r) \<and> act_wf (act_with_index i n) \<and> act_wf act_default \<and> act_wf (act_reset a)
    \<and> act_wf (set_resolution a r)
    \<and> (act_wf a \<longrightarrow> act_wf (on_agreement a) \<and> act_wf (on_disagreement a) \<and> act_wf (act_round a b s)
        \<and> act_resolution a \<in> set TIME_RESOLUTIONS)"
  using nearest_index_lt
  by (auto simp: act_wf_def act_new_def act_with_index_def act_default_def act_reset_def
      set_resolution_def on_agreement_def on_disagreement_def act_round_def act_resolution_def Let_def
      DEFAULT_RESOLUTION_INDEX_def)

theorem act_operations_stay_on_table_witness:
  "act_wf act_default \<and> act_wf (on_agreement act_default)
    \<and> act_resolution act_default \<in> set TIME_RESOLUTIONS"
  using act_operations_stay_on_table [of 0 0 0 act_default True 0] by blast

lemma act_wf_round: "act_wf a \<Longrightarrow> act_wf (act_round a b s)"
  by (simp add: act_wf_def act_round_def set_resolution_def nearest_index_lt)

lemma act_rounds_disagree:
  "act_wf a \<Longrightarrow> 0 < s \<Longrightarrow>
     act_index (act_rounds a (replicate n False) s) = min (act_index a + n) 5"
proof (induction n arbitrary: a s)
  case 0
  then show ?case by (simp add: act_wf_def)
next
  case (Suc n)
  then have "act_index (act_round a False s) = min (Suc (act_index a)) 5"
    by (simp add: act_round_index)
  with Suc show ?case by (simp add: act_wf_round)
qed

lemma act_rounds_agree:
  "act_wf a \<Longrightarrow> 0 < s \<Longrightarrow>
     act_index (act_rounds a (replicate n True) s) = act_index a - ((s + n + 7) div 8 - (s + 7) div 8)"
proof (induction n arbitrary: a s)
  case 0
  then show ?case by simp
next
  case (Suc n)
  let ?a = "act_round a True s"
  have ix: "act_index ?a = (if 8 dvd s then act_index a - 1 else act_index a)"
    using Suc.prems by (simp add: act_round_index)
  have "(Suc s + 7) div 8 = (if 8 dvd s then Suc ((s + 7) div 8) else (s + 7) div 8)"
    by presburger
  moreover have "(s + 7) div 8 \<le> (s + Suc n + 7) div 8" by (intro div_le_mono) simp
  moreover have "(Suc s + 7) div 8 \<le> (Suc s + n + 7) div 8" by (intro div_le_mono) simp
  ultimately show ?case
    using Suc.IH [of ?a "Suc s"] Suc.prems ix by (cases "act_index a") (auto simp: act_wf_round)
qed

text \<open>Five rounds in a row without close-time agreement take the engine from any bin to the
  coarsest one, and forty rounds in a row with agreement to the finest: the resolution neither
  sticks in the middle of the table nor oscillates while the votes are steady.\<close>

theorem resolution_converges:
  assumes "act_wf a" and "0 < s"
  shows "(5 \<le> n \<longrightarrow> act_resolution (act_rounds a (replicate n False) s) = 120)
    \<and> (40 \<le> n \<longrightarrow> act_resolution (act_rounds a (replicate n True) s) = 10)"
proof (intro conjI impI)
  assume "5 \<le> n"
  then show "act_resolution (act_rounds a (replicate n False) s) = 120"
    using act_rounds_disagree [OF assms, of n] by (simp add: act_resolution_def)
next
  assume n: "40 \<le> n"
  have "(s + 7 + 8 * 5) div 8 = (s + 7) div 8 + 5" by simp
  moreover have "(s + 7 + 8 * 5) div 8 \<le> (s + n + 7) div 8" using n by (intro div_le_mono) simp
  ultimately have "(s + 7) div 8 + 5 \<le> (s + n + 7) div 8" by simp
  then have "act_index (act_rounds a (replicate n True) s) = 0"
    using act_rounds_agree [OF assms, of n] assms(1) by (simp add: act_wf_def)
  then show "act_resolution (act_rounds a (replicate n True) s) = 10"
    by (simp add: act_resolution_def)
qed

theorem resolution_converges_witness:
  "act_resolution (act_rounds act_default (replicate 5 False) 3) = 120
    \<and> act_resolution (act_rounds act_default (replicate 40 True) 3) = 10"
proof -
  have "act_wf act_default"
    by (simp add: act_wf_def act_default_def act_with_index_def DEFAULT_RESOLUTION_INDEX_def)
  from resolution_converges [OF this, of 3 5] resolution_converges [OF this, of 3 40] show ?thesis
    by simp
qed

subsection \<open>Rounding and clamping\<close>

lemma round_close_time_le_max: "t \<le> u32_max \<Longrightarrow> round_close_time t res \<le> u32_max"
  using sat_add32_le_max [of t "res div 2"]
  by (auto simp: round_close_time_def intro: le_trans [OF div_times_less_eq_dividend])

lemma round_close_time_idem:
  assumes "t \<le> u32_max"
  shows "round_close_time (round_close_time t res) res = round_close_time t res"
proof (cases "res = 0")
  case True
  then show ?thesis by (simp add: round_close_time_def)
next
  case False
  let ?q = "sat_add32 t (res div 2) div res"
  let ?r = "?q * res"
  have r: "?r \<le> u32_max"
    using round_close_time_le_max [OF assms, of res] False by (simp add: round_close_time_def)
  then have "?r \<le> sat_add32 ?r (res div 2)" by (rule sat_add32_ge)
  moreover have "sat_add32 ?r (res div 2) < ?r + res"
    using False by (simp add: sat_add32_def min_less_iff_disj)
  ultimately have "sat_add32 ?r (res div 2) div res = ?q"
    using False by (intro div_nat_eqI) (simp_all add: mult.commute)
  with False show ?thesis by (simp add: round_close_time_def)
qed

text \<open>Rounding a close time gives a multiple of the resolution, is monotone and
  idempotent, and, away from the end of the 32-bit clock, moves the time by at most half a bin.\<close>

theorem round_close_time_correct:
  assumes "0 < res" and "t \<le> u32_max"
  shows "res dvd round_close_time t res
    \<and> round_close_time (round_close_time t res) res = round_close_time t res
    \<and> (s \<le> t \<longrightarrow> round_close_time s res \<le> round_close_time t res)
    \<and> (t + res div 2 \<le> u32_max \<longrightarrow> abs_diff (round_close_time t res) t \<le> res div 2)"
proof (intro conjI impI)
  show "res dvd round_close_time t res" using assms by (simp add: round_close_time_def)
  show "round_close_time (round_close_time t res) res = round_close_time t res"
    using assms(2) by (rule round_close_time_idem)
  assume "s \<le> t"
  then show "round_close_time s res \<le> round_close_time t res"
    by (simp add: round_close_time_def div_le_mono sat_add32_mono)
next
  assume "t + res div 2 \<le> u32_max"
  then have r: "round_close_time t res = (t + res div 2) div res * res"
    using assms(1) by (simp add: round_close_time_def sat_add32_id)
  have "(t + res div 2) div res * res + (t + res div 2) mod res = t + res div 2" by simp
  moreover have "(t + res div 2) mod res < res" using assms(1) by simp
  ultimately show "abs_diff (round_close_time t res) t \<le> res div 2"
    unfolding r abs_diff_le_iff by linarith
qed

theorem round_close_time_correct_witness:
  "round_close_time 44 30 = 30 \<and> abs_diff (round_close_time 44 30) 44 \<le> 15
    \<and> round_close_time (round_close_time 44 30) 30 = round_close_time 44 30"
  using round_close_time_correct [of 30 44 44] by (simp add: u32_max_def round_close_time_def sat_add32_def)

text \<open>A close time with an opinion becomes strictly later than the parent's close time
  whatever the resolution, and clamping a time that is already rounded gives the same result as
  clamping the time itself, so it does not matter that the engine rounds before it clamps.\<close>

theorem eff_close_time_correct:
  assumes "close_time \<noteq> 0" and "close_time \<le> u32_max" and "prior < u32_max"
  shows "prior < eff_close_time close_time res prior
    \<and> (round_close_time close_time res \<noteq> 0 \<longrightarrow>
         eff_close_time (round_close_time close_time res) res prior = eff_close_time close_time res prior)"
proof -
  have "sat_add32 prior 1 = Suc prior" using assms(3) by (simp add: sat_add32_def)
  with assms show ?thesis
    by (auto simp: eff_close_time_def Let_def round_close_time_idem)
qed

theorem eff_close_time_correct_witness:
  "100 < eff_close_time 95 30 100 \<and> eff_close_time (round_close_time 95 30) 30 100 = eff_close_time 95 30 100"
  using eff_close_time_correct [of 95 100 30]
  by (simp add: u32_max_def round_close_time_def sat_add32_def)

end
