(* ===== verification/Tx_Set_Root.thy ===== *)
theory Tx_Set_Root
  imports Prelude
begin

text \<open>
  The SHAMap root of a candidate transaction set computed from ids alone:
  \<open>select_branch\<close> of \<^verbatim>\<open>crates/shamap/src/node_id.rs\<close>, the inner node prefix of
  \<^verbatim>\<open>crates/crypto/src/hash_prefix.rs\<close> and \<open>transaction_set_root\<close> of
  \<^verbatim>\<open>crates/shamap/src/shamap.rs\<close>. SHA-512/2 is the external crate \<open>sha2\<close>, a parameter
  \<open>sha\<close>. The recursion of the source has no bound of its own: it stops because two different
  ids differ in one of the 64 nibbles. The model gives it 64 units of fuel and proves that
  they never run out.
\<close>

subsection \<open>Bytes and branches of a hash\<close>

definition hash_byte :: "hash256 \<Rightarrow> nat \<Rightarrow> byte" where
  "hash_byte h i = ucast (drop_bit (8 * (31 - i)) h)"

definition as_bytes :: "hash256 \<Rightarrow> bytes" where
  "as_bytes h = map (hash_byte h) [0..<32]"

definition BRANCH_FACTOR :: nat where
  "BRANCH_FACTOR = 16"

definition select_branch :: "hash256 \<Rightarrow> nat \<Rightarrow> nat" where
  "select_branch key depth =
     (let byte = hash_byte key (min (depth div 2) 31)
      in if even depth then unat (drop_bit 4 byte) else unat (byte AND 15))"

definition INNER_NODE_PREFIX :: bytes where
  "INNER_NODE_PREFIX = [0x4D, 0x49, 0x4E, 0x00]"

subsection \<open>The root\<close>

definition child_hash :: "(hash256 list \<Rightarrow> nat \<Rightarrow> hash256 option) \<Rightarrow> hash256 list \<Rightarrow> nat \<Rightarrow> hash256 option" where
  "child_hash inner ids depth =
     (case ids of [] \<Rightarrow> Some 0 | [x] \<Rightarrow> Some x | _ \<Rightarrow> inner ids depth)"

primrec inner_hash :: "(bytes \<Rightarrow> hash256) \<Rightarrow> nat \<Rightarrow> hash256 list \<Rightarrow> nat \<Rightarrow> hash256 option" where
  "inner_hash sha 0 = (\<lambda>ids depth. None)"
| "inner_hash sha (Suc fuel) = (\<lambda>ids depth.
     let buckets = map (\<lambda>b. filter (\<lambda>id. select_branch id depth = b) ids) [0..<BRANCH_FACTOR] in
     map_option (\<lambda>hashes. sha (INNER_NODE_PREFIX @ concat (map as_bytes hashes)))
       (those (map (\<lambda>bucket. child_hash (inner_hash sha fuel) bucket (depth + 1)) buckets)))"

definition sort_dedup :: "'a::linorder list \<Rightarrow> 'a list" where
  "sort_dedup ids = remdups_adj (sort ids)"

definition transaction_set_root_fuel :: "(bytes \<Rightarrow> hash256) \<Rightarrow> nat \<Rightarrow> hash256 list \<Rightarrow> hash256 option" where
  "transaction_set_root_fuel sha fuel ids =
     (let sorted = sort_dedup ids in
      if sorted = [] then Some 0 else inner_hash sha fuel sorted 0)"

definition transaction_set_root :: "(bytes \<Rightarrow> hash256) \<Rightarrow> hash256 list \<Rightarrow> hash256" where
  "transaction_set_root sha ids =
     (case transaction_set_root_fuel sha 64 ids of Some h \<Rightarrow> h | None \<Rightarrow> 0)"

subsection \<open>Sorting and removing duplicates\<close>

lemma sort_dedup_props [simp]:
  "sorted (sort_dedup xs)" "distinct (sort_dedup xs)" "set (sort_dedup xs) = set xs"
proof -
  have "sorted ys \<Longrightarrow> distinct (remdups_adj ys)" for ys :: "'a list"
    by (induction ys rule: remdups_adj.induct) (auto simp: less_le)
  then show "distinct (sort_dedup xs)" by (simp add: sort_dedup_def)
  show "sorted (sort_dedup xs)" by (simp add: sort_dedup_def sorted_remdups_adj)
  show "set (sort_dedup xs) = set xs" by (simp add: sort_dedup_def)
qed

lemma sort_dedup_cong: "set xs = set ys \<Longrightarrow> sort_dedup xs = sort_dedup ys"
  by (rule sorted_distinct_set_unique) simp_all

lemma sort_dedup_id: "sorted xs \<Longrightarrow> distinct xs \<Longrightarrow> sort_dedup xs = xs"
  by (rule sorted_distinct_set_unique) simp_all

lemma sort_dedup_Nil_iff [simp]: "sort_dedup xs = [] \<longleftrightarrow> xs = []"
  by (metis set_empty sort_dedup_props(3))

subsection \<open>The nibbles determine the hash\<close>

lemma bit_hash_byte: "bit (hash_byte h i) j \<longleftrightarrow> j < 8 \<and> bit h (8 * (31 - i) + j)"
  by (auto simp: hash_byte_def bit_simps)

lemma hash_byte_inj:
  assumes "\<And>i. i < 32 \<Longrightarrow> hash_byte a i = hash_byte b i"
  shows "a = b"
proof (rule bit_word_eqI)
  fix n assume n: "n < LENGTH(256)"
  let ?i = "31 - n div 8"
  have "8 * (31 - ?i) + n mod 8 = n" using n by auto
  moreover have "?i < 32" "n mod 8 < 8" by auto
  ultimately show "bit a n = bit b n"
    using bit_hash_byte [of a ?i "n mod 8"] bit_hash_byte [of b ?i "n mod 8"] assms [of ?i] by simp
qed

lemma as_bytes_inj: "as_bytes a = as_bytes b \<longleftrightarrow> a = b"
  by (auto simp: as_bytes_def intro: hash_byte_inj)

lemma length_as_bytes [simp]: "length (as_bytes h) = 32"
  by (simp add: as_bytes_def)

lemma byte_nibbles:
  fixes x y :: byte
  assumes "drop_bit 4 x = drop_bit 4 y" and "x AND 15 = y AND 15"
  shows "x = y"
proof -
  have m: "(15 :: byte) = mask 4" by (simp add: mask_eq_exp_minus_1)
  have split: "x = push_bit 4 (drop_bit 4 x) OR (x AND 15)" for x :: byte
    unfolding m by (rule bit_word_eqI) (auto simp: bit_simps)
  have "x = push_bit 4 (drop_bit 4 y) OR (y AND 15)"
    using split [of x] unfolding assms .
  also have "\<dots> = y" by (rule split [symmetric])
  finally show ?thesis .
qed

lemma select_branch_even: "i < 32 \<Longrightarrow> select_branch k (2 * i) = unat (drop_bit 4 (hash_byte k i))"
  by (simp add: select_branch_def min_absorb1 del: drop_bit_eq_div)

lemma select_branch_odd: "i < 32 \<Longrightarrow> select_branch k (2 * i + 1) = unat (hash_byte k i AND 15)"
  by (simp add: select_branch_def min_absorb1)

lemma select_branch_inj:
  assumes "\<And>d. d < 64 \<Longrightarrow> select_branch a d = select_branch b d"
  shows "a = b"
proof (rule hash_byte_inj)
  fix i :: nat assume i: "i < 32"
  show "hash_byte a i = hash_byte b i"
  proof (rule byte_nibbles)
    have "2 * i < 64" using i by simp
    from assms [OF this] show "drop_bit 4 (hash_byte a i) = drop_bit 4 (hash_byte b i)"
      unfolding select_branch_even [OF i] by (rule unsigned_word_eqI)
    have "2 * i + 1 < 64" using i by simp
    from assms [OF this] show "hash_byte a i AND 15 = hash_byte b i AND 15"
      unfolding select_branch_odd [OF i] by (rule unsigned_word_eqI)
  qed
qed

lemma nibble_lt: "unat (drop_bit 4 x) < 16" "unat (x AND 15) < 16" for x :: byte
proof -
  have "unat (drop_bit 4 x) = drop_bit 4 (unat x)" by (rule unat_drop_bit_eq)
  also have "\<dots> = unat x div 16" by (simp add: drop_bit_eq_div)
  finally have "unat (drop_bit 4 x) = unat x div 16" .
  moreover have "unat x < 256" using unsigned_less [of x, where 'a = nat] by simp
  ultimately show "unat (drop_bit 4 x) < 16" by simp
  have "x AND 15 \<le> 15" by (rule word_and_le1)
  then have "unat (x AND 15) \<le> unat (15 :: byte)" by (rule word_le_nat_alt [THEN iffD1])
  then show "unat (x AND 15) < 16" by simp
qed

lemma select_branch_lt: "select_branch h d < BRANCH_FACTOR"
  unfolding select_branch_def Let_def BRANCH_FACTOR_def by (cases "even d") (simp_all only: if_True if_False nibble_lt)

subsection \<open>Sixty-four levels are enough\<close>

definition same_prefix :: "hash256 list \<Rightarrow> nat \<Rightarrow> bool" where
  "same_prefix ids depth \<longleftrightarrow>
     (\<forall>x\<in>set ids. \<forall>y\<in>set ids. \<forall>d<depth. select_branch x d = select_branch y d)"

lemma same_prefix_bucket:
  "same_prefix ids depth \<Longrightarrow> same_prefix (filter (\<lambda>id. select_branch id depth = b) ids) (Suc depth)"
  by (auto simp: same_prefix_def less_Suc_eq)

lemma same_prefixD:
  "same_prefix ids n \<Longrightarrow> x \<in> set ids \<Longrightarrow> y \<in> set ids \<Longrightarrow> d < n \<Longrightarrow> select_branch x d = select_branch y d"
  unfolding same_prefix_def by blast

lemma same_prefix_64:
  assumes "same_prefix ids 64" and "distinct ids"
  shows "length ids \<le> 1"
proof (rule ccontr)
  assume "\<not> length ids \<le> 1"
  then obtain x y zs where ids: "ids = x # y # zs" by (cases ids; cases "tl ids") auto
  have "x = y"
    by (rule select_branch_inj, rule same_prefixD [OF assms(1)]) (simp_all add: ids)
  with assms(2) show False by (simp add: ids)
qed

lemma those_Some: "(\<And>x. x \<in> set xs \<Longrightarrow> x \<noteq> None) \<Longrightarrow> those xs \<noteq> None"
  by (induction xs) (auto split: option.split)

lemma inner_hash_enough_fuel:
  "distinct ids \<Longrightarrow> same_prefix ids depth \<Longrightarrow> depth < 64 \<Longrightarrow> 64 \<le> depth + fuel
    \<Longrightarrow> inner_hash sha fuel ids depth \<noteq> None"
proof (induction fuel arbitrary: ids depth)
  case 0
  then show ?case by simp
next
  case (Suc fuel)
  have "child_hash (inner_hash sha fuel) (filter (\<lambda>id. select_branch id depth = b) ids) (depth + 1) \<noteq> None" for b
  proof -
    let ?ids = "filter (\<lambda>id. select_branch id depth = b) ids"
    have p: "same_prefix ?ids (Suc depth)" using Suc.prems(2) by (rule same_prefix_bucket)
    have "inner_hash sha fuel ?ids (depth + 1) \<noteq> None" if "1 < length ?ids"
    proof (rule Suc.IH)
      show "distinct ?ids" using Suc.prems(1) by simp
      show "same_prefix ?ids (depth + 1)" using p by simp
      show "64 \<le> depth + 1 + fuel" using Suc.prems(4) by simp
      show "depth + 1 < 64"
      proof (rule ccontr)
        assume "\<not> depth + 1 < 64"
        then have "Suc depth = 64" using Suc.prems(3) by simp
        with p that same_prefix_64 [of ?ids] Suc.prems(1) show False by simp
      qed
    qed
    then show ?thesis by (auto simp: child_hash_def split: list.split)
  qed
  then have "those (map (\<lambda>bucket. child_hash (inner_hash sha fuel) bucket (depth + 1))
      (map (\<lambda>b. filter (\<lambda>id. select_branch id depth = b) ids) [0..<BRANCH_FACTOR])) \<noteq> None"
    by (intro those_Some) auto
  then show ?case by (simp add: Let_def)
qed

text \<open>C25: The recursion that hashes a candidate set always returns: nesting stops within the 64
  nibbles of a key, whatever ids (in any order, with duplicates) the set is built from.\<close>

theorem transaction_set_root_terminates:
  "\<exists>h. transaction_set_root_fuel sha 64 ids = Some h \<and> transaction_set_root sha ids = h"
proof -
  have "inner_hash sha 64 (sort_dedup ids) 0 \<noteq> None"
    by (rule inner_hash_enough_fuel) (simp_all add: same_prefix_def)
  then have "transaction_set_root_fuel sha 64 ids \<noteq> None"
    by (simp add: transaction_set_root_fuel_def)
  then show ?thesis by (auto simp: transaction_set_root_def)
qed

end
