(* ===== verification/Consensus_Types.thy ===== *)
theory Consensus_Types
  imports Consensus_Params Tx_Set_Root
begin

text \<open>
  The messages and votes of \<^verbatim>\<open>crates/consensus/src/types.rs\<close>: node ids, proposals,
  validations and the bytes they sign, transaction sets and disputed transactions. SHA-512/2
  and the two signature schemes come from external crates and are parameters: \<open>sha\<close>, and a
  record of the four primitives. The theorems show what a signature binds, that a
  transaction set depends on its ids alone, and when a dispute keeps a transaction.
\<close>

subsection \<open>Node ids, proposals and validations\<close>

datatype node_id = NodeId hash256

definition from_public_key :: "(bytes \<Rightarrow> hash256) \<Rightarrow> bytes \<Rightarrow> node_id" where
  "from_public_key sha pk = NodeId (sha pk)"

record proposal =
  prop_node_id :: node_id
  prop_public_key :: bytes
  tx_set_hash :: hash256
  prop_close_time :: nat
  prop_seq :: nat
  prop_ledger_seq :: nat
  prop_prev_ledger :: hash256
  prop_signature :: "bytes option"

record validation =
  val_node_id :: node_id
  val_public_key :: bytes
  val_ledger_hash :: hash256
  val_ledger_seq :: nat
  val_full :: bool
  val_close_time :: nat
  val_sign_time :: nat
  val_signature :: "bytes option"
  val_amendments :: "hash256 list"
  val_signing_payload :: "bytes option"
  val_load_fee :: "nat option"
  val_base_fee :: "nat option"
  val_reserve_base :: "nat option"
  val_reserve_increment :: "nat option"
  val_cookie :: "nat option"
  val_consensus_hash :: "hash256 option"
  val_validated_hash :: "hash256 option"
  val_server_version :: "nat option"
  val_base_fee_drops :: "nat option"
  val_reserve_base_drops :: "nat option"
  val_reserve_increment_drops :: "nat option"
  val_master_public_key :: "bytes option"

definition default_validation :: validation where
  "default_validation =
     \<lparr>val_node_id = NodeId 0, val_public_key = [], val_ledger_hash = 0, val_ledger_seq = 0,
      val_full = False, val_close_time = 0, val_sign_time = 0, val_signature = None,
      val_amendments = [], val_signing_payload = None, val_load_fee = None, val_base_fee = None,
      val_reserve_base = None, val_reserve_increment = None, val_cookie = None,
      val_consensus_hash = None, val_validated_hash = None, val_server_version = None,
      val_base_fee_drops = None, val_reserve_base_drops = None, val_reserve_increment_drops = None,
      val_master_public_key = None\<rparr>"

definition trusted_key :: "validation \<Rightarrow> bytes" where
  "trusted_key v = (case val_master_public_key v of Some k \<Rightarrow> k | None \<Rightarrow> val_public_key v)"

definition to_trie_identity :: "(bytes \<Rightarrow> hash256) \<Rightarrow> validation \<Rightarrow> validation" where
  "to_trie_identity sha v =
     (let key = trusted_key v in
      default_validation\<lparr>val_node_id := from_public_key sha key, val_public_key := key,
        val_ledger_hash := val_ledger_hash v, val_ledger_seq := val_ledger_seq v,
        val_full := val_full v, val_sign_time := val_sign_time v\<rparr>)"

subsection \<open>Signed bytes\<close>

text \<open>\<open>u32::to_be_bytes\<close>.\<close>

definition be32 :: "nat \<Rightarrow> bytes" where
  "be32 n = [of_nat (n div 16777216), of_nat (n div 65536), of_nat (n div 256), of_nat n]"

definition proposal_signing_data :: "proposal \<Rightarrow> bytes" where
  "proposal_signing_data p =
     [0x50, 0x52, 0x50, 0x00] @ be32 (prop_seq p) @ be32 (prop_close_time p)
       @ as_bytes (prop_prev_ledger p) @ as_bytes (tx_set_hash p)"

definition validation_signing_data :: "validation \<Rightarrow> bytes" where
  "validation_signing_data v =
     as_bytes (val_ledger_hash v) @ be32 (val_ledger_seq v) @ be32 (val_close_time v)
       @ be32 (val_sign_time v) @ [if val_full v then 1 else 0]"

datatype key_type = Secp256k1 | Ed25519

text \<open>The signature primitives: message, then key, then (to verify) signature.\<close>

record signature_crates =
  secp256k1_sign :: "bytes \<Rightarrow> bytes \<Rightarrow> bytes option"
  ed25519_sign :: "bytes \<Rightarrow> bytes \<Rightarrow> bytes option"
  secp256k1_verify :: "bytes \<Rightarrow> bytes \<Rightarrow> bytes \<Rightarrow> bool"
  ed25519_verify :: "bytes \<Rightarrow> bytes \<Rightarrow> bytes \<Rightarrow> bool"

definition sign_bytes :: "signature_crates \<Rightarrow> key_type \<Rightarrow> bytes \<Rightarrow> bytes \<Rightarrow> bytes option" where
  "sign_bytes cr kt data private_key =
     (case kt of Secp256k1 \<Rightarrow> secp256k1_sign cr data private_key
               | Ed25519 \<Rightarrow> ed25519_sign cr data private_key)"

definition verify_bytes :: "signature_crates \<Rightarrow> bytes \<Rightarrow> bytes \<Rightarrow> bytes option \<Rightarrow> bool" where
  "verify_bytes cr data public_key signature =
     (case signature of
        Some sig \<Rightarrow> (if public_key \<noteq> [] \<and> hd public_key = 0xED
                    then ed25519_verify cr data public_key sig
                    else secp256k1_verify cr data public_key sig)
      | None \<Rightarrow> False)"

definition proposal_sign :: "signature_crates \<Rightarrow> proposal \<Rightarrow> bytes \<Rightarrow> key_type \<Rightarrow> proposal" where
  "proposal_sign cr p private_key kt =
     (case sign_bytes cr kt (proposal_signing_data p) private_key of
        Some sig \<Rightarrow> p\<lparr>prop_signature := Some sig\<rparr> | None \<Rightarrow> p)"

definition proposal_verify :: "signature_crates \<Rightarrow> proposal \<Rightarrow> bytes \<Rightarrow> bool" where
  "proposal_verify cr p public_key =
     verify_bytes cr (proposal_signing_data p) public_key (prop_signature p)"

definition validation_sign :: "signature_crates \<Rightarrow> validation \<Rightarrow> bytes \<Rightarrow> key_type \<Rightarrow> validation" where
  "validation_sign cr v private_key kt =
     (case sign_bytes cr kt (validation_signing_data v) private_key of
        Some sig \<Rightarrow> v\<lparr>val_signature := Some sig\<rparr> | None \<Rightarrow> v)"

definition validation_verify :: "signature_crates \<Rightarrow> validation \<Rightarrow> bytes \<Rightarrow> bool" where
  "validation_verify cr v public_key =
     verify_bytes cr (validation_signing_data v) public_key (val_signature v)"

subsection \<open>Transaction sets\<close>

record tx_set =
  ts_hash :: hash256
  ts_txs :: "hash256 list"
  ts_blobs :: "(hash256, bytes) hmap"

definition tx_set_new :: "(bytes \<Rightarrow> hash256) \<Rightarrow> hash256 list \<Rightarrow> tx_set" where
  "tx_set_new sha ids =
     (let sorted = sort_dedup ids
      in \<lparr>ts_hash = transaction_set_root sha sorted, ts_txs = sorted, ts_blobs = []\<rparr>)"

definition tx_set_from_items :: "(bytes \<Rightarrow> hash256) \<Rightarrow> (hash256 \<times> bytes) list \<Rightarrow> tx_set" where
  "tx_set_from_items sha items =
     (let sorted = sort_dedup (map fst items)
      in \<lparr>ts_hash = transaction_set_root sha sorted, ts_txs = sorted,
          ts_blobs = fold (\<lambda>(k, v) m. hm_insert k v m) items []\<rparr>)"

definition tx_set_blob :: "tx_set \<Rightarrow> hash256 \<Rightarrow> bytes option" where
  "tx_set_blob s txid = hm_get (ts_blobs s) txid"

subsection \<open>Disputed transactions\<close>

record disputed_tx =
  d_tx_hash :: hash256
  d_our_vote :: bool
  d_votes :: "(node_id, bool) hmap"

definition dispute_new :: "hash256 \<Rightarrow> bool \<Rightarrow> disputed_tx" where
  "dispute_new tx_hash our_vote = \<lparr>d_tx_hash = tx_hash, d_our_vote = our_vote, d_votes = []\<rparr>"

definition dispute_vote :: "disputed_tx \<Rightarrow> node_id \<Rightarrow> bool \<Rightarrow> disputed_tx" where
  "dispute_vote d node include = d\<lparr>d_votes := hm_insert node include (d_votes d)\<rparr>"

definition update_vote :: "disputed_tx \<Rightarrow> node_id \<Rightarrow> bool \<Rightarrow> disputed_tx" where
  "update_vote d node voted_yes = d\<lparr>d_votes := hm_insert node voted_yes (d_votes d)\<rparr>"

definition yay_count :: "disputed_tx \<Rightarrow> nat" where
  "yay_count d = length (filter (\<lambda>v. v) (hm_values (d_votes d)))"

definition nay_count :: "disputed_tx \<Rightarrow> nat" where
  "nay_count d = length (filter (\<lambda>v. \<not> v) (hm_values (d_votes d)))"

definition should_include :: "disputed_tx \<Rightarrow> nat \<Rightarrow> bool" where
  "should_include d threshold =
     (let our_yay = (if d_our_vote d then 1 else 0);
          yays = yay_count d + our_yay;
          total = length (d_votes d) + 1
      in if total = 0 then False
         else threshold \<le> wrap32 (wrap32 yays * 100) div wrap32 total)"

definition dispute_our_vote :: "disputed_tx \<Rightarrow> nat \<Rightarrow> bool" where
  "dispute_our_vote d threshold_pct = should_include d threshold_pct"

subsection \<open>What a signature binds\<close>

lemma length_be32 [simp]: "length (be32 n) = 4"
  by (simp add: be32_def)

lemma byte_of_nat_eq_iff: "(of_nat m = (of_nat n :: byte)) \<longleftrightarrow> m mod 256 = n mod 256"
  by (simp add: word_of_nat_eq_iff take_bit_eq_mod)

lemma div_mod_256_cong:
  fixes m n :: nat
  assumes "m div 256 = n div 256" and "m mod 256 = n mod 256"
  shows "m = n"
  by (metis assms div_mult_mod_eq)

lemma be32_inj:
  assumes "a \<le> u32_max" and "b \<le> u32_max" and "be32 a = be32 b"
  shows "a = b"
proof -
  have small: "n div 16777216 mod 256 = n div 16777216" if "n \<le> u32_max" for n :: nat
    using that by (intro mod_less) (simp add: u32_max_def div_less_iff_less_mult)
  have dig: "a div 16777216 mod 256 = b div 16777216 mod 256" "a div 65536 mod 256 = b div 65536 mod 256"
    "a div 256 mod 256 = b div 256 mod 256" "a mod 256 = b mod 256"
    using assms(3) unfolding be32_def list.inject byte_of_nat_eq_iff by blast+
  have shift: "n div 65536 div 256 = n div 16777216" "n div 256 div 256 = n div 65536" for n :: nat
    by (simp_all add: div_mult2_eq [symmetric])
  have "a div 65536 div 256 = b div 65536 div 256"
    unfolding shift using dig(1) unfolding small [OF assms(1)] small [OF assms(2)] .
  from div_mod_256_cong [OF this dig(2)] have "a div 256 div 256 = b div 256 div 256"
    unfolding shift .
  from div_mod_256_cong [OF this dig(3)] show ?thesis using dig(4) by (rule div_mod_256_cong)
qed

lemma be32_eq_iff: "a \<le> u32_max \<Longrightarrow> b \<le> u32_max \<Longrightarrow> be32 a = be32 b \<longleftrightarrow> a = b"
  by (auto dest: be32_inj)

text \<open>C18: Two proposals with 32-bit counters sign the same bytes exactly when they agree on
  proposal sequence, close time, previous ledger and transaction set: a signature over one
  cannot be moved to another position, while node id and ledger sequence are not covered.\<close>

theorem proposal_signature_binds:
  assumes "prop_seq p \<le> u32_max" "prop_seq q \<le> u32_max"
    and "prop_close_time p \<le> u32_max" "prop_close_time q \<le> u32_max"
  shows "proposal_signing_data p = proposal_signing_data q \<longleftrightarrow>
    prop_seq p = prop_seq q \<and> prop_close_time p = prop_close_time q
    \<and> prop_prev_ledger p = prop_prev_ledger q \<and> tx_set_hash p = tx_set_hash q"
  using assms by (simp add: proposal_signing_data_def be32_eq_iff as_bytes_inj)

theorem proposal_signature_binds_witness:
  "\<exists>p q. proposal_signing_data p = proposal_signing_data q \<and> prop_ledger_seq p \<noteq> prop_ledger_seq q
    \<and> proposal_signing_data p \<noteq> proposal_signing_data (q\<lparr>prop_seq := 1\<rparr>)"
proof -
  let ?p = "\<lparr>prop_node_id = NodeId 1, prop_public_key = [], tx_set_hash = 5, prop_close_time = 100,
    prop_seq = 0, prop_ledger_seq = 2, prop_prev_ledger = 9, prop_signature = None\<rparr>"
  let ?q = "?p\<lparr>prop_ledger_seq := 3\<rparr>"
  have "proposal_signing_data ?p = proposal_signing_data ?q"
    by (subst proposal_signature_binds) (simp_all add: u32_max_def)
  moreover have "proposal_signing_data ?p \<noteq> proposal_signing_data (?q\<lparr>prop_seq := 1\<rparr>)"
    by (subst proposal_signature_binds) (simp_all add: u32_max_def)
  moreover have "prop_ledger_seq ?p \<noteq> prop_ledger_seq ?q" by simp
  ultimately show ?thesis by blast
qed

text \<open>Two validations with 32-bit fields sign the same bytes exactly when they agree on
  ledger hash, ledger sequence, close time, signing time and the full flag.\<close>

theorem validation_signature_binds:
  assumes "val_ledger_seq v \<le> u32_max" "val_ledger_seq w \<le> u32_max"
    and "val_close_time v \<le> u32_max" "val_close_time w \<le> u32_max"
    and "val_sign_time v \<le> u32_max" "val_sign_time w \<le> u32_max"
  shows "validation_signing_data v = validation_signing_data w \<longleftrightarrow>
    val_ledger_hash v = val_ledger_hash w \<and> val_ledger_seq v = val_ledger_seq w
    \<and> val_close_time v = val_close_time w \<and> val_sign_time v = val_sign_time w
    \<and> val_full v = val_full w"
  using assms by (auto simp: validation_signing_data_def be32_eq_iff as_bytes_inj)

theorem validation_signature_binds_witness:
  "validation_signing_data default_validation
    \<noteq> validation_signing_data (default_validation\<lparr>val_full := True\<rparr>)"
  by (subst validation_signature_binds) (simp_all add: default_validation_def u32_max_def)

subsection \<open>Transaction sets depend on their ids alone\<close>

lemma tx_set_txs_new [simp]: "ts_txs (tx_set_new sha ids) = sort_dedup ids"
  by (simp add: tx_set_new_def Let_def)

lemma tx_set_txs_from_items [simp]: "ts_txs (tx_set_from_items sha items) = sort_dedup (map fst items)"
  by (simp add: tx_set_from_items_def Let_def)

lemma tx_set_hash_from_items [simp]:
  "ts_hash (tx_set_from_items sha items) = transaction_set_root sha (sort_dedup (map fst items))"
  by (simp add: tx_set_from_items_def Let_def)

lemma fold_insert_get:
  "hm_get (fold (\<lambda>(k, v) m. hm_insert k v m) items m) k
     = (case hm_get (rev items) k of Some v \<Rightarrow> Some v | None \<Rightarrow> hm_get m k)"
proof (induction items rule: rev_induct)
  case Nil
  show ?case by simp
next
  case (snoc x xs)
  then show ?case by (cases x) (auto simp: hm_get_insert)
qed

text \<open>A set built from ids and a set built from (id, blob) pairs have the same hash and the
  same strictly ascending list of ids whenever they hold the same ids, in whatever order and
  multiplicity those arrive; and the blob kept for an id is the last one supplied for it.\<close>

theorem tx_set_depends_on_ids_only:
  assumes "set ids = fst ` set items"
  shows "ts_hash (tx_set_new sha ids) = ts_hash (tx_set_from_items sha items)
    \<and> ts_txs (tx_set_new sha ids) = ts_txs (tx_set_from_items sha items)
    \<and> sorted_wrt (<) (ts_txs (tx_set_new sha ids)) \<and> set (ts_txs (tx_set_new sha ids)) = set ids
    \<and> tx_set_blob (tx_set_from_items sha items) txid = hm_get (rev items) txid"
proof -
  have eq: "sort_dedup ids = sort_dedup (map fst items)"
    using assms by (intro sort_dedup_cong) simp
  have "sorted_wrt (<) (sort_dedup ids)"
    by (simp add: strict_sorted_iff)
  moreover have "tx_set_blob (tx_set_from_items sha items) txid = hm_get (rev items) txid"
    by (simp add: tx_set_blob_def tx_set_from_items_def Let_def fold_insert_get split: option.split)
  ultimately show ?thesis
    using eq assms by (simp add: tx_set_new_def tx_set_from_items_def Let_def)
qed

theorem tx_set_depends_on_ids_only_witness:
  "ts_txs (tx_set_new (\<lambda>b. of_nat (length b)) [3, 2, 3]) = [2, 3]
    \<and> ts_hash (tx_set_new (\<lambda>b. of_nat (length b)) [3, 2, 3])
        = ts_hash (tx_set_from_items (\<lambda>b. of_nat (length b)) [(2, [7]), (3, [8])])
    \<and> sorted_wrt (<) (ts_txs (tx_set_new (\<lambda>b. of_nat (length b)) [3, 2, 3]))"
proof -
  have "set [3, 2, 3] = fst ` set [(2 :: hash256, [7 :: byte]), (3, [8])]" by auto
  note ids = tx_set_depends_on_ids_only [OF this, of "\<lambda>b. of_nat (length b)" 1]
  have "ts_txs (tx_set_new (\<lambda>b. of_nat (length b)) [3, 2, 3]) = [2, 3]"
    by (simp add: sort_dedup_def)
  with ids show ?thesis by blast
qed

subsection \<open>When a dispute keeps a transaction\<close>

lemma yay_le_votes: "yay_count d \<le> length (d_votes d)"
  using length_filter_le [of "\<lambda>v. v" "hm_values (d_votes d)"] by (simp add: yay_count_def)

lemma yay_nay: "yay_count d + nay_count d = length (d_votes d)"
  unfolding yay_count_def nay_count_def
  using sum_length_filter_compl [of "\<lambda>v. v" "hm_values (d_votes d)"] by simp

lemma should_include_iff:
  assumes "length (d_votes d) < 42949672"
  shows "should_include d threshold \<longleftrightarrow>
    threshold * (length (d_votes d) + 1) \<le> (yay_count d + (if d_our_vote d then 1 else 0)) * 100"
proof -
  let ?y = "yay_count d + (if d_our_vote d then 1 else 0)"
  let ?n = "length (d_votes d) + 1"
  have y: "?y \<le> ?n" using yay_le_votes [of d] by simp
  then have "wrap32 ?y = ?y" "wrap32 (?y * 100) = ?y * 100" "wrap32 ?n = ?n"
    using assms by (simp_all add: wrap32_def)
  then show ?thesis
    by (simp add: should_include_def Let_def less_eq_div_iff_mult_less_eq)
qed

lemma dispute_vote_yes_counts:
  "yay_count d \<le> yay_count (dispute_vote d node True)
    \<and> (length (d_votes (dispute_vote d node True)) = length (d_votes d)
       \<or> length (d_votes (dispute_vote d node True)) = Suc (length (d_votes d))
          \<and> yay_count (dispute_vote d node True) = Suc (yay_count d))
    \<and> d_our_vote (dispute_vote d node True) = d_our_vote d"
proof -
  have "length (filter (\<lambda>v. v) (hm_values m)) \<le> length (filter (\<lambda>v. v) (hm_values (hm_insert node True m)))
    \<and> (length (hm_insert node True m) = length m \<or> length (hm_insert node True m) = Suc (length m)
       \<and> length (filter (\<lambda>v. v) (hm_values (hm_insert node True m)))
           = Suc (length (filter (\<lambda>v. v) (hm_values m))))" for m
    by (induction m) auto
  from this [of "d_votes d"] show ?thesis by (simp add: yay_count_def dispute_vote_def)
qed

text \<open>With fewer than 42949672 peer votes (where the 32-bit product cannot wrap) a disputed
  transaction stays exactly when the yes votes, ours included, are at least the threshold
  percentage of all votes; a transaction kept at one threshold is kept at every lower one, and
  a yes vote from a node that had not voted yes never turns a kept transaction out.\<close>

theorem dispute_resolution_correct:
  assumes "length (d_votes d) < 42949671" and "hm_wf (d_votes d)"
  shows "(should_include d threshold \<longleftrightarrow>
      threshold * (length (d_votes d) + 1) \<le> (yay_count d + (if d_our_vote d then 1 else 0)) * 100)
    \<and> (should_include d threshold \<and> t \<le> threshold \<longrightarrow> should_include d t)
    \<and> (should_include d threshold \<and> threshold \<le> 100 \<longrightarrow> should_include (dispute_vote d node True) threshold)"
proof (intro conjI impI)
  show iff: "should_include d threshold \<longleftrightarrow>
      threshold * (length (d_votes d) + 1) \<le> (yay_count d + (if d_our_vote d then 1 else 0)) * 100"
    for threshold
    using assms(1) by (intro should_include_iff) simp
  show "should_include d t" if "should_include d threshold \<and> t \<le> threshold"
    using that unfolding iff by (blast intro: le_trans [OF mult_le_mono1])
  show "should_include (dispute_vote d node True) threshold"
    if h: "should_include d threshold \<and> threshold \<le> 100"
  proof -
    let ?e = "dispute_vote d node True"
    have "length (d_votes ?e) < 42949672"
      using assms(1) dispute_vote_yes_counts [of d node] by auto
    then show ?thesis
      using h dispute_vote_yes_counts [of d node] unfolding iff
      by (subst should_include_iff) (auto simp: algebra_simps)
  qed
qed

theorem dispute_resolution_correct_witness:
  "should_include (dispute_vote (dispute_vote (dispute_new 9 True) (NodeId 1) True) (NodeId 2) False) 65
    \<and> \<not> should_include (dispute_vote (dispute_vote (dispute_new 9 True) (NodeId 1) True) (NodeId 2) False) 70"
proof -
  let ?d = "dispute_vote (dispute_vote (dispute_new 9 True) (NodeId 1) True) (NodeId 2) False"
  have h: "length (d_votes ?d) < 42949671" "hm_wf (d_votes ?d)"
    by (simp_all add: dispute_vote_def dispute_new_def)
  show ?thesis
    using dispute_resolution_correct [OF h, of 65] dispute_resolution_correct [OF h, of 70]
    by (simp add: dispute_vote_def dispute_new_def yay_count_def)
qed

end
