(* ===== verification/Proposal_Tracker.thy ===== *)
theory Proposal_Tracker
  imports Consensus_Types
begin

text \<open>
  The de-duplication layer of \<^verbatim>\<open>crates/consensus/src/proposal_tracker.rs\<close>: the latest
  proposal per (node, previous ledger), with its two capacity bounds. The locale
  \<open>proposal_dedup\<close> states what the engine relies on; it is interpreted on the model of the
  tracker. The theorems bound the memory of every reachable tracker, give the acceptance
  rule of \<open>track\<close> on every branch and exclude replays.
\<close>

subsection \<open>The tracker\<close>

definition MAX_DISTINCT_PREV_LEDGERS :: nat where
  "MAX_DISTINCT_PREV_LEDGERS = 64"

definition MAX_PROPOSALS_PER_PREV :: nat where
  "MAX_PROPOSALS_PER_PREV = 16"

record proposal_tracker =
  pt_proposals :: "(node_id \<times> hash256, proposal) hmap"
  prev_ledger_order :: "hash256 list"
  proposals_dropped_dedup_total :: nat

definition tracker_new :: proposal_tracker where
  "tracker_new = \<lparr>pt_proposals = [], prev_ledger_order = [], proposals_dropped_dedup_total = 0\<rparr>"

definition tracker_get :: "proposal_tracker \<Rightarrow> node_id \<Rightarrow> hash256 \<Rightarrow> proposal option" where
  "tracker_get t node prev = hm_get (pt_proposals t) (node, prev)"

definition tracker_count_for :: "proposal_tracker \<Rightarrow> hash256 \<Rightarrow> nat" where
  "tracker_count_for t prev = length (filter (\<lambda>(_, p). p = prev) (hm_keys (pt_proposals t)))"

definition tracker_iter_for :: "proposal_tracker \<Rightarrow> hash256 \<Rightarrow> proposal list" where
  "tracker_iter_for t prev = map snd (filter (\<lambda>((_, p), _). p = prev) (pt_proposals t))"

definition tracker_clear_for :: "proposal_tracker \<Rightarrow> hash256 \<Rightarrow> proposal_tracker" where
  "tracker_clear_for t prev =
     t\<lparr>pt_proposals := hm_retain (\<lambda>(_, p) _. p \<noteq> prev) (pt_proposals t),
       prev_ledger_order := filter (\<lambda>h. h \<noteq> prev) (prev_ledger_order t)\<rparr>"

definition tracker_len :: "proposal_tracker \<Rightarrow> nat" where
  "tracker_len t = length (pt_proposals t)"

definition tracker_track :: "proposal_tracker \<Rightarrow> proposal \<Rightarrow> proposal_tracker \<times> bool" where
  "tracker_track t proposal =
     (let key = (prop_node_id proposal, prop_prev_ledger proposal) in
      case hm_get (pt_proposals t) key of
        Some existing \<Rightarrow>
          if prop_seq proposal \<le> prop_seq existing
          then (t\<lparr>proposals_dropped_dedup_total := wrap64 (proposals_dropped_dedup_total t + 1)\<rparr>, False)
          else (t\<lparr>pt_proposals := hm_insert key proposal (pt_proposals t)\<rparr>, True)
      | None \<Rightarrow>
          (let prev_ledger = prop_prev_ledger proposal;
               is_new_prev = (prev_ledger \<notin> set (prev_ledger_order t)) in
           if \<not> is_new_prev \<and> MAX_PROPOSALS_PER_PREV \<le> tracker_count_for t prev_ledger
           then (t, False)
           else
             (let t = (if is_new_prev \<and> MAX_DISTINCT_PREV_LEDGERS \<le> length (prev_ledger_order t)
                       then (let oldest = hd (prev_ledger_order t)
                             in t\<lparr>prev_ledger_order := tl (prev_ledger_order t),
                                  pt_proposals := hm_retain (\<lambda>(_, p) _. p \<noteq> oldest) (pt_proposals t)\<rparr>)
                       else t);
                  t = t\<lparr>pt_proposals := hm_insert key proposal (pt_proposals t)\<rparr>;
                  t = (if is_new_prev then t\<lparr>prev_ledger_order := prev_ledger_order t @ [prev_ledger]\<rparr> else t)
              in (t, True))))"

fun track_all :: "('t \<Rightarrow> proposal \<Rightarrow> 't \<times> bool) \<Rightarrow> 't \<Rightarrow> proposal list \<Rightarrow> 't" where
  "track_all track t [] = t"
| "track_all track t (p # ps) = track_all track (fst (track t p)) ps"

text \<open>The states a tracker goes through under deliveries and round changes.\<close>

inductive tracker_reachable :: "proposal_tracker \<Rightarrow> bool" where
  tracker_start: "tracker_reachable tracker_new"
| tracker_deliver: "tracker_reachable t \<Longrightarrow> tracker_reachable (fst (tracker_track t p))"
| tracker_clear: "tracker_reachable t \<Longrightarrow> tracker_reachable (tracker_clear_for t h)"

subsection \<open>The contract the engine relies on\<close>

locale proposal_dedup =
  fixes track :: "'t \<Rightarrow> proposal \<Rightarrow> 't \<times> bool"
    and get :: "'t \<Rightarrow> node_id \<Rightarrow> hash256 \<Rightarrow> proposal option"
    and inv :: "'t \<Rightarrow> bool"
  assumes inv_track: "inv t \<Longrightarrow> inv (fst (track t p))"
    and track_accepted: "inv t \<Longrightarrow> snd (track t p) \<Longrightarrow>
      get (fst (track t p)) (prop_node_id p) (prop_prev_ledger p) = Some p"
    and track_newer: "inv t \<Longrightarrow> snd (track t p) \<Longrightarrow>
      get t (prop_node_id p) (prop_prev_ledger p) = Some q \<Longrightarrow> prop_seq q < prop_seq p"
    and track_rejected: "inv t \<Longrightarrow> \<not> snd (track t p) \<Longrightarrow> get (fst (track t p)) n h = get t n h"
    and track_others: "inv t \<Longrightarrow> (n, h) \<noteq> (prop_node_id p, prop_prev_ledger p) \<Longrightarrow>
      get (fst (track t p)) n h = Some q \<Longrightarrow> get t n h = Some q"
begin

lemma replay_rejected:
  assumes "inv t" and "snd (track t p)"
  shows "\<not> snd (track (fst (track t p)) p)"
  using track_accepted [OF assms] track_newer [OF inv_track [OF assms(1)], of p p p] by auto

lemma get_monotone:
  assumes "inv t" and "get t n h = Some q" and "get (fst (track t p)) n h = Some q'"
  shows "q' = q \<or> q' = p \<and> prop_seq q < prop_seq p"
proof (cases "snd (track t p)")
  case True
  show ?thesis
  proof (cases "(n, h) = (prop_node_id p, prop_prev_ledger p)")
    case same: True
    then have "q' = p" using track_accepted [OF assms(1) True] assms(3) by simp
    moreover have "prop_seq q < prop_seq p" using track_newer [OF assms(1) True] same assms(2) by simp
    ultimately show ?thesis by simp
  next
    case False
    then show ?thesis using track_others [OF assms(1) False assms(3)] assms(2) by simp
  qed
next
  case False
  then show ?thesis using track_rejected [OF assms(1) False] assms(2,3) by simp
qed

lemma get_from_deliveries:
  assumes "inv t" and "get (track_all track t ps) n h = Some q"
  shows "q \<in> set ps \<or> get t n h = Some q"
  using assms
proof (induction ps arbitrary: t)
  case Nil
  then show ?case by simp
next
  case (Cons p ps)
  let ?t = "fst (track t p)"
  have "q \<in> set ps \<or> get ?t n h = Some q"
    using Cons.IH [of ?t] Cons.prems inv_track by simp
  moreover have "q = p \<or> get t n h = Some q" if "get ?t n h = Some q"
    using that track_others [OF Cons.prems(1), of n h p q] track_rejected [OF Cons.prems(1), of p n h]
      track_accepted [OF Cons.prems(1), of p]
    by (cases "snd (track t p)"; cases "(n, h) = (prop_node_id p, prop_prev_ledger p)") auto
  ultimately show ?case by auto
qed

end

subsection \<open>Invariant and memory bound\<close>

definition count_prev :: "(node_id \<times> hash256) list \<Rightarrow> hash256 \<Rightarrow> nat" where
  "count_prev ks h = length (filter (\<lambda>(_, p). p = h) ks)"

definition keys_wf :: "(node_id \<times> hash256) list \<Rightarrow> hash256 list \<Rightarrow> bool" where
  "keys_wf ks ord \<longleftrightarrow> distinct ks \<and> distinct ord \<and> snd ` set ks = set ord
     \<and> length ord \<le> MAX_DISTINCT_PREV_LEDGERS \<and> (\<forall>h. count_prev ks h \<le> MAX_PROPOSALS_PER_PREV)"

definition tracker_wf :: "proposal_tracker \<Rightarrow> bool" where
  "tracker_wf t \<longleftrightarrow> keys_wf (hm_keys (pt_proposals t)) (prev_ledger_order t)
     \<and> (\<forall>(k, p) \<in> set (pt_proposals t). k = (prop_node_id p, prop_prev_ledger p))"

lemma tracker_count_for_eq: "tracker_count_for t h = count_prev (hm_keys (pt_proposals t)) h"
  by (simp add: tracker_count_for_def count_prev_def)

lemma count_prev_snoc: "count_prev (ks @ [k]) h = count_prev ks h + (if snd k = h then 1 else 0)"
  by (cases k) (simp add: count_prev_def)

lemma count_prev_filter: "count_prev (filter P ks) h \<le> count_prev ks h"
  by (induction ks) (auto simp: count_prev_def)

lemma count_prev_absent: "h \<notin> snd ` set ks \<Longrightarrow> count_prev ks h = 0"
  by (auto simp: count_prev_def filter_empty_conv image_iff)

lemma keys_wf_known:
  assumes "keys_wf ks ord" and "k \<notin> set ks" and "snd k \<in> set ord"
    and "count_prev ks (snd k) < MAX_PROPOSALS_PER_PREV"
  shows "keys_wf (ks @ [k]) ord"
  using assms by (auto simp: keys_wf_def count_prev_snoc)

lemma keys_wf_new:
  assumes "keys_wf ks ord" and "snd k \<notin> set ord" and "length ord < MAX_DISTINCT_PREV_LEDGERS"
  shows "keys_wf (ks @ [k]) (ord @ [snd k])"
  using assms count_prev_absent [of "snd k" ks]
  by (auto simp: keys_wf_def count_prev_snoc MAX_PROPOSALS_PER_PREV_def)

lemma keys_wf_drop:
  assumes "keys_wf ks ord"
  shows "keys_wf (filter (\<lambda>(_, p). p \<noteq> h) ks) (filter (\<lambda>x. x \<noteq> h) ord)"
proof -
  have "snd ` set (filter (\<lambda>(_, p). p \<noteq> h) ks) = snd ` set ks - {h}" by force
  moreover have "length (filter (\<lambda>x. x \<noteq> h) ord) \<le> MAX_DISTINCT_PREV_LEDGERS"
    using assms by (auto simp: keys_wf_def intro: le_trans [OF length_filter_le])
  moreover have "count_prev (filter (\<lambda>(_, p). p \<noteq> h) ks) g \<le> MAX_PROPOSALS_PER_PREV" for g
    by (rule order_trans [OF count_prev_filter]) (use assms in \<open>simp add: keys_wf_def\<close>)
  ultimately show ?thesis using assms by (auto simp: keys_wf_def)
qed

lemma keys_wf_evict:
  assumes "keys_wf ks ord" and "MAX_DISTINCT_PREV_LEDGERS \<le> length ord"
  shows "keys_wf (filter (\<lambda>(_, p). p \<noteq> hd ord) ks) (tl ord)
    \<and> length (tl ord) < MAX_DISTINCT_PREV_LEDGERS"
proof -
  obtain x xs where ord: "ord = x # xs"
    using assms(2) by (cases ord) (auto simp: MAX_DISTINCT_PREV_LEDGERS_def)
  with assms(1) have "x \<notin> set xs" by (simp add: keys_wf_def)
  then have "filter (\<lambda>y. y \<noteq> x) xs = xs" by (intro filter_True) auto
  then show ?thesis
    using keys_wf_drop [OF assms(1), of x] assms(1) by (simp add: ord keys_wf_def)
qed

subsection \<open>One delivery\<close>

lemma tracker_wf_hm: "tracker_wf t \<Longrightarrow> hm_wf (pt_proposals t)"
  by (simp add: tracker_wf_def keys_wf_def)

lemma tracker_wf_new: "tracker_wf tracker_new"
  by (simp add: tracker_wf_def keys_wf_def tracker_new_def count_prev_def)

lemma tracker_wf_clear: "tracker_wf t \<Longrightarrow> tracker_wf (tracker_clear_for t h)"
  using keys_wf_drop [of "hm_keys (pt_proposals t)" "prev_ledger_order t" h]
    hm_keys_retain [of "\<lambda>(_, p). p \<noteq> h" "pt_proposals t"]
  by (auto simp: tracker_wf_def tracker_clear_for_def set_hm_retain case_prod_unfold)

text \<open>The three ways \<open>track\<close> changes the table: an update in place, a new node under a known
  previous ledger, and a new previous ledger, for which the oldest may be evicted.\<close>

lemma tracker_track_cases:
  fixes p :: proposal
  assumes "tracker_wf t"
  defines "key \<equiv> (prop_node_id p, prop_prev_ledger p)"
  obtains (dropped) q where "tracker_get t (prop_node_id p) (prop_prev_ledger p) = Some q"
      "prop_seq p \<le> prop_seq q"
      "tracker_track t p = (t\<lparr>proposals_dropped_dedup_total := wrap64 (proposals_dropped_dedup_total t + 1)\<rparr>, False)"
  | (replaced) q where "tracker_get t (prop_node_id p) (prop_prev_ledger p) = Some q"
      "prop_seq q < prop_seq p"
      "tracker_track t p = (t\<lparr>pt_proposals := hm_insert key p (pt_proposals t)\<rparr>, True)"
  | (capped) "hm_get (pt_proposals t) key = None" "prop_prev_ledger p \<in> set (prev_ledger_order t)"
      "MAX_PROPOSALS_PER_PREV \<le> tracker_count_for t (prop_prev_ledger p)"
      "tracker_track t p = (t, False)"
  | (known) "hm_get (pt_proposals t) key = None" "prop_prev_ledger p \<in> set (prev_ledger_order t)"
      "tracker_count_for t (prop_prev_ledger p) < MAX_PROPOSALS_PER_PREV"
      "tracker_track t p = (t\<lparr>pt_proposals := hm_insert key p (pt_proposals t)\<rparr>, True)"
  | (fresh) props ord where "hm_get (pt_proposals t) key = None"
      "prop_prev_ledger p \<notin> set (prev_ledger_order t)"
      "keys_wf (hm_keys props) ord" "length ord < MAX_DISTINCT_PREV_LEDGERS"
      "set props \<subseteq> set (pt_proposals t)" "set ord \<subseteq> set (prev_ledger_order t)"
      "tracker_track t p = (t\<lparr>pt_proposals := hm_insert key p props,
          prev_ledger_order := ord @ [prop_prev_ledger p]\<rparr>, True)"
proof (cases "hm_get (pt_proposals t) key")
  case (Some q)
  then show ?thesis
    using dropped [of q] replaced [of q]
    by (cases "prop_seq p \<le> prop_seq q") (simp_all add: tracker_track_def tracker_get_def key_def)
next
  case None
  show ?thesis
  proof (cases "prop_prev_ledger p \<in> set (prev_ledger_order t)")
    case True
    with None show ?thesis
      using capped known
      by (cases "MAX_PROPOSALS_PER_PREV \<le> tracker_count_for t (prop_prev_ledger p)")
        (simp_all add: tracker_track_def key_def Let_def)
  next
    case False
    let ?h = "hd (prev_ledger_order t)"
    let ?props = "hm_retain (\<lambda>(_, p) _. p \<noteq> ?h) (pt_proposals t)"
    have kwf: "keys_wf (hm_keys (pt_proposals t)) (prev_ledger_order t)"
      using assms(1) by (simp add: tracker_wf_def)
    show ?thesis
    proof (cases "MAX_DISTINCT_PREV_LEDGERS \<le> length (prev_ledger_order t)")
      case full: True
      have "hm_keys ?props = filter (\<lambda>(_, p). p \<noteq> ?h) (hm_keys (pt_proposals t))"
        using hm_keys_retain [of "\<lambda>(_, p). p \<noteq> ?h"] by (simp add: case_prod_unfold)
      then have "keys_wf (hm_keys ?props) (tl (prev_ledger_order t))"
        "length (tl (prev_ledger_order t)) < MAX_DISTINCT_PREV_LEDGERS"
        using keys_wf_evict [OF kwf full] by simp_all
      moreover have "set ?props \<subseteq> set (pt_proposals t)" by (auto simp: set_hm_retain)
      moreover have "set (tl (prev_ledger_order t)) \<subseteq> set (prev_ledger_order t)"
        by (cases "prev_ledger_order t") auto
      moreover have "tracker_track t p = (t\<lparr>pt_proposals := hm_insert key p ?props,
          prev_ledger_order := tl (prev_ledger_order t) @ [prop_prev_ledger p]\<rparr>, True)"
        using None False full by (simp add: tracker_track_def key_def Let_def)
      ultimately show ?thesis using fresh [OF None False] by blast
    next
      case room: False
      have "tracker_track t p = (t\<lparr>pt_proposals := hm_insert key p (pt_proposals t),
          prev_ledger_order := prev_ledger_order t @ [prop_prev_ledger p]\<rparr>, True)"
        using None False room by (simp add: tracker_track_def key_def Let_def)
      then show ?thesis using fresh [OF None False kwf] room by simp
    qed
  qed
qed

lemma tracker_wf_track:
  assumes "tracker_wf t"
  shows "tracker_wf (fst (tracker_track t p))"
  using assms
proof (cases rule: tracker_track_cases [where p = p])
  case (replaced q)
  then have "(prop_node_id p, prop_prev_ledger p) \<in> set (hm_keys (pt_proposals t))"
    by (force simp: tracker_get_def dest: map_of_SomeD)
  with replaced assms show ?thesis
    by (auto simp: tracker_wf_def hm_keys_list_insert set_hm_insert [OF tracker_wf_hm [OF assms]])
next
  case known
  with assms show ?thesis
    using keys_wf_known [of "hm_keys (pt_proposals t)" _ "(prop_node_id p, prop_prev_ledger p)"]
    by (auto simp: tracker_wf_def hm_insert_absent tracker_count_for_eq hm_get_None)
next
  case (fresh props ord)
  have "(prop_node_id p, prop_prev_ledger p) \<notin> set (hm_keys props)"
    using fresh(1,5) by (auto simp: hm_get_None)
  moreover have "prop_prev_ledger p \<notin> set ord" using fresh(2,6) by auto
  ultimately show ?thesis
    using assms fresh keys_wf_new [of "hm_keys props" ord "(prop_node_id p, prop_prev_ledger p)"]
    by (auto simp: tracker_wf_def hm_insert_absent)
qed (use assms in \<open>simp_all add: tracker_wf_def\<close>)

lemma tracker_reachable_wf: "tracker_reachable t \<Longrightarrow> tracker_wf t"
  by (induction rule: tracker_reachable.induct)
    (auto intro: tracker_wf_new tracker_wf_track tracker_wf_clear)

lemma keys_total:
  assumes "keys_wf ks ord"
  shows "length ks \<le> MAX_PROPOSALS_PER_PREV * length ord"
proof -
  have "length ks = (\<Sum>h\<in>set ord. count_prev ks h)"
    if "distinct ord" "snd ` set ks \<subseteq> set ord" for ks and ord
    using that(2)
  proof (induction ks)
    case (Cons k ks)
    have "count_prev (k # ks) h = count_prev ks h + (if h = snd k then 1 else 0)" for h
      by (cases k) (simp add: count_prev_def)
    then show ?case using Cons by (simp add: sum.distrib)
  qed (simp add: count_prev_def)
  then have "length ks = (\<Sum>h\<in>set ord. count_prev ks h)"
    using assms by (simp add: keys_wf_def)
  also have "\<dots> \<le> card (set ord) * MAX_PROPOSALS_PER_PREV"
    using assms sum_bounded_above [of "set ord" "count_prev ks" MAX_PROPOSALS_PER_PREV]
    by (simp add: keys_wf_def)
  finally show ?thesis using assms by (simp add: keys_wf_def distinct_card mult.commute)
qed

text \<open>C16: However many proposals peers send, in whatever order and between whatever round
  changes, a tracker never holds more than 1024 proposals, at most 16 for one previous ledger
  and at most 64 previous ledgers, and it files each proposal under its own node and ledger.\<close>

theorem tracker_memory_bounded:
  assumes "tracker_reachable t"
  shows "tracker_len t \<le> 1024 \<and> length (prev_ledger_order t) \<le> 64 \<and> tracker_count_for t h \<le> 16
    \<and> (tracker_get t n h = Some p \<longrightarrow> prop_node_id p = n \<and> prop_prev_ledger p = h)"
proof -
  have wf: "tracker_wf t" using assms by (rule tracker_reachable_wf)
  then have k: "keys_wf (hm_keys (pt_proposals t)) (prev_ledger_order t)" by (simp add: tracker_wf_def)
  then have ord: "length (prev_ledger_order t) \<le> 64"
    by (simp add: keys_wf_def MAX_DISTINCT_PREV_LEDGERS_def)
  have "tracker_len t \<le> 16 * length (prev_ledger_order t)"
    using keys_total [OF k] by (simp add: tracker_len_def MAX_PROPOSALS_PER_PREV_def)
  then have "tracker_len t \<le> 1024" using ord by simp
  moreover have "tracker_count_for t h \<le> 16"
    using k by (simp add: keys_wf_def tracker_count_for_eq MAX_PROPOSALS_PER_PREV_def)
  moreover have "prop_node_id p = n \<and> prop_prev_ledger p = h" if "tracker_get t n h = Some p"
    using wf hm_get_in [OF that [unfolded tracker_get_def]] by (auto simp: tracker_wf_def)
  ultimately show ?thesis using ord by blast
qed

subsection \<open>The tracker keeps its contract\<close>

lemma tracker_get_insert_retained:
  assumes "hm_wf m" and "hm_wf props" and "set props \<subseteq> set m" and "k \<noteq> key"
    and "hm_get (hm_insert key p props) k = Some q"
  shows "hm_get m k = Some q"
proof -
  have "hm_get props k = Some q" using assms(4,5) by (simp add: hm_get_insert)
  then have "(k, q) \<in> set m" using assms(3) by (auto dest: map_of_SomeD)
  then show ?thesis using assms(1) by simp
qed

interpretation pt: proposal_dedup tracker_track tracker_get tracker_wf
proof
  fix t :: proposal_tracker and p q :: proposal and n h
  assume wf: "tracker_wf t"
  show "tracker_wf (fst (tracker_track t p))" using wf by (rule tracker_wf_track)
  show "tracker_get (fst (tracker_track t p)) (prop_node_id p) (prop_prev_ledger p) = Some p"
    if "snd (tracker_track t p)"
    using wf that by (cases rule: tracker_track_cases [where p = p])
      (auto simp: tracker_get_def hm_get_insert)
  show "prop_seq q < prop_seq p" if "snd (tracker_track t p)"
    and "tracker_get t (prop_node_id p) (prop_prev_ledger p) = Some q"
    using wf that by (cases rule: tracker_track_cases [where p = p])
      (auto simp: tracker_get_def)
  show "tracker_get (fst (tracker_track t p)) n h = tracker_get t n h" if "\<not> snd (tracker_track t p)"
    using wf that by (cases rule: tracker_track_cases [where p = p]) (auto simp: tracker_get_def)
  show "tracker_get t n h = Some q" if ne: "(n, h) \<noteq> (prop_node_id p, prop_prev_ledger p)"
    and got: "tracker_get (fst (tracker_track t p)) n h = Some q"
    using wf
  proof (cases rule: tracker_track_cases [where p = p])
    case (fresh props ord)
    then have "hm_wf props" by (simp add: keys_wf_def)
    from tracker_get_insert_retained [OF tracker_wf_hm [OF wf] this fresh(5) ne] got fresh(7)
    show ?thesis by (simp add: tracker_get_def)
  qed (use ne got in \<open>auto simp: tracker_get_def hm_get_insert\<close>)
qed

text \<open>In a reachable tracker a delivery is accepted exactly when it is the first for its
  node and previous ledger and the ledger's node cap leaves room, or when its proposal sequence
  is strictly greater than the stored one. An accepted proposal is the one then returned for its
  key and is rejected when replayed; a rejected one leaves every stored proposal as it was.\<close>

theorem tracker_acceptance:
  assumes "tracker_reachable t"
  shows "(snd (tracker_track t p) \<longleftrightarrow>
      (case tracker_get t (prop_node_id p) (prop_prev_ledger p) of
         Some q \<Rightarrow> prop_seq q < prop_seq p
       | None \<Rightarrow> prop_prev_ledger p \<in> set (prev_ledger_order t)
                  \<longrightarrow> tracker_count_for t (prop_prev_ledger p) < 16))
    \<and> (snd (tracker_track t p) \<longrightarrow>
        tracker_get (fst (tracker_track t p)) (prop_node_id p) (prop_prev_ledger p) = Some p
        \<and> \<not> snd (tracker_track (fst (tracker_track t p)) p))
    \<and> (\<not> snd (tracker_track t p) \<longrightarrow> tracker_get (fst (tracker_track t p)) n h = tracker_get t n h)"
proof -
  have wf: "tracker_wf t" using assms by (rule tracker_reachable_wf)
  have "snd (tracker_track t p) \<longleftrightarrow>
      (case tracker_get t (prop_node_id p) (prop_prev_ledger p) of
         Some q \<Rightarrow> prop_seq q < prop_seq p
       | None \<Rightarrow> prop_prev_ledger p \<in> set (prev_ledger_order t)
                  \<longrightarrow> tracker_count_for t (prop_prev_ledger p) < 16)"
    using wf by (cases rule: tracker_track_cases [where p = p])
      (auto simp: tracker_get_def MAX_PROPOSALS_PER_PREV_def)
  then show ?thesis
    using pt.track_accepted [OF wf] pt.replay_rejected [OF wf] pt.track_rejected [OF wf] by blast
qed

text \<open>A proposal stored for a key comes from the deliveries (nothing is made up), and while
  a key stays tracked its proposal sequence only goes up.\<close>

theorem tracker_history:
  assumes "tracker_reachable t"
  shows "(tracker_get (track_all tracker_track t ps) n h = Some q \<longrightarrow> q \<in> set ps \<or> tracker_get t n h = Some q)
    \<and> (tracker_get t n h = Some a \<and> tracker_get (fst (tracker_track t p)) n h = Some b
        \<longrightarrow> a = b \<or> prop_seq a < prop_seq b)"
  using pt.get_from_deliveries [OF tracker_reachable_wf [OF assms]]
    pt.get_monotone [OF tracker_reachable_wf [OF assms]] by blast

definition example_proposal :: "hash256 \<Rightarrow> nat \<Rightarrow> proposal" where
  "example_proposal n s = \<lparr>prop_node_id = NodeId n, prop_public_key = [], tx_set_hash = 5,
     prop_close_time = 100, prop_seq = s, prop_ledger_seq = 2, prop_prev_ledger = 9, prop_signature = None\<rparr>"

lemma example_proposal_fields [simp]:
  "prop_node_id (example_proposal n s) = NodeId n" "prop_prev_ledger (example_proposal n s) = 9"
  "prop_seq (example_proposal n s) = s"
  by (simp_all add: example_proposal_def)

lemma example_tracker_reachable:
  "tracker_reachable (fst (tracker_track tracker_new (example_proposal 1 0)))"
  by (rule tracker_deliver) (rule tracker_start)

lemma example_tracker_track:
  "tracker_track tracker_new (example_proposal 1 0) =
     (\<lparr>pt_proposals = [((NodeId 1, 9), example_proposal 1 0)], prev_ledger_order = [9],
       proposals_dropped_dedup_total = 0\<rparr>, True)"
  by (simp add: tracker_track_def tracker_new_def Let_def MAX_DISTINCT_PREV_LEDGERS_def)

theorem tracker_memory_bounded_witness:
  "tracker_len (fst (tracker_track tracker_new (example_proposal 1 0))) \<le> 1024"
  using tracker_memory_bounded [OF example_tracker_reachable] by blast

theorem tracker_acceptance_witness:
  "snd (tracker_track (fst (tracker_track tracker_new (example_proposal 1 0))) (example_proposal 1 1))
    \<and> \<not> snd (tracker_track (fst (tracker_track tracker_new (example_proposal 1 0))) (example_proposal 1 0))"
  using tracker_acceptance [OF example_tracker_reachable, of "example_proposal 1 1" "NodeId 1" 9]
    tracker_acceptance [OF example_tracker_reachable, of "example_proposal 1 0" "NodeId 1" 9]
  by (simp add: example_tracker_track tracker_get_def)

theorem tracker_history_witness:
  "example_proposal 1 0 \<in> set [example_proposal 1 0]
    \<and> tracker_get (track_all tracker_track tracker_new [example_proposal 1 0]) (NodeId 1) 9
        = Some (example_proposal 1 0)"
proof -
  have got: "tracker_get (track_all tracker_track tracker_new [example_proposal 1 0]) (NodeId 1) 9
      = Some (example_proposal 1 0)"
    by (simp add: example_tracker_track tracker_get_def)
  then have "example_proposal 1 0 \<in> set [example_proposal 1 0]
      \<or> tracker_get tracker_new (NodeId 1) 9 = Some (example_proposal 1 0)"
    using tracker_history [OF tracker_start] by blast
  then show ?thesis using got by (simp add: tracker_get_def tracker_new_def)
qed

end
