(* ===== verification/Unl.thy ===== *)
theory Unl
  imports Consensus_Types
begin

text \<open>
  The trusted validator list of \<^verbatim>\<open>crates/consensus/src/unl.rs\<close>: which node ids count
  toward the quorum, the ephemeral-to-master mapping of manifests, the expirations of
  version 2 lists, and the 80 percent quorum. The hash that turns a public key into a node id
  and the hex encoding of keys are parameters (\<open>sha\<close>, \<open>hexenc\<close>).
\<close>

subsection \<open>The list and its operations\<close>

record trusted_validator_list =
  trusted :: "node_id list"
  negative_unl :: "node_id list"
  ephemeral_to_master :: "(node_id, node_id) hmap"
  master_keys :: "(string, node_id) hmap"
  expirations :: "(node_id, nat) hmap"

record time_bound_validator =
  master_key :: bytes
  expires_at_unix :: nat

definition unl_new :: "node_id list \<Rightarrow> trusted_validator_list" where
  "unl_new ts = \<lparr>trusted = ts, negative_unl = [], ephemeral_to_master = [], master_keys = [],
     expirations = []\<rparr>"

definition unl_empty :: trusted_validator_list where
  "unl_empty = unl_new []"

definition resolve_to_master :: "trusted_validator_list \<Rightarrow> node_id \<Rightarrow> node_id" where
  "resolve_to_master u n = (case hm_get (ephemeral_to_master u) n of Some m \<Rightarrow> m | None \<Rightarrow> n)"

definition is_trusted :: "trusted_validator_list \<Rightarrow> node_id \<Rightarrow> bool" where
  "is_trusted u n = (let resolved = resolve_to_master u n in
     resolved \<in> set (trusted u) \<and> resolved \<notin> set (negative_unl u))"

definition unl_is_empty :: "trusted_validator_list \<Rightarrow> bool" where
  "unl_is_empty u = (trusted u = [])"

definition add_to_negative_unl :: "trusted_validator_list \<Rightarrow> node_id \<Rightarrow> trusted_validator_list" where
  "add_to_negative_unl u n = u\<lparr>negative_unl := hs_insert n (negative_unl u)\<rparr>"

definition remove_from_negative_unl :: "trusted_validator_list \<Rightarrow> node_id \<Rightarrow> trusted_validator_list" where
  "remove_from_negative_unl u n = u\<lparr>negative_unl := hs_remove n (negative_unl u)\<rparr>"

definition is_in_negative_unl :: "trusted_validator_list \<Rightarrow> node_id \<Rightarrow> bool" where
  "is_in_negative_unl u n = (n \<in> set (negative_unl u))"

definition effective_size :: "trusted_validator_list \<Rightarrow> nat" where
  "effective_size u = length (filter (\<lambda>n. n \<notin> set (negative_unl u)) (trusted u))"

definition effective_size_at :: "trusted_validator_list \<Rightarrow> nat \<Rightarrow> nat" where
  "effective_size_at u now_unix =
     length (filter (\<lambda>n. case hm_get (expirations u) n of Some e \<Rightarrow> now_unix < e | None \<Rightarrow> True)
       (filter (\<lambda>n. n \<notin> set (negative_unl u)) (trusted u)))"

text \<open>The product stays far below \<open>2^64\<close> for any list that fits in memory, so it is not wrapped.\<close>

definition quorum_threshold :: "trusted_validator_list \<Rightarrow> nat" where
  "quorum_threshold u = (let size = effective_size u in
     if size = 0 then 0 else div_ceil (size * 80) 100)"

text \<open>One iteration of the loop of \<open>update_from_validator_keys_v2\<close>.\<close>

definition v2_admit :: "(bytes \<Rightarrow> hash256) \<Rightarrow> (bytes \<Rightarrow> string) \<Rightarrow> nat \<Rightarrow> time_bound_validator
    \<Rightarrow> trusted_validator_list \<Rightarrow> trusted_validator_list" where
  "v2_admit sha hexenc now_unix v u =
     (if expires_at_unix v \<le> now_unix then u
      else (let n = from_public_key sha (master_key v) in
        u\<lparr>trusted := hs_insert n (trusted u),
          master_keys := hm_insert (hexenc (master_key v)) n (master_keys u),
          expirations := (case hm_get (expirations u) n of
              Some e \<Rightarrow> if e < expires_at_unix v then hm_insert n (expires_at_unix v) (expirations u)
                        else expirations u
            | None \<Rightarrow> hm_insert n (expires_at_unix v) (expirations u))\<rparr>))"

definition update_from_validator_keys_v2 :: "(bytes \<Rightarrow> hash256) \<Rightarrow> (bytes \<Rightarrow> string)
    \<Rightarrow> trusted_validator_list \<Rightarrow> time_bound_validator list \<Rightarrow> nat \<Rightarrow> trusted_validator_list" where
  "update_from_validator_keys_v2 sha hexenc u validators now_unix =
     fold (v2_admit sha hexenc now_unix) validators
       (u\<lparr>trusted := [], master_keys := [], expirations := []\<rparr>)"

definition update_from_validator_keys :: "(bytes \<Rightarrow> hash256) \<Rightarrow> (bytes \<Rightarrow> string)
    \<Rightarrow> trusted_validator_list \<Rightarrow> bytes list \<Rightarrow> trusted_validator_list" where
  "update_from_validator_keys sha hexenc u keys =
     fold (\<lambda>pk u. let n = from_public_key sha pk in
         u\<lparr>trusted := hs_insert n (trusted u), master_keys := hm_insert (hexenc pk) n (master_keys u)\<rparr>)
       keys (u\<lparr>trusted := [], master_keys := []\<rparr>)"

definition register_ephemeral_key :: "(bytes \<Rightarrow> hash256) \<Rightarrow> trusted_validator_list \<Rightarrow> bytes \<Rightarrow> bytes
    \<Rightarrow> bytes option \<Rightarrow> trusted_validator_list" where
  "register_ephemeral_key sha u master_pk ephemeral_pk old_ephemeral =
     (let master_id = from_public_key sha master_pk;
          eph_id = from_public_key sha ephemeral_pk;
          kept = (case old_ephemeral of
              Some old \<Rightarrow> hm_remove (from_public_key sha old) (ephemeral_to_master u)
            | None \<Rightarrow> ephemeral_to_master u) in
      u\<lparr>ephemeral_to_master := hm_insert eph_id master_id kept\<rparr>)"

definition remove_ephemeral_key :: "(bytes \<Rightarrow> hash256) \<Rightarrow> trusted_validator_list \<Rightarrow> bytes
    \<Rightarrow> trusted_validator_list" where
  "remove_ephemeral_key sha u ephemeral_pk =
     u\<lparr>ephemeral_to_master := hm_remove (from_public_key sha ephemeral_pk) (ephemeral_to_master u)\<rparr>"

definition revoke_master_key :: "(bytes \<Rightarrow> hash256) \<Rightarrow> (bytes \<Rightarrow> string) \<Rightarrow> trusted_validator_list
    \<Rightarrow> bytes \<Rightarrow> trusted_validator_list" where
  "revoke_master_key sha hexenc u master_pk =
     u\<lparr>trusted := hs_remove (from_public_key sha master_pk) (trusted u),
       master_keys := hm_remove (hexenc master_pk) (master_keys u)\<rparr>"

text \<open>A list with distinct entries, as the hash sets have them.\<close>

definition unl_wf :: "trusted_validator_list \<Rightarrow> bool" where
  "unl_wf u \<longleftrightarrow> distinct (trusted u) \<and> distinct (negative_unl u)"

subsection \<open>Quorum\<close>

text \<open>The validators that count: trusted and not on the negative list.\<close>

definition effective_set :: "trusted_validator_list \<Rightarrow> node_id set" where
  "effective_set u = set (trusted u) - set (negative_unl u)"

lemma effective_size_card: "unl_wf u \<Longrightarrow> effective_size u = card (effective_set u)"
proof -
  assume "unl_wf u"
  then have "distinct (filter (\<lambda>n. n \<notin> set (negative_unl u)) (trusted u))" by (simp add: unl_wf_def)
  from distinct_card [OF this] show ?thesis
    by (simp add: effective_size_def effective_set_def set_diff_eq)
qed

lemma quorum_threshold_ge: "80 * effective_size u \<le> 100 * quorum_threshold u"
  using div_ceil_le_iff [of 100 "effective_size u * 80" "quorum_threshold u"]
  by (auto simp: quorum_threshold_def Let_def split: if_splits)

lemma quorum_threshold_le_iff: "quorum_threshold u \<le> n \<longleftrightarrow> 80 * effective_size u \<le> 100 * n"
  using div_ceil_le_iff [of 100 "effective_size u * 80" n]
  by (auto simp: quorum_threshold_def Let_def mult.commute)

lemma quorum_overlap:
  assumes "finite E" and "A \<subseteq> E" and "B \<subseteq> E" and "80 * card E \<le> 100 * card A"
    and "80 * card E \<le> 100 * card B"
  shows "60 * card E \<le> 100 * card (A \<inter> B)"
proof -
  have fin: "finite A" "finite B" using assms(1-3) finite_subset by auto
  have "card A + card B = card (A \<union> B) + card (A \<inter> B)" using fin by (rule card_Un_Int)
  moreover have "card (A \<union> B) \<le> card E" using assms(1-3) by (intro card_mono) auto
  ultimately show ?thesis using assms(4,5) by linarith
qed

text \<open>C12: The quorum is the least number of validators that is at least 80 percent of the
  effective list, never more than the list has, and zero only for an empty one. Two groups of
  effective validators that both reach it share at least 60 percent of the list, so two
  conflicting ledgers cannot both be validated unless that many validators sign both.\<close>

theorem quorum_threshold_safe:
  assumes "unl_wf u"
  shows "(quorum_threshold u \<le> n \<longleftrightarrow> 80 * effective_size u \<le> 100 * n)
    \<and> quorum_threshold u \<le> effective_size u
    \<and> (quorum_threshold u = 0 \<longleftrightarrow> effective_size u = 0)
    \<and> (A \<subseteq> effective_set u \<and> B \<subseteq> effective_set u
        \<and> quorum_threshold u \<le> card A \<and> quorum_threshold u \<le> card B
        \<longrightarrow> 60 * effective_size u \<le> 100 * card (A \<inter> B))"
proof -
  have "finite (effective_set u)" by (simp add: effective_set_def)
  then have "60 * effective_size u \<le> 100 * card (A \<inter> B)"
    if "A \<subseteq> effective_set u" "B \<subseteq> effective_set u"
      "quorum_threshold u \<le> card A" "quorum_threshold u \<le> card B"
    using quorum_overlap [of "effective_set u" A B] that
    by (simp add: quorum_threshold_le_iff effective_size_card [OF assms])
  moreover have "quorum_threshold u = 0 \<longleftrightarrow> effective_size u = 0"
    using quorum_threshold_le_iff [of u 0] by simp
  ultimately show ?thesis by (simp add: quorum_threshold_le_iff)
qed

definition example_unl :: trusted_validator_list where
  "example_unl = unl_new [NodeId 1, NodeId 2, NodeId 3, NodeId 4, NodeId 5]"

theorem quorum_threshold_safe_witness:
  "quorum_threshold example_unl = 4 \<and> unl_wf example_unl
    \<and> 60 * effective_size example_unl \<le>
        100 * card ({NodeId 1, NodeId 2, NodeId 3, NodeId 4} \<inter> {NodeId 2, NodeId 3, NodeId 4, NodeId 5})"
proof -
  have wf: "unl_wf example_unl" by (simp add: unl_wf_def example_unl_def unl_new_def)
  have q: "quorum_threshold example_unl = 4"
    by (simp add: quorum_threshold_def effective_size_def example_unl_def unl_new_def div_ceil_def)
  have "effective_set example_unl = {NodeId 1, NodeId 2, NodeId 3, NodeId 4, NodeId 5}"
    by (simp add: effective_set_def example_unl_def unl_new_def)
  then show ?thesis
    using wf q quorum_threshold_safe [OF wf, of 4 "{NodeId 1, NodeId 2, NodeId 3, NodeId 4}"
        "{NodeId 2, NodeId 3, NodeId 4, NodeId 5}"] by simp
qed

lemma is_trusted_iff: "is_trusted u n \<longleftrightarrow> resolve_to_master u n \<in> effective_set u"
  by (simp add: is_trusted_def effective_set_def Let_def)

subsection \<open>Keys: manifests, revocation and published lists\<close>

lemma resolve_register:
  "resolve_to_master (register_ephemeral_key sha u m e old) n =
     (if n = from_public_key sha e then from_public_key sha m
      else if map_option (from_public_key sha) old = Some n then n
      else resolve_to_master u n)"
  by (cases old) (auto simp: resolve_to_master_def register_ephemeral_key_def Let_def hm_simps)

lemma resolve_remove:
  "resolve_to_master (remove_ephemeral_key sha u e) n =
     (if n = from_public_key sha e then n else resolve_to_master u n)"
  by (auto simp: resolve_to_master_def remove_ephemeral_key_def hm_simps)

lemma sets_register [simp]:
  "trusted (register_ephemeral_key sha u m e old) = trusted u"
  "negative_unl (register_ephemeral_key sha u m e old) = negative_unl u"
  by (simp_all add: register_ephemeral_key_def Let_def)

lemma sets_remove [simp]:
  "trusted (remove_ephemeral_key sha u e) = trusted u"
  "negative_unl (remove_ephemeral_key sha u e) = negative_unl u"
  by (simp_all add: remove_ephemeral_key_def)

text \<open>A manifest makes an ephemeral key count exactly when its master key does; rotating the
  ephemeral key takes the mapping of the previous one away; dropping an ephemeral key takes its own
  mapping away; revoking a master key makes every key that resolves to it untrusted. Every other
  key keeps the trust it had.\<close>

theorem unl_key_management:
  fixes sha :: "bytes \<Rightarrow> hash256"
  defines "nid \<equiv> from_public_key sha"
  shows "is_trusted (register_ephemeral_key sha u m e old) n =
      (if n = nid e then nid m \<in> effective_set u
       else if \<exists>pk. old = Some pk \<and> nid pk = n then n \<in> effective_set u
       else is_trusted u n)
    \<and> is_trusted (remove_ephemeral_key sha u e) n =
      (if n = nid e then n \<in> effective_set u else is_trusted u n)
    \<and> is_trusted (revoke_master_key sha hexenc u m) n =
      (resolve_to_master u n \<noteq> nid m \<and> is_trusted u n)"
proof -
  have old: "map_option nid old = Some n \<longleftrightarrow> (\<exists>pk. old = Some pk \<and> nid pk = n)"
    by (cases old) simp_all
  have "is_trusted (register_ephemeral_key sha u m e old) n =
      (if n = nid e then nid m \<in> effective_set u
       else if map_option nid old = Some n then n \<in> effective_set u
       else is_trusted u n)"
    by (simp only: is_trusted_iff resolve_register effective_set_def sets_register nid_def split: if_split) auto
  moreover have "is_trusted (remove_ephemeral_key sha u e) n =
      (if n = nid e then n \<in> effective_set u else is_trusted u n)"
    by (simp add: is_trusted_iff resolve_remove effective_set_def nid_def)
  moreover have "is_trusted (revoke_master_key sha hexenc u m) n =
      (resolve_to_master u n \<noteq> nid m \<and> is_trusted u n)"
    by (auto simp: is_trusted_iff effective_set_def revoke_master_key_def resolve_to_master_def nid_def)
  ultimately show ?thesis unfolding old by blast
qed

definition v2_ids :: "(bytes \<Rightarrow> hash256) \<Rightarrow> nat \<Rightarrow> time_bound_validator list \<Rightarrow> node_id set" where
  "v2_ids sha now_unix vs =
     (\<lambda>v. from_public_key sha (master_key v)) ` {v \<in> set vs. now_unix < expires_at_unix v}"

definition v2_expiries :: "(bytes \<Rightarrow> hash256) \<Rightarrow> nat \<Rightarrow> time_bound_validator list \<Rightarrow> node_id \<Rightarrow> nat set" where
  "v2_expiries sha now_unix vs n =
     expires_at_unix ` {v \<in> set vs. now_unix < expires_at_unix v \<and> from_public_key sha (master_key v) = n}"

lemma v2_ids_expiries: "n \<in> v2_ids sha now vs \<longleftrightarrow> v2_expiries sha now vs n \<noteq> {}"
  by (auto simp: v2_ids_def v2_expiries_def)

lemma v2_expiries_snoc:
  "v2_expiries sha now (vs @ [v]) n =
     (if now < expires_at_unix v \<and> from_public_key sha (master_key v) = n
      then insert (expires_at_unix v) (v2_expiries sha now vs n) else v2_expiries sha now vs n)"
  by (auto simp: v2_expiries_def)

lemma v2_ids_snoc:
  "v2_ids sha now (vs @ [v]) =
     (if now < expires_at_unix v then insert (from_public_key sha (master_key v)) (v2_ids sha now vs)
      else v2_ids sha now vs)"
  by (auto simp: v2_ids_def)

lemma finite_v2_expiries [simp]: "finite (v2_expiries sha now vs n)"
  by (simp add: v2_expiries_def)

definition v2_loaded :: "(bytes \<Rightarrow> hash256) \<Rightarrow> nat \<Rightarrow> trusted_validator_list \<Rightarrow> time_bound_validator list
    \<Rightarrow> trusted_validator_list \<Rightarrow> bool" where
  "v2_loaded sha now u vs r \<longleftrightarrow> distinct (trusted r) \<and> set (trusted r) = v2_ids sha now vs
    \<and> negative_unl r = negative_unl u \<and> ephemeral_to_master r = ephemeral_to_master u
    \<and> (\<forall>n. hm_get (expirations r) n =
        (if n \<in> v2_ids sha now vs then Some (Max (v2_expiries sha now vs n)) else None))"

lemma v2_admit_step:
  assumes "v2_loaded sha now u vs r"
  shows "v2_loaded sha now u (vs @ [v]) (v2_admit sha hexenc now v r)"
proof (cases "expires_at_unix v \<le> now")
  case True
  with assms show ?thesis
    by (simp add: v2_loaded_def v2_admit_def v2_ids_snoc v2_expiries_snoc)
next
  case False
  let ?n = "from_public_key sha (master_key v)" and ?r = "v2_admit sha hexenc now v r"
  have "hm_get (expirations ?r) ?n = Some (Max (v2_expiries sha now (vs @ [v]) ?n))"
  proof (cases "v2_expiries sha now vs ?n = {}")
    case True
    then have "hm_get (expirations r) ?n = None"
      using assms by (simp add: v2_loaded_def v2_ids_expiries)
    with True False show ?thesis by (simp add: v2_admit_def Let_def v2_expiries_snoc hm_get_insert)
  next
    case prev: False
    then have "hm_get (expirations r) ?n = Some (Max (v2_expiries sha now vs ?n))"
      using assms by (simp add: v2_loaded_def v2_ids_expiries)
    moreover have "Max (v2_expiries sha now (vs @ [v]) ?n) =
        max (expires_at_unix v) (Max (v2_expiries sha now vs ?n))"
      using prev False by (simp add: v2_expiries_snoc)
    ultimately show ?thesis using False by (simp add: v2_admit_def Let_def hm_get_insert)
  qed
  then have "hm_get (expirations ?r) n =
      (if n \<in> v2_ids sha now (vs @ [v]) then Some (Max (v2_expiries sha now (vs @ [v]) n)) else None)" for n
  proof (cases "n = ?n")
    case other: False
    then have "hm_get (expirations ?r) n = hm_get (expirations r) n"
      using False by (auto simp: v2_admit_def Let_def hm_get_insert split: option.splits)
    with other False assms show ?thesis by (simp add: v2_loaded_def v2_ids_snoc v2_expiries_snoc)
  qed (use False in \<open>simp add: v2_ids_snoc\<close>)
  moreover have "trusted ?r = hs_insert ?n (trusted r)" "negative_unl ?r = negative_unl r"
    "ephemeral_to_master ?r = ephemeral_to_master r"
    using False by (simp_all add: v2_admit_def Let_def)
  ultimately show ?thesis
    using assms False by (simp add: v2_loaded_def v2_ids_snoc)
qed

lemma v2_fold: "v2_loaded sha now u vs (update_from_validator_keys_v2 sha hexenc u vs now)"
proof (induction vs rule: rev_induct)
  case Nil
  show ?case by (simp add: v2_loaded_def v2_ids_def update_from_validator_keys_v2_def)
next
  case (snoc v vs)
  from v2_admit_step [OF this] show ?case by (simp add: update_from_validator_keys_v2_def)
qed

lemma effective_size_at_antimono: "s \<le> t \<Longrightarrow> effective_size_at u t \<le> effective_size_at u s"
proof -
  assume "s \<le> t"
  have mono: "length (filter P xs) \<le> length (filter Q xs)"
    if "\<And>x. P x \<Longrightarrow> Q x" for P Q and xs :: "node_id list"
    using that by (induction xs) auto
  show ?thesis
    unfolding effective_size_at_def
    by (rule mono) (use \<open>s \<le> t\<close> in \<open>auto split: option.splits\<close>)
qed

text \<open>Loading a version 2 list at time \<open>now\<close> trusts exactly the validators with an entry that
  has not expired, each until the latest of its expirations. At load time the whole list counts;
  later a validator counts exactly while its latest expiration is ahead, so the size only falls
  until the next list.\<close>

theorem v2_list_loaded:
  fixes sha hexenc u vs now
  defines "r \<equiv> update_from_validator_keys_v2 sha hexenc u vs now"
  shows "set (trusted r) = v2_ids sha now vs \<and> distinct (trusted r)
    \<and> effective_size_at r now = effective_size r
    \<and> effective_size_at r t = card {n \<in> effective_set r. t < Max (v2_expiries sha now vs n)}
    \<and> (s \<le> t \<longrightarrow> effective_size_at r t \<le> effective_size_at r s)
    \<and> resolve_to_master r n = resolve_to_master u n"
proof -
  have fold: "distinct (trusted r)" "set (trusted r) = v2_ids sha now vs"
    "negative_unl r = negative_unl u" "ephemeral_to_master r = ephemeral_to_master u"
    and exp: "\<And>n. hm_get (expirations r) n =
        (if n \<in> v2_ids sha now vs then Some (Max (v2_expiries sha now vs n)) else None)"
    using v2_fold [of sha now u vs hexenc] by (simp_all add: v2_loaded_def r_def)
  let ?P = "\<lambda>t n. t < Max (v2_expiries sha now vs n)"
  have at: "effective_size_at r t =
      length (filter (?P t) (filter (\<lambda>n. n \<notin> set (negative_unl r)) (trusted r)))" for t
    unfolding effective_size_at_def
    by (intro arg_cong [where f = length] filter_cong) (auto simp: exp fold)
  have "?P now n" if "n \<in> v2_ids sha now vs" for n
  proof -
    have "Max (v2_expiries sha now vs n) \<in> v2_expiries sha now vs n"
      using that by (intro Max_in) (simp_all add: v2_ids_expiries)
    then show ?thesis by (auto simp: v2_expiries_def)
  qed
  then have "effective_size_at r now = effective_size r"
    unfolding at effective_size_def
    by (intro arg_cong [where f = length] filter_True) (simp add: fold)
  moreover have "effective_size_at r t = card {n \<in> effective_set r. ?P t n}"
    unfolding at using distinct_card [of "filter (?P t) (filter (\<lambda>n. n \<notin> set (negative_unl r)) (trusted r))"] fold(1)
    by (simp add: effective_set_def)
  ultimately show ?thesis
    using fold effective_size_at_antimono [of s t r] by (simp add: resolve_to_master_def)
qed

lemma v1_fold:
  "fold (\<lambda>pk u. let n = from_public_key sha pk in
       u\<lparr>trusted := hs_insert n (trusted u), master_keys := hm_insert (hexenc pk) n (master_keys u)\<rparr>) keys u
   = u\<lparr>trusted := fold (\<lambda>pk. hs_insert (from_public_key sha pk)) keys (trusted u),
       master_keys := fold (\<lambda>pk. hm_insert (hexenc pk) (from_public_key sha pk)) keys (master_keys u)\<rparr>"
  by (induction keys arbitrary: u) (simp_all add: Let_def)

text \<open>C17: Loading a version 1 list replaces the trusted set but keeps the expirations a version 2
  list left behind: a validator published by version 2 until \<open>e\<close> and then by version 1, which has no
  time bound, stops counting at \<open>e\<close>.\<close>

theorem v1_list_keeps_stale_expiration:
  assumes "now < e" and "e \<le> t"
  shows "(let u = update_from_validator_keys sha hexenc
             (update_from_validator_keys_v2 sha hexenc unl_empty [\<lparr>master_key = pk, expires_at_unix = e\<rparr>] now)
             [pk]
          in effective_size u = 1 \<and> effective_size_at u t = 0)"
  using assms
  by (simp add: update_from_validator_keys_def update_from_validator_keys_v2_def v2_admit_def
      unl_empty_def unl_new_def effective_size_def effective_size_at_def Let_def)

theorem v1_list_keeps_stale_expiration_witness:
  "effective_size_at (update_from_validator_keys (\<lambda>_. 7) (\<lambda>_. ''ed'')
     (update_from_validator_keys_v2 (\<lambda>_. 7) (\<lambda>_. ''ed'') unl_empty
        [\<lparr>master_key = [237], expires_at_unix = 200\<rparr>] 100) [[237]]) 300 = 0"
  using v1_list_keeps_stale_expiration [of 100 200 300 "\<lambda>_. 7" "\<lambda>_. ''ed''" "[237]"]
  by (simp add: Let_def)

theorem v2_list_loaded_witness:
  "effective_size_at (update_from_validator_keys_v2 (\<lambda>_. 7) (\<lambda>_. ''ed'') unl_empty
        [\<lparr>master_key = [237], expires_at_unix = 200\<rparr>] 100) 300
   \<le> effective_size_at (update_from_validator_keys_v2 (\<lambda>_. 7) (\<lambda>_. ''ed'') unl_empty
        [\<lparr>master_key = [237], expires_at_unix = 200\<rparr>] 100) 150"
  using v2_list_loaded [where s = 150 and t = 300 and sha = "\<lambda>_. 7" and hexenc = "\<lambda>_. ''ed''" and u = unl_empty
      and vs = "[\<lparr>master_key = [237], expires_at_unix = 200\<rparr>]" and now = 100 and n = "NodeId 7"]
  by linarith

end
