(* ===== verification/Negative_Unl.thy ===== *)
theory Negative_Unl
  imports Complex_Main Unl
begin

text \<open>
  The negative UNL of \<^verbatim>\<open>crates/consensus/src/negative_unl.rs\<close>: how many ledgers of a
  256-ledger window each trusted validator validated, and which validators a flag ledger
  disables or re-enables. The floating point ratios of the source are rationals here: a
  quotient of two \<open>u32\<close> that is not 1/2 differs from it by at least 2^-33, far above the
  rounding of a double, and a quarter of a count below 2^53 is exact.
\<close>

subsection \<open>The tracker\<close>

definition FLAG_LEDGER_INTERVAL :: nat where
  "FLAG_LEDGER_INTERVAL = 256"

definition RELIABILITY_THRESHOLD :: rat where
  "RELIABILITY_THRESHOLD = 1 / 2"

definition MAX_NEGATIVE_UNL_FRACTION :: rat where
  "MAX_NEGATIVE_UNL_FRACTION = 1 / 4"

record negative_unl_change =
  validator_key :: string
  disable :: bool
  change_ledger_seq :: nat

record validator_record =
  validations_received :: nat

record negative_unl_tracker =
  ledgers_in_window :: nat
  current_window :: "(node_id, validator_record) hmap"
  previous_window :: "(node_id, validator_record) hmap"
  node_to_key :: "(node_id, string) hmap"
  currently_disabled :: "node_id list"

definition nunl_new :: negative_unl_tracker where
  "nunl_new = \<lparr>ledgers_in_window = 0, current_window = [], previous_window = [], node_to_key = [],
     currently_disabled = []\<rparr>"

definition register_validator :: "negative_unl_tracker \<Rightarrow> node_id \<Rightarrow> string \<Rightarrow> negative_unl_tracker" where
  "register_validator t n key = t\<lparr>node_to_key := hm_insert n key (node_to_key t)\<rparr>"

definition on_ledger_close :: "negative_unl_tracker \<Rightarrow> negative_unl_tracker" where
  "on_ledger_close t = t\<lparr>ledgers_in_window := wrap32 (ledgers_in_window t + 1)\<rparr>"

definition nunl_received :: "negative_unl_tracker \<Rightarrow> node_id \<Rightarrow> nat" where
  "nunl_received t n = (case hm_get (current_window t) n of Some r \<Rightarrow> validations_received r | None \<Rightarrow> 0)"

definition nunl_record_validation :: "negative_unl_tracker \<Rightarrow> node_id \<Rightarrow> negative_unl_tracker" where
  "nunl_record_validation t n = t\<lparr>current_window :=
     hm_insert n \<lparr>validations_received = wrap32 (nunl_received t n + 1)\<rparr> (current_window t)\<rparr>"

definition mark_disabled :: "negative_unl_tracker \<Rightarrow> node_id \<Rightarrow> negative_unl_tracker" where
  "mark_disabled t n = t\<lparr>currently_disabled := hs_insert n (currently_disabled t)\<rparr>"

definition mark_enabled :: "negative_unl_tracker \<Rightarrow> node_id \<Rightarrow> negative_unl_tracker" where
  "mark_enabled t n = t\<lparr>currently_disabled := hs_remove n (currently_disabled t)\<rparr>"

definition is_flag_ledger :: "nat \<Rightarrow> bool" where
  "is_flag_ledger ledger_seq = (ledger_seq > 0 \<and> ledger_seq mod FLAG_LEDGER_INTERVAL = 0)"

definition validation_ratio :: "negative_unl_tracker \<Rightarrow> node_id \<Rightarrow> rat" where
  "validation_ratio t n =
     (if ledgers_in_window t = 0 then 0
      else of_nat (nunl_received t n) / of_nat (ledgers_in_window t))"

definition max_negative_unl_size :: "nat \<Rightarrow> nat" where
  "max_negative_unl_size trusted_count = nat \<lfloor>of_nat trusted_count * MAX_NEGATIVE_UNL_FRACTION\<rfloor>"

definition rotate_window :: "negative_unl_tracker \<Rightarrow> negative_unl_tracker" where
  "rotate_window t = t\<lparr>previous_window := current_window t, current_window := [], ledgers_in_window := 0\<rparr>"

text \<open>The first loop of \<open>evaluate\<close>, over the snapshot of the disabled validators.\<close>

fun reenable_loop :: "negative_unl_tracker \<Rightarrow> node_id list \<Rightarrow> nat \<Rightarrow> node_id list
    \<Rightarrow> negative_unl_change list \<Rightarrow> node_id list \<Rightarrow> negative_unl_change list \<times> node_id list" where
  "reenable_loop t trusted_set ledger_seq [] changes disabled = (changes, disabled)"
| "reenable_loop t trusted_set ledger_seq (n # ns) changes disabled =
     (if n \<notin> set trusted_set then reenable_loop t trusted_set ledger_seq ns changes disabled
      else if validation_ratio t n > RELIABILITY_THRESHOLD then
        (case hm_get (node_to_key t) n of
           Some key \<Rightarrow> reenable_loop t trusted_set ledger_seq ns
             (changes @ [\<lparr>validator_key = key, disable = False, change_ledger_seq = ledger_seq\<rparr>])
             (hs_remove n disabled)
         | None \<Rightarrow> reenable_loop t trusted_set ledger_seq ns changes disabled)
      else reenable_loop t trusted_set ledger_seq ns changes disabled)"

text \<open>The second loop, over the trusted set, with its \<open>break\<close> at the cap.\<close>

fun disable_loop :: "negative_unl_tracker \<Rightarrow> nat \<Rightarrow> nat \<Rightarrow> node_id list
    \<Rightarrow> negative_unl_change list \<Rightarrow> node_id list \<Rightarrow> negative_unl_change list \<times> node_id list" where
  "disable_loop t max_disabled ledger_seq [] changes disabled = (changes, disabled)"
| "disable_loop t max_disabled ledger_seq (n # ns) changes disabled =
     (if n \<in> set disabled then disable_loop t max_disabled ledger_seq ns changes disabled
      else if max_disabled \<le> length disabled then (changes, disabled)
      else if validation_ratio t n \<le> RELIABILITY_THRESHOLD then
        (case hm_get (node_to_key t) n of
           Some key \<Rightarrow> disable_loop t max_disabled ledger_seq ns
             (changes @ [\<lparr>validator_key = key, disable = True, change_ledger_seq = ledger_seq\<rparr>])
             (hs_insert n disabled)
         | None \<Rightarrow> disable_loop t max_disabled ledger_seq ns changes disabled)
      else disable_loop t max_disabled ledger_seq ns changes disabled)"

definition nunl_evaluate :: "negative_unl_tracker \<Rightarrow> node_id list \<Rightarrow> nat
    \<Rightarrow> negative_unl_tracker \<times> negative_unl_change list" where
  "nunl_evaluate t trusted_set ledger_seq =
     (if ledgers_in_window t = 0 then (rotate_window t, [])
      else
        (let max_disabled = max_negative_unl_size (length trusted_set);
             (changes, disabled) =
               reenable_loop t trusted_set ledger_seq (currently_disabled t) [] (currently_disabled t);
             (changes, disabled) = disable_loop t max_disabled ledger_seq trusted_set changes disabled
         in (rotate_window (t\<lparr>currently_disabled := disabled\<rparr>), changes)))"

subsection \<open>What one evaluation does\<close>

text \<open>Reliable: validated more than half of the window. A validator whose key is not registered is
  never changed.\<close>

definition reliable :: "negative_unl_tracker \<Rightarrow> node_id \<Rightarrow> bool" where
  "reliable t n \<longleftrightarrow> ledgers_in_window t < 2 * nunl_received t n"

definition key_known :: "negative_unl_tracker \<Rightarrow> node_id \<Rightarrow> bool" where
  "key_known t n \<longleftrightarrow> hm_get (node_to_key t) n \<noteq> None"

definition unl_change :: "negative_unl_tracker \<Rightarrow> nat \<Rightarrow> bool \<Rightarrow> node_id \<Rightarrow> negative_unl_change" where
  "unl_change t ledger_seq dis n =
     \<lparr>validator_key = the (hm_get (node_to_key t) n), disable = dis, change_ledger_seq = ledger_seq\<rparr>"

lemma ratio_reliable:
  assumes "ledgers_in_window t \<noteq> 0"
  shows "validation_ratio t n > RELIABILITY_THRESHOLD \<longleftrightarrow> reliable t n"
proof -
  let ?l = "ledgers_in_window t" and ?r = "nunl_received t n"
  have "validation_ratio t n > RELIABILITY_THRESHOLD \<longleftrightarrow> (of_nat ?l :: rat) < of_nat (2 * ?r)"
    using assms by (simp add: validation_ratio_def RELIABILITY_THRESHOLD_def field_simps)
  then show ?thesis unfolding of_nat_less_iff reliable_def .
qed

lemma max_negative_unl_size_eq: "max_negative_unl_size n = n div 4"
proof -
  have "(of_nat n :: rat) * (1 / 4) = of_int (int n) / of_int 4" by simp
  then have "\<lfloor>(of_nat n :: rat) * (1 / 4)\<rfloor> = int n div 4" by (simp only: floor_divide_of_int_eq)
  then show ?thesis by (simp add: max_negative_unl_size_def MAX_NEGATIVE_UNL_FRACTION_def nat_div_distrib)
qed

lemma reenable_loop_eq:
  fixes t trusted_set
  assumes "ledgers_in_window t \<noteq> 0"
  defines "E \<equiv> \<lambda>n. n \<in> set trusted_set \<and> reliable t n \<and> key_known t n"
  shows "reenable_loop t trusted_set s ns changes disabled =
    (changes @ map (unl_change t s False) (filter E ns),
     filter (\<lambda>n. \<not> (n \<in> set ns \<and> E n)) disabled)"
proof (induction ns arbitrary: changes disabled)
  case (Cons n ns)
  show ?case
  proof (cases "E n")
    case True
    then obtain key where "hm_get (node_to_key t) n = Some key" by (auto simp: E_def key_known_def)
    with True Cons.IH show ?thesis
      by (simp add: E_def ratio_reliable [OF assms(1)] unl_change_def removeAll_filter_not_eq)
        (auto intro: filter_cong)
  next
    case False
    then have "reenable_loop t trusted_set s (n # ns) changes disabled
        = reenable_loop t trusted_set s ns changes disabled"
      by (auto simp: E_def ratio_reliable [OF assms(1)] key_known_def split: option.splits)
    also have "\<dots> = (changes @ map (unl_change t s False) (filter E ns),
        filter (\<lambda>m. \<not> (m \<in> set ns \<and> E m)) disabled)" by (rule Cons.IH)
    also have "filter (\<lambda>m. \<not> (m \<in> set ns \<and> E m)) disabled
        = filter (\<lambda>m. \<not> (m \<in> set (n # ns) \<and> E m)) disabled"
      using False by (intro filter_cong) auto
    finally show ?thesis using False by simp
  qed
qed simp

definition disable_outcome :: "negative_unl_tracker \<Rightarrow> nat \<Rightarrow> node_id list \<Rightarrow> node_id list \<Rightarrow> node_id list
    \<Rightarrow> node_id list \<Rightarrow> bool" where
  "disable_outcome t cap ns disabled bs disabled' \<longleftrightarrow>
     distinct disabled' \<and> set disabled' = set disabled \<union> set bs \<and> set bs \<inter> set disabled = {}
     \<and> set bs \<subseteq> {n \<in> set ns. \<not> reliable t n \<and> key_known t n}
     \<and> length disabled' \<le> max (length disabled) cap \<and> (bs = [] \<or> length disabled' \<le> cap)
     \<and> ({n \<in> set ns. \<not> reliable t n \<and> key_known t n} \<subseteq> set disabled' \<or> cap \<le> length disabled')"

lemma disable_outcome_skip:
  assumes "disable_outcome t cap ns disabled bs d'"
    and "n \<in> set disabled \<or> reliable t n \<or> \<not> key_known t n"
  shows "disable_outcome t cap (n # ns) disabled bs d'"
  using assms by (auto simp: disable_outcome_def)

lemma disable_outcome_add:
  assumes "disable_outcome t cap ns (n # disabled) bs d'" and "n \<notin> set disabled"
    and "length disabled < cap" and "\<not> reliable t n" and "key_known t n"
  shows "disable_outcome t cap (n # ns) disabled (n # bs) d'"
  using assms by (auto simp: disable_outcome_def)

lemma disable_loop_outcome:
  assumes "ledgers_in_window t \<noteq> 0" and "distinct disabled"
  shows "\<exists>bs d'. disable_loop t cap s ns changes disabled = (changes @ map (unl_change t s True) bs, d')
    \<and> disable_outcome t cap ns disabled bs d'"
  using assms(2)
proof (induction ns arbitrary: changes disabled)
  case Nil
  then have "disable_outcome t cap [] disabled [] disabled" by (simp add: disable_outcome_def)
  then show ?case by (intro exI [of _ "[]"] exI [of _ disabled]) simp
next
  case (Cons n ns)
  note le = ratio_reliable [OF assms(1), unfolded not_le [symmetric], THEN arg_cong [where f = Not], unfolded not_not]
  consider (skip) "n \<in> set disabled \<or> (length disabled < cap \<and> (reliable t n \<or> \<not> key_known t n))"
    | (stop) "n \<notin> set disabled" "cap \<le> length disabled"
    | (add) "n \<notin> set disabled" "length disabled < cap" "\<not> reliable t n" "key_known t n"
    by linarith
  then show ?case
  proof cases
    case skip
    then have "disable_loop t cap s (n # ns) changes disabled = disable_loop t cap s ns changes disabled"
      by (auto simp: le key_known_def split: option.splits)
    with Cons.IH [OF Cons.prems, of changes] disable_outcome_skip skip show ?thesis by fastforce
  next
    case stop
    then have "disable_outcome t cap (n # ns) disabled [] disabled"
      using Cons.prems by (simp add: disable_outcome_def)
    with stop show ?thesis by (intro exI [of _ "[]"] exI [of _ disabled]) simp
  next
    case add
    then obtain key where "hm_get (node_to_key t) n = Some key" by (auto simp: key_known_def)
    with add have "disable_loop t cap s (n # ns) changes disabled
        = disable_loop t cap s ns (changes @ [unl_change t s True n]) (n # disabled)"
      by (simp add: le unl_change_def)
    moreover obtain bs d' where "disable_loop t cap s ns (changes @ [unl_change t s True n]) (n # disabled)
        = ((changes @ [unl_change t s True n]) @ map (unl_change t s True) bs, d')"
      "disable_outcome t cap ns (n # disabled) bs d'"
      using Cons.IH [of "n # disabled" "changes @ [unl_change t s True n]"] Cons.prems add(1) by auto
    ultimately show ?thesis
      using disable_outcome_add [OF _ add] by (intro exI [of _ "n # bs"] exI [of _ d']) simp
  qed
qed

lemma evaluate_outcome:
  assumes "ledgers_in_window t \<noteq> 0" and "distinct (currently_disabled t)"
    and "nunl_evaluate t ts s = (t', changes)"
  obtains kept bs where
    "kept = filter (\<lambda>n. \<not> (n \<in> set ts \<and> reliable t n \<and> key_known t n)) (currently_disabled t)"
    "t' = rotate_window (t\<lparr>currently_disabled := currently_disabled t'\<rparr>)"
    "disable_outcome t (length ts div 4) ts kept bs (currently_disabled t')"
    "changes = map (unl_change t s False)
        (filter (\<lambda>n. n \<in> set ts \<and> reliable t n \<and> key_known t n) (currently_disabled t))
      @ map (unl_change t s True) bs"
proof -
  let ?E = "\<lambda>n. n \<in> set ts \<and> reliable t n \<and> key_known t n"
  let ?kept = "filter (\<lambda>n. \<not> ?E n) (currently_disabled t)"
  let ?ch = "map (unl_change t s False) (filter ?E (currently_disabled t))"
  have one: "reenable_loop t ts s (currently_disabled t) [] (currently_disabled t) = (?ch, ?kept)"
    unfolding reenable_loop_eq [OF assms(1)] by (auto intro: filter_cong)
  obtain bs d' where two: "disable_loop t (length ts div 4) s ts ?ch ?kept
      = (?ch @ map (unl_change t s True) bs, d')" "disable_outcome t (length ts div 4) ts ?kept bs d'"
    using disable_loop_outcome [OF assms(1), of ?kept] assms(2) by (meson distinct_filter)
  have "nunl_evaluate t ts s
      = (rotate_window (t\<lparr>currently_disabled := d'\<rparr>), ?ch @ map (unl_change t s True) bs)"
    using assms(1)
    by (simp only: nunl_evaluate_def one two(1) max_negative_unl_size_eq Let_def prod.case if_False)
  with assms(3) two(2) show ?thesis by (intro that [of ?kept bs]) (auto simp: rotate_window_def)
qed

text \<open>One evaluation of the negative UNL. The validators it re-enables are exactly the disabled
  trusted ones that validated more than half of the window and whose key is registered. The ones
  it disables are trusted, registered, validated at most half, and were enabled; either every such
  validator is now disabled or the cap of a quarter of the trusted set is reached. It never raises
  the number of disabled validators above that cap, it emits one change per validator whose state
  changed, and it starts an empty window.\<close>

theorem evaluate_correct:
  assumes "ledgers_in_window t \<noteq> 0" and "distinct (currently_disabled t)"
    and "nunl_evaluate t ts s = (t', changes)"
  defines "D \<equiv> set (currently_disabled t)" and "D' \<equiv> set (currently_disabled t')"
  shows "D - D' = {n \<in> D. n \<in> set ts \<and> reliable t n \<and> key_known t n}
    \<and> D' - D \<subseteq> {n \<in> set ts. \<not> reliable t n \<and> key_known t n}
    \<and> ({n \<in> set ts. \<not> reliable t n \<and> key_known t n} \<subseteq> D' \<or> length ts div 4 \<le> card D')
    \<and> card D' \<le> max (card D) (length ts div 4)
    \<and> set changes = unl_change t s False ` (D - D') \<union> unl_change t s True ` (D' - D)
    \<and> ledgers_in_window t' = 0 \<and> current_window t' = [] \<and> previous_window t' = current_window t"
proof -
  let ?E = "\<lambda>n. n \<in> set ts \<and> reliable t n \<and> key_known t n"
  obtain kept bs where kept: "kept = filter (\<lambda>n. \<not> ?E n) (currently_disabled t)"
    and rot: "t' = rotate_window (t\<lparr>currently_disabled := currently_disabled t'\<rparr>)"
    and out: "disable_outcome t (length ts div 4) ts kept bs (currently_disabled t')"
    and ch: "changes = map (unl_change t s False) (filter ?E (currently_disabled t))
      @ map (unl_change t s True) bs"
    by (rule evaluate_outcome [OF assms(1-3)])
  have D': "D' = {n \<in> D. \<not> ?E n} \<union> set bs" and bs: "set bs \<inter> {n \<in> D. \<not> ?E n} = {}"
    "set bs \<subseteq> {n \<in> set ts. \<not> reliable t n \<and> key_known t n}"
    using out by (auto simp: disable_outcome_def D_def D'_def kept)
  have down: "D - D' = {n \<in> D. ?E n}" and up: "D' - D = set bs" using D' bs by auto
  have dist: "distinct (currently_disabled t')" using out by (simp add: disable_outcome_def)
  have card: "card D' = length (currently_disabled t')" "card D = length (currently_disabled t)"
    unfolding D'_def D_def by (rule distinct_card [OF dist], rule distinct_card [OF assms(2)])
  have "length kept \<le> length (currently_disabled t)" by (simp add: kept)
  with out have "card D' \<le> max (card D) (length ts div 4)" unfolding card disable_outcome_def by linarith
  moreover have "set changes = unl_change t s False ` (D - D') \<union> unl_change t s True ` (D' - D)"
    unfolding ch down up by (auto simp: D_def)
  moreover have "ledgers_in_window t' = 0" "current_window t' = []" "previous_window t' = current_window t"
    by (subst rot, simp add: rotate_window_def)+
  ultimately show ?thesis
    using out down up bs unfolding card by (auto simp: disable_outcome_def D'_def)
qed

lemma evaluate_disabled:
  assumes "distinct (currently_disabled t)"
  defines "D \<equiv> set (currently_disabled t)" and "D' \<equiv> \<lambda>ts s. set (currently_disabled (fst (nunl_evaluate t ts s)))"
  shows "distinct (currently_disabled (fst (nunl_evaluate t ts s))) \<and> D' ts s - D \<subseteq> set ts
    \<and> (D' ts s \<subseteq> D \<or> card (D' ts s) \<le> length ts div 4)"
proof (cases "ledgers_in_window t = 0")
  case True
  with assms(1) show ?thesis by (simp add: nunl_evaluate_def rotate_window_def D_def D'_def)
next
  case False
  obtain t' ch where ev: "nunl_evaluate t ts s = (t', ch)" by fastforce
  obtain kept bs where kept: "kept = filter (\<lambda>n. \<not> (n \<in> set ts \<and> reliable t n \<and> key_known t n)) (currently_disabled t)"
    and out: "disable_outcome t (length ts div 4) ts kept bs (currently_disabled t')"
    by (rule evaluate_outcome [OF False assms(1) ev])
  have "set kept \<subseteq> D" by (auto simp: kept D_def)
  moreover have "card (set (currently_disabled t')) = length (currently_disabled t')"
    by (rule distinct_card) (use out in \<open>simp add: disable_outcome_def\<close>)
  ultimately show ?thesis using out unfolding D'_def ev fst_conv disable_outcome_def by auto
qed

subsection \<open>Runs\<close>

text \<open>What a node can do to a tracker: every operation that changes it, and for an evaluation the
  trusted set of that moment, since a published list may replace it between two evaluations. The
  trusted set is a hash set, so the list that stands for it has no duplicates and any order.\<close>

datatype nunl_event = Register node_id string | LedgerClosed | Validated node_id
  | Evaluate "node_id list" nat | MarkDisabled node_id | MarkEnabled node_id

fun nunl_step :: "nunl_event \<Rightarrow> negative_unl_tracker \<Rightarrow> negative_unl_tracker" where
  "nunl_step (Register n key) t = register_validator t n key"
| "nunl_step LedgerClosed t = on_ledger_close t"
| "nunl_step (Validated n) t = nunl_record_validation t n"
| "nunl_step (Evaluate ts s) t = fst (nunl_evaluate t ts s)"
| "nunl_step (MarkDisabled n) t = mark_disabled t n"
| "nunl_step (MarkEnabled n) t = mark_enabled t n"

definition nunl_run :: "nunl_event list \<Rightarrow> negative_unl_tracker" where
  "nunl_run es = fold nunl_step es nunl_new"

text \<open>The events of a node whose trusted set stays \<open>ts\<close> and where only evaluations disable.\<close>

fun steady_event :: "node_id list \<Rightarrow> nunl_event \<Rightarrow> bool" where
  "steady_event ts (Evaluate ts' s) \<longleftrightarrow> distinct ts' \<and> set ts' = set ts"
| "steady_event ts (MarkDisabled n) \<longleftrightarrow> False"
| "steady_event ts e \<longleftrightarrow> True"

definition nunl_capped :: "node_id list \<Rightarrow> negative_unl_tracker \<Rightarrow> bool" where
  "nunl_capped ts t \<longleftrightarrow> set (currently_disabled t) \<subseteq> set ts
     \<and> card (set (currently_disabled t)) \<le> card (set ts) div 4"

lemmas tracker_ops = register_validator_def on_ledger_close_def nunl_record_validation_def
  mark_disabled_def mark_enabled_def

lemma nunl_step_distinct:
  "distinct (currently_disabled t) \<Longrightarrow> distinct (currently_disabled (nunl_step e t))"
  by (cases e) (simp_all add: evaluate_disabled, simp_all add: tracker_ops distinct_removeAll)

lemma nunl_run_distinct: "distinct (currently_disabled (nunl_run es))"
proof (induction es rule: rev_induct)
  case Nil
  show ?case by (simp add: nunl_run_def nunl_new_def)
next
  case (snoc e es)
  then show ?case using nunl_step_distinct by (simp add: nunl_run_def)
qed

lemma nunl_capped_evaluate:
  assumes "nunl_capped ts t" and "distinct (currently_disabled t)" and "distinct ts'" and "set ts' = set ts"
  shows "nunl_capped ts (fst (nunl_evaluate t ts' s))"
proof -
  let ?D = "set (currently_disabled t)" and ?D' = "set (currently_disabled (fst (nunl_evaluate t ts' s)))"
  have "?D' - ?D \<subseteq> set ts" "?D' \<subseteq> ?D \<or> card ?D' \<le> card (set ts) div 4"
    using evaluate_disabled [OF assms(2), of ts' s] distinct_card [OF assms(3)] assms(4) by auto
  moreover have "?D' \<subseteq> ?D \<Longrightarrow> card ?D' \<le> card ?D" by (simp add: card_mono)
  ultimately show ?thesis using assms(1) by (auto simp: nunl_capped_def)
qed

lemma nunl_capped_step:
  assumes "nunl_capped ts t" and "distinct (currently_disabled t)" and "steady_event ts e"
  shows "nunl_capped ts (nunl_step e t)"
proof (cases e)
  case (MarkEnabled n)
  have "card (set (currently_disabled t) - {n}) \<le> card (set (currently_disabled t))" by (simp add: card_mono)
  with assms(1) MarkEnabled show ?thesis by (auto simp: nunl_capped_def mark_enabled_def)
qed (use assms in \<open>simp_all add: nunl_capped_evaluate, simp_all add: nunl_capped_def tracker_ops\<close>)

lemma nunl_run_capped: "list_all (steady_event ts) es \<Longrightarrow> nunl_capped ts (nunl_run es)"
proof (induction es rule: rev_induct)
  case Nil
  show ?case by (simp add: nunl_run_def nunl_new_def nunl_capped_def)
next
  case (snoc e es)
  then show ?case using nunl_capped_step [OF _ nunl_run_distinct, of ts es e] by (simp add: nunl_run_def)
qed

lemma capped_effective_size:
  assumes "nunl_capped ts t" and "distinct ts" and "distinct (currently_disabled t)"
  shows "3 * card (set ts) \<le> 4 * effective_size ((unl_new ts)\<lparr>negative_unl := currently_disabled t\<rparr>)"
proof -
  have "effective_size ((unl_new ts)\<lparr>negative_unl := currently_disabled t\<rparr>) = card (set ts - set (currently_disabled t))"
    using assms(2,3) by (subst effective_size_card) (simp_all add: unl_wf_def unl_new_def effective_set_def)
  also have "\<dots> = card (set ts) - card (set (currently_disabled t))"
    using assms(1) by (simp add: card_Diff_subset nunl_capped_def)
  finally have "effective_size ((unl_new ts)\<lparr>negative_unl := currently_disabled t\<rparr>)
      = card (set ts) - card (set (currently_disabled t))" .
  moreover have "card (set (currently_disabled t)) \<le> card (set ts) div 4" using assms(1) by (simp add: nunl_capped_def)
  ultimately show ?thesis by linarith
qed

text \<open>C15: The cap of the negative UNL. After any run of the tracker, with marks from outside and trusted
  sets that change between evaluations, an evaluation disables only members of the trusted set
  \<open>ts\<close> it is given; if it disables anyone, then at most a quarter of \<open>ts\<close> is disabled
  afterwards, and otherwise it adds nobody. So the number of disabled validators never rises above
  a quarter of \<open>ts\<close> by an evaluation. If moreover every evaluation of the run was given that same
  trusted set and nobody was marked disabled from outside, then all the disabled validators are
  trusted, they are at most a quarter, and three quarters of the list keep counting toward the
  quorum. An evaluation does not bring the number down when the list shrank.\<close>

theorem evaluation_respects_quarter:
  assumes "distinct ts"
  defines "D \<equiv> \<lambda>es. set (currently_disabled (nunl_run es))"
  shows "D (es @ [Evaluate ts s]) - D es \<subseteq> set ts
    \<and> (D (es @ [Evaluate ts s]) \<subseteq> D es \<or> 4 * card (D (es @ [Evaluate ts s])) \<le> card (set ts))
    \<and> card (D (es @ [Evaluate ts s])) \<le> max (card (D es)) (card (set ts) div 4)
    \<and> (list_all (steady_event ts) es \<longrightarrow> D es \<subseteq> set ts \<and> 4 * card (D es) \<le> card (set ts)
         \<and> 3 * card (set ts) \<le> 4 * effective_size ((unl_new ts)\<lparr>negative_unl := currently_disabled (nunl_run es)\<rparr>))"
proof -
  let ?D' = "D (es @ [Evaluate ts s])"
  have run: "nunl_run (es @ [Evaluate ts s]) = fst (nunl_evaluate (nunl_run es) ts s)" by (simp add: nunl_run_def)
  have new: "?D' - D es \<subseteq> set ts" "?D' \<subseteq> D es \<or> card ?D' \<le> card (set ts) div 4"
    using evaluate_disabled [OF nunl_run_distinct, of es ts s] distinct_card [OF assms(1)] by (auto simp: D_def run)
  moreover have "?D' \<subseteq> D es \<Longrightarrow> card ?D' \<le> card (D es)" by (simp add: D_def card_mono)
  moreover have "D es \<subseteq> set ts \<and> 4 * card (D es) \<le> card (set ts)" if "list_all (steady_event ts) es"
    using nunl_run_capped [OF that] by (auto simp: nunl_capped_def D_def)
  ultimately show ?thesis
    using capped_effective_size [OF nunl_run_capped assms(1) nunl_run_distinct] by auto
qed

definition example_nunl_events :: "nunl_event list" where
  "example_nunl_events = [Register (NodeId 1) ''ED01'', Register (NodeId 2) ''ED02'',
     Register (NodeId 3) ''ED03'', Register (NodeId 4) ''ED04'', LedgerClosed, LedgerClosed,
     Validated (NodeId 3), Validated (NodeId 3), Validated (NodeId 4), Validated (NodeId 4)]"

definition example_nunl :: negative_unl_tracker where
  "example_nunl = nunl_run example_nunl_events"

lemma example_nunl_eq:
  "example_nunl = \<lparr>ledgers_in_window = 2,
     current_window = [(NodeId 3, \<lparr>validations_received = 2\<rparr>), (NodeId 4, \<lparr>validations_received = 2\<rparr>)],
     previous_window = [],
     node_to_key = [(NodeId 1, ''ED01''), (NodeId 2, ''ED02''), (NodeId 3, ''ED03''), (NodeId 4, ''ED04'')],
     currently_disabled = []\<rparr>"
  by (simp add: example_nunl_def example_nunl_events_def nunl_run_def nunl_new_def register_validator_def
      on_ledger_close_def nunl_record_validation_def nunl_received_def wrap32_def)

theorem evaluate_correct_witness:
  "case nunl_evaluate example_nunl [NodeId 1, NodeId 2, NodeId 3, NodeId 4] 256 of (t', changes) \<Rightarrow>
     currently_disabled t' = [NodeId 1] \<and> card (set (currently_disabled t')) \<le> 1
     \<and> changes = [\<lparr>validator_key = ''ED01'', disable = True, change_ledger_seq = 256\<rparr>]"
proof -
  let ?ts = "[NodeId 1, NodeId 2, NodeId 3, NodeId 4]"
  obtain t' changes where ev: "nunl_evaluate example_nunl ?ts 256 = (t', changes)" by fastforce
  have "currently_disabled t' = [NodeId 1]
      \<and> changes = [\<lparr>validator_key = ''ED01'', disable = True, change_ledger_seq = 256\<rparr>]"
    using ev by (simp add: nunl_evaluate_def example_nunl_eq max_negative_unl_size_eq validation_ratio_def
        nunl_received_def RELIABILITY_THRESHOLD_def rotate_window_def) auto
  moreover have "card (set (currently_disabled t')) \<le> 1"
    using evaluate_correct [OF _ _ ev] by (simp add: example_nunl_eq)
  ultimately show ?thesis by (simp add: ev)
qed

text \<open>Four validators, two of them silent: the evaluation disables one of the two, and stops at the
  cap. When the list then shrinks to two, the next evaluation leaves that one disabled, half of the
  list.\<close>

theorem evaluation_respects_quarter_witness:
  "(let ts = [NodeId 1, NodeId 2, NodeId 3, NodeId 4]; es = example_nunl_events @ [Evaluate ts 256];
        D = set (currently_disabled (nunl_run es));
        D' = set (currently_disabled (nunl_run (es @ [LedgerClosed] @ [Evaluate [NodeId 1, NodeId 3] 512])))
    in D = {NodeId 1} \<and> 4 * card D \<le> card (set ts) \<and> D' = {NodeId 1} \<and> D' \<subseteq> D)"
proof -
  let ?ts = "[NodeId 1, NodeId 2, NodeId 3, NodeId 4]"
  let ?es = "example_nunl_events @ [Evaluate ?ts 256]"
  let ?D = "\<lambda>es. set (currently_disabled (nunl_run es))"
  have one: "nunl_run ?es = fst (nunl_evaluate example_nunl ?ts 256)"
    by (simp add: example_nunl_def nunl_run_def)
  have D: "?D ?es = {NodeId 1}"
    unfolding one by (simp add: nunl_evaluate_def example_nunl_eq max_negative_unl_size_eq validation_ratio_def
        nunl_received_def RELIABILITY_THRESHOLD_def rotate_window_def)
  have two: "nunl_run (?es @ [LedgerClosed]) = on_ledger_close (fst (nunl_evaluate example_nunl ?ts 256))"
    by (simp add: example_nunl_def nunl_run_def)
  have D1: "?D (?es @ [LedgerClosed]) = {NodeId 1}"
    using D unfolding one two by (simp add: on_ledger_close_def)
  have "?D ((?es @ [LedgerClosed]) @ [Evaluate [NodeId 1, NodeId 3] 512])
      = set (currently_disabled (fst (nunl_evaluate (nunl_run (?es @ [LedgerClosed])) [NodeId 1, NodeId 3] 512)))"
    by (simp add: nunl_run_def)
  also have "\<dots> = {NodeId 1}"
    unfolding two by (simp add: nunl_evaluate_def example_nunl_eq max_negative_unl_size_eq validation_ratio_def
        nunl_received_def RELIABILITY_THRESHOLD_def rotate_window_def on_ledger_close_def wrap32_def)
  finally have D2: "?D ((?es @ [LedgerClosed]) @ [Evaluate [NodeId 1, NodeId 3] 512]) = {NodeId 1}" .
  have "?D ((?es @ [LedgerClosed]) @ [Evaluate [NodeId 1, NodeId 3] 512]) \<subseteq> ?D (?es @ [LedgerClosed])"
    using evaluation_respects_quarter [of "[NodeId 1, NodeId 3]" "?es @ [LedgerClosed]" 512] D2 by simp
  moreover have "list_all (steady_event ?ts) ?es" by (simp add: example_nunl_events_def)
  ultimately show ?thesis
    using evaluation_respects_quarter [of ?ts ?es 512] D D1 D2 by (simp add: Let_def)
qed

end
