(* ===== verification/Ledger_Trie.thy ===== *)
theory Ledger_Trie
  imports Prelude "HOL-Library.Sublist"
begin

text \<open>
  The ancestry trie of \<^verbatim>\<open>crates/consensus/src/ledger_trie.rs\<close>. A trie is related to the
  multiset of branches (paths of ledger hashes from an anchor to a tip) that were credited and
  not yet taken back; \<open>insert\<close> and \<open>remove\<close> refine adding to and taking from that multiset, and
  \<open>get_preferred\<close> is shown to be the greedy heaviest-branch walk over it, whatever order the hash
  maps of children iterate in. The locale \<open>branch_votes\<close> is what the validation aggregator
  relies on.
\<close>

subsection \<open>The trie\<close>

datatype node = Node (node_hash: hash256) (node_tip: nat) (node_branch: nat)
  (node_children: "(hash256, node) hmap")

definition node_new :: "hash256 \<Rightarrow> node" where
  "node_new h = Node h 0 0 []"

record ledger_trie =
  trie_root :: node

definition trie_new :: ledger_trie where
  "trie_new = \<lparr>trie_root = node_new 0\<rparr>"

text \<open>The walks return \<^const>\<open>None\<close> where the source panics (\<open>expect\<close>).\<close>

fun insert_walk :: "node \<Rightarrow> hash256 list \<Rightarrow> nat \<Rightarrow> node option" where
  "insert_walk n [] cnt = None"
| "insert_walk n (head # rest) cnt =
     (let child = (case hm_get (node_children n) head of Some c \<Rightarrow> c | None \<Rightarrow> node_new head);
          child' = (if rest = []
            then Some (Node (node_hash child) (wrap32 (node_tip child + cnt))
                        (wrap32 (node_branch child + cnt)) (node_children child))
            else insert_walk child rest cnt) in
      case child' of None \<Rightarrow> None
      | Some c \<Rightarrow> Some (Node (node_hash n) (node_tip n) (wrap32 (node_branch n + cnt))
                    (hm_insert head c (node_children n))))"

definition trie_insert :: "ledger_trie \<Rightarrow> hash256 list \<Rightarrow> nat \<Rightarrow> ledger_trie option" where
  "trie_insert t branch cnt =
     (if branch = [] \<or> cnt = 0 then Some t
      else map_option (\<lambda>r. t\<lparr>trie_root := r\<rparr>) (insert_walk (trie_root t) branch cnt))"

fun peek_tip_support :: "node \<Rightarrow> hash256 list \<Rightarrow> nat option" where
  "peek_tip_support n [] = None"
| "peek_tip_support n (head # rest) =
     (case hm_get (node_children n) head of None \<Rightarrow> None
      | Some child \<Rightarrow> if rest = [] then Some (node_tip child) else peek_tip_support child rest)"

fun remove_walk :: "node \<Rightarrow> hash256 list \<Rightarrow> nat \<Rightarrow> node option" where
  "remove_walk n [] cnt = None"
| "remove_walk n (head # rest) cnt =
     (case hm_get (node_children n) head of None \<Rightarrow> None
      | Some child \<Rightarrow>
          (let child' = (if rest = []
             then Some (Node (node_hash child) (node_tip child - cnt) (node_branch child - cnt)
                         (node_children child))
             else remove_walk child rest cnt) in
           case child' of None \<Rightarrow> None
           | Some c \<Rightarrow> Some (Node (node_hash n) (node_tip n) (node_branch n - cnt)
               (if node_branch c = 0 then hm_remove head (node_children n)
                else hm_insert head c (node_children n)))))"

definition trie_remove :: "ledger_trie \<Rightarrow> hash256 list \<Rightarrow> nat \<Rightarrow> (ledger_trie \<times> bool) option" where
  "trie_remove t branch cnt =
     (if branch = [] \<or> cnt = 0 then Some (t, False)
      else (case peek_tip_support (trie_root t) branch of
          Some tip \<Rightarrow>
            if 0 < tip
            then map_option (\<lambda>r. (t\<lparr>trie_root := r\<rparr>, True)) (remove_walk (trie_root t) branch (min cnt tip))
            else Some (t, False)
        | None \<Rightarrow> Some (t, False)))"

lemma child_size [termination_simp]:
  "p \<in> set cs \<Longrightarrow> size (snd p) < Suc (size_list (size_prod (\<lambda>_. 0) size) cs)"
  by (induction cs) (auto simp: prod.size_gen)

text \<open>The depth-first search of \<open>find_node\<close>, over the children in iteration order.\<close>

fun find_node :: "node \<Rightarrow> hash256 \<Rightarrow> node option" and
    find_among :: "(hash256, node) hmap \<Rightarrow> hash256 \<Rightarrow> node option" where
  "find_node (Node _ _ _ cs) h = find_among cs h"
| "find_among [] h = None"
| "find_among ((k, child) # cs) h =
     (if node_hash child = h then Some child
      else (case find_node child h of Some found \<Rightarrow> Some found | None \<Rightarrow> find_among cs h))"

definition tip_support :: "ledger_trie \<Rightarrow> hash256 \<Rightarrow> nat" where
  "tip_support t h = (case find_node (trie_root t) h of Some n \<Rightarrow> node_tip n | None \<Rightarrow> 0)"

definition branch_support :: "ledger_trie \<Rightarrow> hash256 \<Rightarrow> nat" where
  "branch_support t h = (case find_node (trie_root t) h of Some n \<Rightarrow> node_branch n | None \<Rightarrow> 0)"

definition trie_is_empty :: "ledger_trie \<Rightarrow> bool" where
  "trie_is_empty t = (node_branch (trie_root t) = 0)"

definition better_child :: "node \<Rightarrow> node option \<Rightarrow> node option" where
  "better_child child best = Some (case best of None \<Rightarrow> child
     | Some b \<Rightarrow> if node_branch child > node_branch b
                 \<or> (node_branch child = node_branch b \<and> node_hash child > node_hash b)
               then child else b)"

definition best_child :: "node list \<Rightarrow> node option" where
  "best_child cs = fold better_child cs None"

lemma best_child_in: "best_child cs = Some b \<Longrightarrow> b \<in> set cs"
proof -
  have "fold better_child cs acc = Some b \<Longrightarrow> b \<in> set cs \<or> acc = Some b" for acc
    by (induction cs arbitrary: acc) (auto simp: better_child_def split: option.splits if_splits)
  then show "best_child cs = Some b \<Longrightarrow> b \<in> set cs" by (auto simp: best_child_def)
qed

function preferred_loop :: "node \<Rightarrow> hash256 option \<Rightarrow> hash256 option" where
  "preferred_loop cur preferred =
     (case best_child (hm_values (node_children cur)) of None \<Rightarrow> preferred
      | Some best \<Rightarrow>
          if node_branch best \<le> node_tip cur then preferred
          else preferred_loop best (Some (node_hash best)))"
  by pat_completeness auto
termination
proof (relation "measure (\<lambda>(n, _). size n)")
  fix cur best :: node and preferred :: "hash256 option"
  assume "best_child (hm_values (node_children cur)) = Some best"
  from best_child_in [OF this] obtain p where "p \<in> set (node_children cur)" "snd p = best" by auto
  from child_size [OF this(1)] this(2)
  show "((best, Some (node_hash best)), (cur, preferred)) \<in> measure (\<lambda>(n, _). size n)"
    by (cases cur) simp
qed simp

declare preferred_loop.simps [simp del]

definition trie_get_preferred :: "ledger_trie \<Rightarrow> hash256 option" where
  "trie_get_preferred t = (if trie_is_empty t then None else preferred_loop (trie_root t) None)"

subsection \<open>The branches a trie stands for\<close>

text \<open>The branches that continue with \<open>k\<close>, with that first hash taken off.\<close>

definition residual :: "hash256 list multiset \<Rightarrow> hash256 \<Rightarrow> hash256 list multiset" where
  "residual M k = image_mset tl (filter_mset (\<lambda>b. b \<noteq> [] \<and> hd b = k) M)"

lemma residual_empty [simp]: "residual {#} k = {#}"
  by (simp add: residual_def)

lemma residual_add [simp]: "residual (M + N) k = residual M k + residual N k"
  by (simp add: residual_def)

lemma residual_repl_Nil [simp]: "residual (replicate_mset n []) k = {#}"
  by (simp add: residual_def filter_mset_eq_conv)

lemma residual_repl_Cons [simp]:
  "residual (replicate_mset n (h # b)) k = (if k = h then replicate_mset n b else {#})"
  by (induction n) (auto simp: residual_def)

lemma residual_diff_repl:
  "residual (M - replicate_mset n (h # b)) k = (if k = h then residual M k - replicate_mset n b else residual M k)"
proof (induction n arbitrary: M)
  case (Suc n)
  have "residual (M - {#h # b#}) k = (if k = h then residual M k - {#b#} else residual M k)"
  proof (cases "h # b \<in># M")
    case True
    then obtain N where "M = add_mset (h # b) N" by (meson multi_member_split)
    then show ?thesis by (simp add: residual_def)
  next
    case False
    then have "b \<notin># residual M h" by (auto simp: residual_def)
    with False show ?thesis by (simp add: diff_single_trivial)
  qed
  then show ?case using Suc.IH [of "M - {#h # b#}"] by (cases "k = h") simp_all
qed simp

lemma count_residual: "count (residual M k) b = count M (k # b)"
proof (induction M)
  case (add x M)
  then show ?case by (cases x) (auto simp: residual_def)
qed simp

lemma size_residual_le: "size (residual M k) \<le> size M"
  by (simp add: residual_def size_filter_mset_lesseq)

fun represents :: "node \<Rightarrow> hash256 list multiset \<Rightarrow> bool" where
  "represents (Node h tip branch cs) M \<longleftrightarrow>
     tip = count M [] \<and> branch = size M \<and> hm_wf cs
     \<and> (\<forall>p\<in>set cs. node_hash (snd p) = fst p \<and> residual M (fst p) \<noteq> {#}
          \<and> represents (snd p) (residual M (fst p)))
     \<and> (\<forall>k. k \<notin> set (hm_keys cs) \<longrightarrow> residual M k = {#})"

lemma represents_iff:
  "represents n M \<longleftrightarrow> node_tip n = count M [] \<and> node_branch n = size M \<and> hm_wf (node_children n)
     \<and> (\<forall>k. case hm_get (node_children n) k of
           None \<Rightarrow> residual M k = {#}
         | Some c \<Rightarrow> node_hash c = k \<and> residual M k \<noteq> {#} \<and> represents c (residual M k))"
proof (cases n)
  case (Node h tip branch cs)
  show ?thesis
    unfolding Node represents.simps node.sel
    using hm_all_iff [of cs "\<lambda>k c. node_hash c = k \<and> residual M k \<noteq> {#} \<and> represents c (residual M k)"
        "\<lambda>k. residual M k = {#}"] by blast
qed

declare represents.simps [simp del]

lemma represents_new: "represents (node_new h) {#}"
  by (simp add: node_new_def represents.simps)

lemma represents_total: "represents n M \<Longrightarrow> node_branch n = size M"
  by (simp add: represents_iff)

lemma represents_child:
  assumes "represents n M"
  shows "represents (case hm_get (node_children n) k of Some c \<Rightarrow> c | None \<Rightarrow> node_new k) (residual M k)"
    and "node_hash (case hm_get (node_children n) k of Some c \<Rightarrow> c | None \<Rightarrow> node_new k) = k"
  using assms represents_new [of k]
  by (auto simp: represents_iff [of n] node_new_def split: option.splits dest: spec [of _ k])

text \<open>Replacing one child: the shape both walks rebuild a node in.\<close>

lemma represents_update:
  assumes n: "represents n M"
    and c: "residual M' k = {#} \<or> (represents c (residual M' k) \<and> node_hash c = k)"
    and same: "\<And>j. j \<noteq> k \<Longrightarrow> residual M' j = residual M j" and tip: "count M' [] = count M []"
    and cs: "cs = (if residual M' k = {#} then hm_remove k (node_children n) else hm_insert k c (node_children n))"
  shows "represents (Node (node_hash n) (node_tip n) (size M') cs) M'"
proof -
  have wf: "hm_wf (node_children n)" and tips: "node_tip n = count M []"
    and old: "\<And>j. case hm_get (node_children n) j of None \<Rightarrow> residual M j = {#}
         | Some c \<Rightarrow> node_hash c = j \<and> residual M j \<noteq> {#} \<and> represents c (residual M j)"
    using n by (simp_all add: represents_iff [of n])
  have "case hm_get cs j of None \<Rightarrow> residual M' j = {#}
      | Some c \<Rightarrow> node_hash c = j \<and> residual M' j \<noteq> {#} \<and> represents c (residual M' j)" for j
  proof (cases "j = k")
    case True
    then show ?thesis using c by (auto simp: cs hm_simps)
  next
    case False
    then have "hm_get cs j = hm_get (node_children n) j" by (simp add: cs hm_simps)
    then show ?thesis using old [of j] same [OF False] by (simp split: option.splits)
  qed
  moreover have "hm_wf cs" using wf by (simp add: cs hm_simps)
  ultimately show ?thesis using tips tip by (simp add: represents_iff [of "Node _ _ _ _"])
qed

lemma represents_same_children:
  assumes "represents c R" and "residual R' = residual R" and "t = count R' []" and "b = size R'"
  shows "represents (Node h t b (node_children c)) R'"
  using assms(1) unfolding represents_iff [of c] represents_iff [of "Node _ _ _ _"] assms(2-4) node.sel by blast

lemma represents_bump:
  assumes "represents c R" and "size R + k \<le> u32_max"
  shows "represents (Node (node_hash c) (wrap32 (node_tip c + k)) (wrap32 (node_branch c + k)) (node_children c))
    (R + replicate_mset k [])"
proof (rule represents_same_children [OF assms(1)])
  have "count R [] \<le> size R" by (rule count_le_size)
  then show "wrap32 (node_tip c + k) = count (R + replicate_mset k []) []"
    "wrap32 (node_branch c + k) = size (R + replicate_mset k [])"
    using assms by (simp_all add: represents_iff [of c] u32_simps)
qed (simp add: fun_eq_iff)

lemma represents_drop:
  assumes "represents c R" and "k \<le> count R []"
  shows "represents (Node (node_hash c) (node_tip c - k) (node_branch c - k) (node_children c))
    (R - replicate_mset k [])"
proof (rule represents_same_children [OF assms(1)])
  have sub: "replicate_mset k [] \<subseteq># R" using assms(2) by (simp add: count_le_replicate_mset_subset_eq)
  then have "R = (R - replicate_mset k []) + replicate_mset k []" by simp
  then have "residual R = residual ((R - replicate_mset k []) + replicate_mset k [])" by (rule arg_cong)
  then show "residual (R - replicate_mset k []) = residual R" by (simp add: fun_eq_iff)
  show "node_tip c - k = count (R - replicate_mset k []) []" "node_branch c - k = size (R - replicate_mset k [])"
    using assms sub by (simp_all add: represents_iff [of c] size_Diff_submset)
qed

lemma insert_walk_represents:
  assumes "represents n M" and "b \<noteq> []" and "0 < c" and "size M + c \<le> u32_max"
  shows "\<exists>n'. insert_walk n b c = Some n' \<and> node_hash n' = node_hash n
    \<and> represents n' (M + replicate_mset c b)"
  using assms
proof (induction b arbitrary: n M)
  case (Cons h rest)
  let ?child = "case hm_get (node_children n) h of Some c \<Rightarrow> c | None \<Rightarrow> node_new h"
  let ?M = "M + replicate_mset c (h # rest)"
  note child = represents_child [OF Cons.prems(1), of h]
  have res: "residual ?M h = residual M h + replicate_mset c rest" by simp
  have room: "size (residual M h) + c \<le> u32_max"
    using size_residual_le [of M h] Cons.prems(4) by linarith
  have step: "\<exists>c'. (if rest = [] then Some (Node (node_hash ?child) (wrap32 (node_tip ?child + c))
        (wrap32 (node_branch ?child + c)) (node_children ?child)) else insert_walk ?child rest c) = Some c'
      \<and> node_hash c' = h \<and> represents c' (residual ?M h)"
    using Cons.IH [OF child(1) _ Cons.prems(3) room] represents_bump [OF child(1) room] child(2)
    unfolding res by (cases "rest = []") simp_all
  then obtain c' where c': "(if rest = [] then Some (Node (node_hash ?child) (wrap32 (node_tip ?child + c))
        (wrap32 (node_branch ?child + c)) (node_children ?child)) else insert_walk ?child rest c) = Some c'"
    "node_hash c' = h" "represents c' (residual ?M h)" by blast
  have "node_branch n = size M" by (rule represents_total [OF Cons.prems(1)])
  then have walk: "insert_walk n (h # rest) c =
      Some (Node (node_hash n) (node_tip n) (size ?M) (hm_insert h c' (node_children n)))"
    using c'(1) Cons.prems(4) by (simp add: Let_def u32_simps split del: if_split)
  have "residual ?M h \<noteq> {#}" using Cons.prems(3) by auto
  then have "represents (Node (node_hash n) (node_tip n) (size ?M) (hm_insert h c' (node_children n))) ?M"
    using c'(2,3) by (intro represents_update [OF Cons.prems(1), where k = h and c = c']) auto
  with walk show ?case by simp
qed simp

lemma peek_represents:
  assumes "represents n M" and "b \<noteq> []"
  shows "(case peek_tip_support n b of Some t \<Rightarrow> t | None \<Rightarrow> 0) = count M b"
  using assms
proof (induction b arbitrary: n M)
  case (Cons h rest)
  show ?case
  proof (cases "hm_get (node_children n) h")
    case None
    with Cons.prems(1) have "residual M h = {#}" by (auto simp: represents_iff [of n] dest: spec [of _ h])
    then have "count M (h # rest) = 0" by (simp add: count_residual [symmetric])
    with None show ?thesis by simp
  next
    case (Some c)
    with Cons.prems(1) have c: "represents c (residual M h)"
      by (auto simp: represents_iff [of n] dest: spec [of _ h])
    show ?thesis
    proof (cases "rest = []")
      case True
      with Some c show ?thesis by (simp add: represents_iff [of c] count_residual)
    next
      case False
      with Some Cons.IH [OF c] show ?thesis by (simp add: count_residual)
    qed
  qed
qed simp

lemma remove_walk_represents:
  assumes "represents n M" and "b \<noteq> []" and "0 < c" and "c \<le> count M b"
  shows "\<exists>n'. remove_walk n b c = Some n' \<and> node_hash n' = node_hash n
    \<and> represents n' (M - replicate_mset c b)"
  using assms
proof (induction b arbitrary: n M)
  case (Cons h rest)
  let ?M = "M - replicate_mset c (h # rest)"
  have cnt: "c \<le> count (residual M h) rest" using Cons.prems(4) by (simp add: count_residual)
  then have "residual M h \<noteq> {#}" using Cons.prems(3) by auto
  then obtain child where get: "hm_get (node_children n) h = Some child"
    and child: "represents child (residual M h)" "node_hash child = h"
    using Cons.prems(1) by (auto simp: represents_iff [of n] split: option.splits dest!: spec [of _ h])
  have res: "residual ?M h = residual M h - replicate_mset c rest" by (simp add: residual_diff_repl)
  have "\<exists>c'. (if rest = [] then Some (Node (node_hash child) (node_tip child - c) (node_branch child - c)
        (node_children child)) else remove_walk child rest c) = Some c'
      \<and> node_hash c' = h \<and> represents c' (residual ?M h)"
    using Cons.IH [OF child(1) _ Cons.prems(3)] represents_drop [OF child(1)] cnt child(2)
    unfolding res by (cases "rest = []") simp_all
  then obtain c' where c': "(if rest = [] then Some (Node (node_hash child) (node_tip child - c)
        (node_branch child - c) (node_children child)) else remove_walk child rest c) = Some c'"
    "node_hash c' = h" "represents c' (residual ?M h)" by blast
  let ?cs = "if residual ?M h = {#} then hm_remove h (node_children n) else hm_insert h c' (node_children n)"
  have "replicate_mset c (h # rest) \<subseteq># M"
    using Cons.prems(4) by (simp add: count_le_replicate_mset_subset_eq)
  then have size: "size ?M = node_branch n - c"
    using represents_total [OF Cons.prems(1)] by (simp add: size_Diff_submset)
  have "node_branch c' = 0 \<longleftrightarrow> residual ?M h = {#}" using represents_total [OF c'(3)] by simp
  then have walk: "remove_walk n (h # rest) c = Some (Node (node_hash n) (node_tip n) (size ?M) ?cs)"
    using get c'(1) by (simp add: Let_def size split del: if_split)
  have "represents (Node (node_hash n) (node_tip n) (size ?M) ?cs) ?M"
    using c'(2,3) by (intro represents_update [OF Cons.prems(1), where k = h and c = c'])
      (auto simp: residual_diff_repl)
  with walk show ?case by simp
qed simp

subsection \<open>The preferred branch\<close>

text \<open>The specification of the walk over a multiset of branches: follow the heaviest continuation,
  the higher hash on ties, while it is strictly heavier than the votes that end here.\<close>

inductive preferred_tip :: "hash256 list multiset \<Rightarrow> hash256 list \<Rightarrow> bool" where
  stop: "(\<And>k. size (residual M k) \<le> count M []) \<Longrightarrow> preferred_tip M []"
| down: "count M [] < size (residual M k) \<Longrightarrow>
    (\<And>j. j \<noteq> k \<Longrightarrow> size (residual M j) < size (residual M k)
          \<or> size (residual M j) = size (residual M k) \<and> j < k) \<Longrightarrow>
    preferred_tip (residual M k) p \<Longrightarrow> preferred_tip M (k # p)"

inductive_cases preferred_stopE: "preferred_tip M []"
inductive_cases preferred_downE: "preferred_tip M (k # p)"

lemma preferred_tip_unique: "preferred_tip M p \<Longrightarrow> preferred_tip M q \<Longrightarrow> p = q"
proof (induction arbitrary: q rule: preferred_tip.induct)
  case (stop M)
  show ?case
  proof (cases q)
    case (Cons k q')
    with stop.prems have "count M [] < size (residual M k)" by (auto elim: preferred_downE)
    then show ?thesis using stop.hyps [of k] by simp
  qed simp
next
  case (down M k p)
  show ?case
  proof (cases q)
    case Nil
    with down.prems have "size (residual M k) \<le> count M []" by (auto elim: preferred_stopE)
    then show ?thesis using down.hyps(1) by simp
  next
    case (Cons j q')
    with down.prems have j: "preferred_tip (residual M j) q'"
      and max: "k \<noteq> j \<longrightarrow> size (residual M k) < size (residual M j) \<or> size (residual M k) = size (residual M j) \<and> k < j"
      by (auto elim: preferred_downE)
    have "j = k" using max down.hyps(2) [of j] by fastforce
    with j Cons down.IH show ?thesis by simp
  qed
qed

definition lighter :: "node \<Rightarrow> node \<Rightarrow> bool" where
  "lighter c b \<longleftrightarrow> node_branch c < node_branch b \<or> node_branch c = node_branch b \<and> node_hash c \<le> node_hash b"

lemma lighter_trans: "lighter a b \<Longrightarrow> lighter b c \<Longrightarrow> lighter a c"
  by (auto simp: lighter_def)

lemma better_child_Some:
  obtains e' where "better_child a (Some e) = Some e'" and "lighter a e'" and "lighter e e'"
proof (cases "node_branch a > node_branch e \<or> (node_branch a = node_branch e \<and> node_hash a > node_hash e)")
  case True
  then show ?thesis using that [of a] by (auto simp: better_child_def lighter_def)
next
  case False
  then have "better_child a (Some e) = Some e" "lighter a e" by (auto simp: better_child_def lighter_def)
  then show ?thesis by (rule that) (simp add: lighter_def)
qed

lemma fold_better_child:
  "fold better_child cs (Some e) = Some b \<Longrightarrow> lighter e b \<and> (\<forall>c\<in>set cs. lighter c b)"
proof (induction cs arbitrary: e)
  case (Cons a cs)
  obtain e' where e': "better_child a (Some e) = Some e'" "lighter a e'" "lighter e e'"
    by (rule better_child_Some)
  with Cons.IH [of e'] Cons.prems show ?case using lighter_trans by fastforce
qed (simp add: lighter_def)

lemma best_child_max: "best_child cs = Some b \<Longrightarrow> c \<in> set cs \<Longrightarrow> lighter c b"
  using fold_better_child by (cases cs) (auto simp: best_child_def better_child_def)

lemma best_child_None: "best_child cs = None \<longleftrightarrow> cs = []"
proof -
  have "fold better_child cs (Some a) \<noteq> None" for a and cs
    by (induction cs arbitrary: a) (simp_all add: better_child_def)
  then show ?thesis by (cases cs) (simp_all add: best_child_def better_child_def)
qed

lemma represents_children:
  assumes "represents n M"
  shows "c \<in> set (hm_values (node_children n)) \<longleftrightarrow>
      hm_get (node_children n) (node_hash c) = Some c"
    and "hm_get (node_children n) k = Some c \<Longrightarrow>
      node_hash c = k \<and> represents c (residual M k) \<and> node_branch c = size (residual M k)"
    and "hm_get (node_children n) k = None \<Longrightarrow> residual M k = {#}"
proof -
  have wf: "hm_wf (node_children n)" using assms by (simp add: represents_iff)
  have all: "case hm_get (node_children n) k of None \<Rightarrow> residual M k = {#}
         | Some c \<Rightarrow> node_hash c = k \<and> residual M k \<noteq> {#} \<and> represents c (residual M k)" for k
    using assms by (simp add: represents_iff [of n])
  show "hm_get (node_children n) k = Some c \<Longrightarrow>
      node_hash c = k \<and> represents c (residual M k) \<and> node_branch c = size (residual M k)"
    using all [of k] represents_total by simp
  show "hm_get (node_children n) k = None \<Longrightarrow> residual M k = {#}" using all [of k] by simp
  show "c \<in> set (hm_values (node_children n)) \<longleftrightarrow> hm_get (node_children n) (node_hash c) = Some c"
  proof
    assume "c \<in> set (hm_values (node_children n))"
    then obtain k where "hm_get (node_children n) k = Some c" using hm_get_of_in [OF wf] by fastforce
    then show "hm_get (node_children n) (node_hash c) = Some c" using all [of k] by simp
  qed (force dest: hm_get_in)
qed

lemma preferred_loop_spec:
  "represents n M \<Longrightarrow> \<exists>p. preferred_tip M p \<and> preferred_loop n acc = (if p = [] then acc else Some (last p))"
proof (induction n acc arbitrary: M rule: preferred_loop.induct)
  case (1 n acc)
  note kids = represents_children [OF 1(2)]
  have tip: "node_tip n = count M []" using 1(2) by (simp add: represents_iff)
  show ?case
  proof (cases "best_child (hm_values (node_children n))")
    case None
    then have "residual M k = {#}" for k using kids(3) [of k] by (simp add: best_child_None)
    then have "preferred_tip M []" by (intro stop) simp
    with None show ?thesis by (auto simp: preferred_loop.simps [of n])
  next
    case (Some b)
    let ?k = "node_hash b"
    have b: "represents b (residual M ?k)" "node_branch b = size (residual M ?k)"
      using kids(1) best_child_in [OF Some] kids(2) by blast+
    have dom: "size (residual M j) < size (residual M ?k) \<or> size (residual M j) = size (residual M ?k) \<and> j \<le> ?k"
      if ne: "residual M j \<noteq> {#}" for j
    proof -
      obtain c where c: "hm_get (node_children n) j = Some c"
        using ne kids(3) [of j] by (cases "hm_get (node_children n) j") auto
      then have "c \<in> set (hm_values (node_children n))" by (force dest: hm_get_in)
      from best_child_max [OF Some this] kids(2) [OF c] b(2) show ?thesis by (simp add: lighter_def)
    qed
    have le: "size (residual M j) \<le> node_branch b" for j
      using dom [of j] b(2) by (cases "residual M j = {#}") auto
    show ?thesis
    proof (cases "node_branch b \<le> node_tip n")
      case True
      then have "size (residual M j) \<le> count M []" for j using le [of j] tip by simp
      then have "preferred_tip M []" by (rule stop)
      with Some True show ?thesis by (auto simp: preferred_loop.simps [of n])
    next
      case False
      obtain p where p: "preferred_tip (residual M ?k) p"
        "preferred_loop b (Some ?k) = (if p = [] then Some ?k else Some (last p))"
        using 1(1) [OF Some False b(1)] by blast
      have "preferred_tip M (?k # p)"
      proof (rule down [OF _ _ p(1)])
        show "count M [] < size (residual M ?k)" using False tip b(2) by simp
        then show "size (residual M j) < size (residual M ?k) \<or> size (residual M j) = size (residual M ?k) \<and> j < ?k"
          if "j \<noteq> ?k" for j
          using dom [of j] that by (cases "residual M j = {#}") auto
      qed
      moreover have "preferred_loop n acc = Some (last (?k # p))"
        using Some False p(2) by (simp add: preferred_loop.simps [of n])
      ultimately show ?thesis by (intro exI [of _ "?k # p"]) simp
    qed
  qed
qed

text \<open>The branches of a whole trie: the sentinel root takes no votes of its own.\<close>

definition trie_rep :: "ledger_trie \<Rightarrow> hash256 list multiset \<Rightarrow> bool" where
  "trie_rep t M \<longleftrightarrow> represents (trie_root t) M \<and> [] \<notin># M"

lemma trie_rep_new: "trie_rep trie_new {#}"
  by (simp add: trie_rep_def trie_new_def represents_new)

lemma trie_insert_rep:
  assumes "trie_rep t M" and "b \<noteq> []" and "size M + c \<le> u32_max"
  shows "\<exists>t'. trie_insert t b c = Some t' \<and> trie_rep t' (M + replicate_mset c b)"
proof (cases "c = 0")
  case True
  with assms(1) show ?thesis by (simp add: trie_insert_def)
next
  case False
  then obtain n' where "insert_walk (trie_root t) b c = Some n'" "represents n' (M + replicate_mset c b)"
    using insert_walk_represents [of "trie_root t" M b c] assms by (auto simp: trie_rep_def)
  with False assms show ?thesis by (auto simp: trie_insert_def trie_rep_def)
qed

lemma trie_remove_rep:
  assumes "trie_rep t M"
  shows "\<exists>t'. trie_remove t b c = Some (t', 0 < c \<and> b \<in># M) \<and> trie_rep t' (M - replicate_mset (min c (count M b)) b)"
proof (cases "b = [] \<or> c = 0")
  case True
  moreover have "count M [] = 0" using assms by (simp add: trie_rep_def count_eq_zero_iff)
  ultimately show ?thesis using assms by (auto simp: trie_remove_def trie_rep_def)
next
  case False
  then have b: "b \<noteq> []" and c: "0 < c" by simp_all
  have root: "represents (trie_root t) M" and nil: "[] \<notin># M" using assms by (simp_all add: trie_rep_def)
  note peek = peek_represents [OF root b]
  show ?thesis
  proof (cases "count M b = 0")
    case True
    then have "trie_remove t b c = Some (t, False)"
      using peek by (cases "peek_tip_support (trie_root t) b") (simp_all add: trie_remove_def)
    moreover have "b \<notin># M" using True by (rule count_eq_zero_iff [THEN iffD1])
    ultimately show ?thesis using assms True by simp
  next
    case pos: False
    have tip: "peek_tip_support (trie_root t) b = Some (count M b)"
    proof (cases "peek_tip_support (trie_root t) b")
      case None
      then have "count M b = 0" using peek by simp
      then show ?thesis using pos by contradiction
    qed (use peek in simp)
    have m: "0 < min c (count M b)" "min c (count M b) \<le> count M b" using c pos by simp_all
    obtain n' where n': "remove_walk (trie_root t) b (min c (count M b)) = Some n'"
      "represents n' (M - replicate_mset (min c (count M b)) b)"
      using remove_walk_represents [OF root b m] by blast
    have "trie_remove t b c = Some (t\<lparr>trie_root := n'\<rparr>, True)"
      using b c pos by (simp add: trie_remove_def tip n'(1))
    moreover have "b \<in># M" using pos by simp
    moreover have "[] \<notin># M - replicate_mset (min c (count M b)) b" using nil in_diffD by fast
    ultimately show ?thesis using n'(2) c by (simp add: trie_rep_def)
  qed
qed

lemma trie_preferred_rep:
  assumes "trie_rep t M"
  shows "\<exists>p. preferred_tip M p \<and> trie_get_preferred t = (if p = [] then None else Some (last p))"
proof (cases "trie_is_empty t")
  case True
  then have "M = {#}" using assms represents_total by (auto simp: trie_rep_def trie_is_empty_def)
  then have "preferred_tip M []" by (intro stop) simp
  with True show ?thesis by (auto simp: trie_get_preferred_def)
next
  case False
  then show ?thesis
    using preferred_loop_spec [of "trie_root t" M None] assms by (simp add: trie_get_preferred_def trie_rep_def)
qed

subsection \<open>The contract the aggregator relies on\<close>

locale branch_votes =
  fixes emp :: "'t"
    and ins :: "'t \<Rightarrow> hash256 list \<Rightarrow> nat \<Rightarrow> 't option"
    and del :: "'t \<Rightarrow> hash256 list \<Rightarrow> nat \<Rightarrow> ('t \<times> bool) option"
    and pref :: "'t \<Rightarrow> hash256 option"
    and rep :: "'t \<Rightarrow> hash256 list multiset \<Rightarrow> bool"
  assumes emp: "rep emp {#}"
    and ins: "rep t M \<Longrightarrow> b \<noteq> [] \<Longrightarrow> size M < u32_max \<Longrightarrow>
      \<exists>t'. ins t b 1 = Some t' \<and> rep t' (add_mset b M)"
    and del: "rep t M \<Longrightarrow> b \<in># M \<Longrightarrow> \<exists>t'. del t b 1 = Some (t', True) \<and> rep t' (M - {#b#})"
    and pref: "rep t M \<Longrightarrow> rep t' M \<Longrightarrow> pref t = pref t'"
begin

lemma switch_vote:
  assumes "rep t M" and "b \<in># M" and "b' \<noteq> []" and "size M \<le> u32_max"
  shows "\<exists>t1 t2. del t b 1 = Some (t1, True) \<and> ins t1 b' 1 = Some t2 \<and> rep t2 (add_mset b' (M - {#b#}))"
proof -
  obtain t1 where t1: "del t b 1 = Some (t1, True)" "rep t1 (M - {#b#})" using del [OF assms(1,2)] by blast
  obtain N where "M = add_mset b N" using assms(2) by (rule mset_add)
  then have "size (M - {#b#}) < u32_max" using assms(4) by simp
  from ins [OF t1(2) assms(3) this] t1(1) show ?thesis by blast
qed

lemma rebuild:
  assumes "rep t M" and "[] \<notin> set bs" and "size M + length bs \<le> u32_max"
  shows "\<exists>t'. fold_opt (\<lambda>b t. ins t b 1) bs t = Some t' \<and> rep t' (mset bs + M)"
  using assms
proof (induction bs arbitrary: t M)
  case (Cons b bs)
  have "size M < u32_max" and "b \<noteq> []" using Cons.prems by auto
  then obtain t1 where t1: "ins t b 1 = Some t1" "rep t1 (add_mset b M)"
    using ins [OF Cons.prems(1)] by blast
  from Cons.IH [OF t1(2)] Cons.prems t1(1) show ?case by simp
qed simp

lemma evict:
  assumes "rep t M" and "mset bs \<subseteq># M"
  shows "\<exists>t'. fold_opt (\<lambda>b t. map_option fst (del t b 1)) bs t = Some t' \<and> rep t' (M - mset bs)"
  using assms
proof (induction bs arbitrary: t M)
  case (Cons b bs)
  have "b \<in># M" using Cons.prems(2) by (simp add: insert_subset_eq_iff)
  then obtain t1 where t1: "del t b 1 = Some (t1, True)" "rep t1 (M - {#b#})"
    using del [OF Cons.prems(1)] by blast
  have "mset bs \<subseteq># M - {#b#}" using Cons.prems(2) by (simp add: insert_subset_eq_iff)
  from Cons.IH [OF t1(2) this] t1(1) show ?case by simp
qed simp

lemma rebuilt_prefers_same:
  assumes "rep t (mset bs)" and "[] \<notin> set bs" and "length bs \<le> u32_max"
  shows "\<exists>t'. fold_opt (\<lambda>b t. ins t b 1) bs emp = Some t' \<and> pref t' = pref t"
proof -
  obtain t' where t': "fold_opt (\<lambda>b t. ins t b 1) bs emp = Some t'" "rep t' (mset bs)"
    using rebuild [OF emp assms(2)] assms(3) by auto
  then have "pref t' = pref t" using assms(1) pref by blast
  with t'(1) show ?thesis by blast
qed

end

interpretation lt: branch_votes trie_new trie_insert trie_remove trie_get_preferred trie_rep
proof
  show "trie_rep trie_new {#}" by (rule trie_rep_new)
  fix t t' M b
  assume rep: "trie_rep t M"
  show "\<exists>t'. trie_insert t b 1 = Some t' \<and> trie_rep t' (add_mset b M)" if "b \<noteq> []" "size M < u32_max"
    using trie_insert_rep [OF rep that(1), of 1] that(2) by simp
  show "\<exists>t'. trie_remove t b 1 = Some (t', True) \<and> trie_rep t' (M - {#b#})" if "b \<in># M"
  proof -
    have "min 1 (count M b) = 1" using that by (simp add: Suc_le_eq)
    with trie_remove_rep [OF rep, of b 1] that show ?thesis by simp
  qed
  show "trie_get_preferred t = trie_get_preferred t'" if rep': "trie_rep t' M"
  proof -
    obtain p q where "preferred_tip M p" "trie_get_preferred t = (if p = [] then None else Some (last p))"
      "preferred_tip M q" "trie_get_preferred t' = (if q = [] then None else Some (last q))"
      using trie_preferred_rep [OF rep] trie_preferred_rep [OF rep'] by blast
    then show ?thesis using preferred_tip_unique [of M p q] by simp
  qed
qed

subsection \<open>Runs of a trie\<close>

datatype trie_op = TInsert "hash256 list" nat | TRemove "hash256 list" nat

fun trie_step :: "trie_op \<Rightarrow> ledger_trie \<Rightarrow> ledger_trie option" where
  "trie_step (TInsert b c) t = trie_insert t b c"
| "trie_step (TRemove b c) t = map_option fst (trie_remove t b c)"

text \<open>The abstract machine: a multiset of branches.\<close>

fun votes_step :: "trie_op \<Rightarrow> hash256 list multiset \<Rightarrow> hash256 list multiset" where
  "votes_step (TInsert b c) M = (if b = [] then M else M + replicate_mset c b)"
| "votes_step (TRemove b c) M = M - replicate_mset (min c (count M b)) b"

fun op_votes :: "trie_op \<Rightarrow> nat" where
  "op_votes (TInsert b c) = c"
| "op_votes (TRemove b c) = 0"

lemma trie_step_rep:
  assumes "trie_rep t M" and "size M + op_votes x \<le> u32_max"
  shows "\<exists>t'. trie_step x t = Some t' \<and> trie_rep t' (votes_step x M)"
proof (cases x)
  case (TInsert b c)
  then show ?thesis
    using assms trie_insert_rep [of t M b c] by (cases "b = []") (auto simp: trie_insert_def)
next
  case (TRemove b c)
  then show ?thesis using trie_remove_rep [OF assms(1), of b c] by auto
qed

lemma size_votes_step: "size (votes_step x M) \<le> size M + op_votes x"
  by (cases x) (auto intro: size_mset_mono diff_subset_eq_self)

lemma trie_run_rep:
  assumes "trie_rep t M" and "size M + sum_list (map op_votes ops) \<le> u32_max"
  shows "\<exists>t'. fold_opt trie_step ops t = Some t' \<and> trie_rep t' (fold votes_step ops M)"
  using assms
proof (induction ops arbitrary: t M)
  case (Cons x ops)
  obtain t1 where t1: "trie_step x t = Some t1" "trie_rep t1 (votes_step x M)"
    using trie_step_rep [OF Cons.prems(1), of x] Cons.prems(2) by auto
  have "size (votes_step x M) + sum_list (map op_votes ops) \<le> u32_max"
    using size_votes_step [of x M] Cons.prems(2) by simp
  from Cons.IH [OF t1(2) this] t1(1) show ?case by simp
qed simp

text \<open>C13: The ledger trie refines a multiset of branches. However insertions and removals are
  interleaved (with at most \<open>u32::MAX\<close> votes in all), no walk panics, the support stored at the end
  of a branch is the number of votes for exactly that branch, the root counts all votes, and the
  trie is empty exactly when no vote is left: removals clamp to what is there and pruning never
  drops a branch that still has votes.\<close>

theorem trie_refines_branch_votes:
  assumes "sum_list (map op_votes ops) \<le> u32_max"
  shows "\<exists>t. fold_opt trie_step ops trie_new = Some t
    \<and> (\<forall>b. b \<noteq> [] \<longrightarrow> (case peek_tip_support (trie_root t) b of Some n \<Rightarrow> n | None \<Rightarrow> 0)
          = count (fold votes_step ops {#}) b)
    \<and> node_branch (trie_root t) = size (fold votes_step ops {#})
    \<and> (trie_is_empty t \<longleftrightarrow> fold votes_step ops {#} = {#})"
proof -
  obtain t where t: "fold_opt trie_step ops trie_new = Some t"
    "represents (trie_root t) (fold votes_step ops {#})"
    using trie_run_rep [OF trie_rep_new, of ops] assms by (auto simp: trie_rep_def)
  then show ?thesis
    using peek_represents [OF t(2)] represents_total [OF t(2)] by (auto simp: trie_is_empty_def)
qed

theorem trie_refines_branch_votes_witness:
  "\<exists>t. fold_opt trie_step [TInsert [1, 2] 2, TInsert [1, 3] 1, TRemove [1, 2] 5] trie_new = Some t
     \<and> node_branch (trie_root t) = 1"
proof -
  have "sum_list (map op_votes [TInsert [1, 2] 2, TInsert [1, 3] 1, TRemove [1, 2] 5]) \<le> u32_max"
    by (simp add: u32_max_def)
  moreover have "fold votes_step [TInsert [1, 2] 2, TInsert [1, 3] 1, TRemove [1, 2] 5] {#} = {#[1, 3]#}"
    by (simp add: numeral_2_eq_2)
  ultimately show ?thesis
    using trie_refines_branch_votes [of "[TInsert [1, 2] 2, TInsert [1, 3] 1, TRemove [1, 2] 5]"]
    by (metis size_single)
qed

subsection \<open>Majority\<close>

lemma size_filter_disjoint:
  "(\<And>x. \<not> (P x \<and> Q x)) \<Longrightarrow> size (filter_mset P M) + size (filter_mset Q M) \<le> size M"
  by (induction M) auto

lemma size_residual: "size (residual M k) = size (filter_mset (prefix [k]) M)"
proof (induction M)
  case (add b M)
  then show ?case by (cases b) (auto simp: residual_def)
qed simp

lemma size_prefix_residual:
  "size (filter_mset (prefix (k # p)) M) = size (filter_mset (prefix p) (residual M k))"
proof (induction M)
  case (add b M)
  then show ?case by (cases b) (auto simp: residual_def)
qed simp

lemma size_two_residuals: "j \<noteq> k \<Longrightarrow> size (residual M j) + size (residual M k) \<le> size M"
  unfolding size_residual by (rule size_filter_disjoint) (auto simp: prefix_def)

lemma size_residual_tips: "count M [] + size (residual M k) \<le> size M"
proof -
  have "count M [] = size (filter_mset ((=) []) M)" by (induction M) auto
  then show ?thesis unfolding size_residual by (simp add: size_filter_disjoint)
qed

lemma majority_prefix:
  assumes "preferred_tip M q" and "size M < 2 * size (filter_mset (prefix p) M)"
  shows "prefix p q"
  using assms
proof (induction arbitrary: p rule: preferred_tip.induct)
  case (stop M)
  show ?case
  proof (cases p)
    case (Cons k p')
    have "size (filter_mset (prefix p) M) \<le> size (residual M k)"
      unfolding Cons size_prefix_residual by (rule size_filter_mset_lesseq)
    then show ?thesis using stop.prems stop.hyps [of k] size_residual_tips [of M k] by linarith
  qed simp
next
  case (down M k q)
  show ?case
  proof (cases p)
    case (Cons j p')
    have le: "size (filter_mset (prefix p) M) \<le> size (residual M j)"
      unfolding Cons size_prefix_residual by (rule size_filter_mset_lesseq)
    have "j = k"
      using down.hyps(2) [of j] size_two_residuals [of j k M] le down.prems by (cases "j = k") auto
    moreover have "size (residual M k) < 2 * size (filter_mset (prefix p') (residual M k))"
      using down.prems size_residual_le [of M k] \<open>j = k\<close> by (simp add: Cons size_prefix_residual)
    ultimately show ?thesis using down.IH [of p'] Cons by simp
  qed simp
qed

lemma preferred_nonempty:
  assumes "preferred_tip M q" and "[] \<notin># M" and "M \<noteq> {#}"
  shows "q \<noteq> []"
proof
  assume "q = []"
  obtain b where b: "b \<in># M" using assms(3) by blast
  then obtain k b' where "b = k # b'" using assms(2) by (cases b) auto
  with b have "b' \<in># residual M k" by (force simp: residual_def)
  then have "0 < size (residual M k)" by (auto simp: nonempty_has_size [symmetric])
  moreover have "count M [] = 0" using assms(2) by (simp add: count_eq_zero_iff)
  moreover have "size (residual M k) \<le> count M []"
    using assms(1) unfolding \<open>q = []\<close> by (rule preferred_stopE) simp
  ultimately show False by simp
qed

text \<open>C14: The preferred ledger of a trie is determined by the votes it stands for, not by the order
  of the votes nor by the iteration order of the hash maps: there is exactly one path that follows
  the heaviest continuation (the higher hash on ties) while it is strictly heavier than the votes
  ending at the current ledger, and its tip is returned. Without votes there is no answer.\<close>

theorem preferred_is_heaviest_walk:
  assumes "trie_rep t M"
  shows "\<exists>!p. preferred_tip M p
      \<and> trie_get_preferred t = (if M = {#} then None else Some (last p)) \<and> (p = [] \<longleftrightarrow> M = {#})"
proof -
  obtain p where p: "preferred_tip M p" "trie_get_preferred t = (if p = [] then None else Some (last p))"
    using trie_preferred_rep [OF assms] by blast
  have nil: "preferred_tip {#} []" by (rule stop) simp
  have iff: "p = [] \<longleftrightarrow> M = {#}"
  proof
    assume "M = {#}"
    then show "p = []" using p(1) nil preferred_tip_unique by blast
  qed (use preferred_nonempty [OF p(1)] assms in \<open>auto simp: trie_rep_def\<close>)
  show ?thesis
  proof (rule ex1I [of _ p])
    show "preferred_tip M p \<and> trie_get_preferred t = (if M = {#} then None else Some (last p))
      \<and> (p = [] \<longleftrightarrow> M = {#})" using p iff by simp
  qed (use p(1) preferred_tip_unique in blast)
qed

text \<open>Majority. When more than half of the votes in a trie lie on branches through the path \<open>p\<close>,
  the preferred ledger is on a branch through \<open>p\<close>: a minority can neither pull the preference to
  another fork nor keep it at an earlier ledger.\<close>

theorem majority_branch_is_preferred:
  assumes "trie_rep t M" and "size M < 2 * size (filter_mset (prefix p) M)" and "p \<noteq> []"
  shows "\<exists>q. prefix p q \<and> trie_get_preferred t = Some (last q)"
proof -
  obtain q where q: "preferred_tip M q" "trie_get_preferred t = (if q = [] then None else Some (last q))"
    using trie_preferred_rep [OF assms(1)] by blast
  have "prefix p q" by (rule majority_prefix [OF q(1) assms(2)])
  with q(2) assms(3) show ?thesis by auto
qed

lemma example_trie_rep:
  "\<exists>t. fold_opt trie_step [TInsert [1, 2] 2, TInsert [1, 3] 1] trie_new = Some t
     \<and> trie_rep t {#[1, 3], [1, 2], [1, 2]#}"
  using trie_run_rep [OF trie_rep_new, of "[TInsert [1, 2] 2, TInsert [1, 3] 1]"]
  by (simp add: u32_max_def numeral_2_eq_2)

theorem preferred_is_heaviest_walk_witness:
  "\<exists>t p. fold_opt trie_step [TInsert [1, 2] 2, TInsert [1, 3] 1] trie_new = Some t
     \<and> preferred_tip {#[1, 3], [1, 2], [1, 2]#} p \<and> trie_get_preferred t = Some (last p)"
proof -
  obtain t where t: "fold_opt trie_step [TInsert [1, 2] 2, TInsert [1, 3] 1] trie_new = Some t"
    "trie_rep t {#[1, 3], [1, 2], [1, 2]#}" using example_trie_rep by blast
  from preferred_is_heaviest_walk [OF t(2)] t(1) show ?thesis by auto
qed

theorem majority_branch_is_preferred_witness:
  "\<exists>t q. fold_opt trie_step [TInsert [1, 2] 2, TInsert [1, 3] 1] trie_new = Some t
     \<and> prefix [1, 2] q \<and> trie_get_preferred t = Some (last q)"
proof -
  obtain t where t: "fold_opt trie_step [TInsert [1, 2] 2, TInsert [1, 3] 1] trie_new = Some t"
    "trie_rep t {#[1, 3], [1, 2], [1, 2]#}" using example_trie_rep by blast
  from majority_branch_is_preferred [OF t(2), of "[1, 2]"] t(1) show ?thesis by auto
qed

end
