(* ===== verification/Validations_Trie.thy ===== *)
theory Validations_Trie
  imports Ledger_Trie Consensus_Types
begin

text \<open>
  The validation aggregator of \<^verbatim>\<open>crates/consensus/src/validations_trie.rs\<close>: the latest
  validation of each trusted node, credited to a ledger trie, with the memoised answer of the
  slow path of \<open>get_preferred\<close>. The lock of the cache is taken to succeed: no operation can
  panic while it holds it. The theorems show that all three ways \<open>get_preferred\<close> can answer (the
  persistent trie, the cache, a rebuilt trie) give the heaviest branch over the fresh votes.
\<close>

subsection \<open>The aggregator\<close>

record vt_entry =
  ve_validation :: validation
  ve_branch :: "hash256 list"

record validations_trie =
  vt_trie :: ledger_trie
  vt_latest :: "(node_id, vt_entry) hmap"
  vt_trusted :: "node_id list"
  vt_generation :: nat
  vt_cache :: "(nat \<times> nat \<times> hash256 option) option"

definition vt_new :: validations_trie where
  "vt_new = \<lparr>vt_trie = trie_new, vt_latest = [], vt_trusted = [], vt_generation = 0, vt_cache = None\<rparr>"

definition invalidate_cache :: "validations_trie \<Rightarrow> validations_trie" where
  "invalidate_cache t = t\<lparr>vt_generation := wrap64 (vt_generation t + 1), vt_cache := None\<rparr>"

definition vt_add_trusted :: "validations_trie \<Rightarrow> node_id \<Rightarrow> validations_trie" where
  "vt_add_trusted t n = t\<lparr>vt_trusted := hs_insert n (vt_trusted t)\<rparr>"

definition vt_remove_trusted :: "validations_trie \<Rightarrow> node_id \<Rightarrow> validations_trie option" where
  "vt_remove_trusted t n =
     (let t = t\<lparr>vt_trusted := hs_remove n (vt_trusted t)\<rparr> in
      case hm_get (vt_latest t) n of
        None \<Rightarrow> Some t
      | Some prev \<Rightarrow>
          (case trie_remove (vt_trie t) (ve_branch prev) 1 of
             None \<Rightarrow> None
           | Some (trie, _) \<Rightarrow>
               Some (invalidate_cache (t\<lparr>vt_latest := hm_remove n (vt_latest t), vt_trie := trie\<rparr>))))"

text \<open>The early returns of \<open>add_with_parents\<close> for a node that already has a vote.\<close>

definition vt_rejects :: "validation \<Rightarrow> validation \<Rightarrow> bool" where
  "vt_rejects prev v \<longleftrightarrow> val_ledger_hash prev = val_ledger_hash v
     \<or> val_ledger_seq v < val_ledger_seq prev
     \<or> (val_ledger_seq v = val_ledger_seq prev \<and> val_sign_time v \<le> val_sign_time prev)"

definition vt_add_with_parents :: "validations_trie \<Rightarrow> validation \<Rightarrow> hash256 list
    \<Rightarrow> (validations_trie \<times> bool) option" where
  "vt_add_with_parents t v parent_branch =
     (let n = val_node_id v in
      if n \<notin> set (vt_trusted t) then Some (t, False)
      else if (case hm_get (vt_latest t) n of Some prev \<Rightarrow> vt_rejects (ve_validation prev) v | None \<Rightarrow> False)
      then Some (t, False)
      else
        (let branch = parent_branch @ [val_ledger_hash v];
             removed = (case hm_get (vt_latest t) n of
                 Some prev \<Rightarrow> map_option fst (trie_remove (vt_trie t) (ve_branch prev) 1)
               | None \<Rightarrow> Some (vt_trie t)) in
         case removed of None \<Rightarrow> None
         | Some trie \<Rightarrow>
             (case trie_insert trie branch 1 of None \<Rightarrow> None
              | Some trie \<Rightarrow>
                  Some (invalidate_cache (t\<lparr>vt_trie := trie,
                      vt_latest := hm_insert n \<lparr>ve_validation = v, ve_branch = branch\<rparr> (vt_latest t)\<rparr>),
                    True))))"

definition vt_add :: "validations_trie \<Rightarrow> validation \<Rightarrow> (validations_trie \<times> bool) option" where
  "vt_add t v = vt_add_with_parents t v []"

definition is_stale :: "nat \<Rightarrow> vt_entry \<Rightarrow> bool" where
  "is_stale current_seq e \<longleftrightarrow> val_ledger_seq (ve_validation e) < current_seq"

text \<open>The rebuild loop of the slow path.\<close>

definition vt_rebuild :: "validations_trie \<Rightarrow> nat \<Rightarrow> ledger_trie option" where
  "vt_rebuild t current_seq =
     fold_opt (\<lambda>b trie. trie_insert trie b 1)
       (map ve_branch (filter (\<lambda>e. \<not> is_stale current_seq e) (hm_values (vt_latest t)))) trie_new"

definition vt_get_preferred :: "validations_trie \<Rightarrow> nat \<Rightarrow> (validations_trie \<times> hash256 option) option" where
  "vt_get_preferred t current_seq =
     (if \<not> (\<exists>e\<in>set (hm_values (vt_latest t)). is_stale current_seq e)
      then Some (t, trie_get_preferred (vt_trie t))
      else
        (case (case vt_cache t of
             Some (cached_seq, cached_gen, cached_hash) \<Rightarrow>
               if cached_seq = current_seq \<and> cached_gen = vt_generation t then Some cached_hash else None
           | None \<Rightarrow> None) of
           Some cached_hash \<Rightarrow> Some (t, cached_hash)
         | None \<Rightarrow>
             (case vt_rebuild t current_seq of None \<Rightarrow> None
              | Some filtered \<Rightarrow>
                  (let preferred = trie_get_preferred filtered in
                   Some (t\<lparr>vt_cache := Some (current_seq, vt_generation t, preferred)\<rparr>, preferred)))))"

text \<open>The loop of \<open>prune_below\<close> over the stale nodes.\<close>

definition prune_node :: "node_id \<Rightarrow> validations_trie \<Rightarrow> validations_trie option" where
  "prune_node n t =
     (case hm_get (vt_latest t) n of None \<Rightarrow> Some t
      | Some prev \<Rightarrow>
          (case trie_remove (vt_trie t) (ve_branch prev) 1 of None \<Rightarrow> None
           | Some (trie, _) \<Rightarrow> Some (t\<lparr>vt_latest := hm_remove n (vt_latest t), vt_trie := trie\<rparr>)))"

definition vt_prune_below :: "validations_trie \<Rightarrow> nat \<Rightarrow> (validations_trie \<times> nat) option" where
  "vt_prune_below t current_seq =
     (let stale = map fst (filter (\<lambda>(_, e). is_stale current_seq e) (vt_latest t));
          evicted = length stale in
      case fold_opt prune_node stale t of None \<Rightarrow> None
      | Some t \<Rightarrow> Some (if 0 < evicted then invalidate_cache t else t, evicted))"

definition vt_count_for :: "validations_trie \<Rightarrow> hash256 \<Rightarrow> nat" where
  "vt_count_for t h = tip_support (vt_trie t) h"

definition vt_trusted_count :: "validations_trie \<Rightarrow> nat" where
  "vt_trusted_count t = length (vt_trusted t)"

subsection \<open>Invariant\<close>

definition votes :: "(node_id, vt_entry) hmap \<Rightarrow> hash256 list multiset" where
  "votes m = mset (map ve_branch (hm_values m))"

definition fresh_votes :: "validations_trie \<Rightarrow> nat \<Rightarrow> hash256 list multiset" where
  "fresh_votes t s = votes (hm_retain (\<lambda>_ e. \<not> is_stale s e) (vt_latest t))"

definition pref_of :: "hash256 list multiset \<Rightarrow> hash256 option \<Rightarrow> bool" where
  "pref_of M h \<longleftrightarrow> (\<exists>p. preferred_tip M p \<and> h = (if p = [] then None else Some (last p)))"

definition entry_wf :: "node_id \<Rightarrow> vt_entry \<Rightarrow> bool" where
  "entry_wf n e \<longleftrightarrow> val_node_id (ve_validation e) = n \<and> ve_branch e \<noteq> []
     \<and> last (ve_branch e) = val_ledger_hash (ve_validation e)"

definition vt_core :: "validations_trie \<Rightarrow> bool" where
  "vt_core t \<longleftrightarrow> hm_wf (vt_latest t) \<and> distinct (vt_trusted t) \<and> length (vt_trusted t) \<le> u32_max
     \<and> set (hm_keys (vt_latest t)) \<subseteq> set (vt_trusted t)
     \<and> (\<forall>p\<in>set (vt_latest t). entry_wf (fst p) (snd p))
     \<and> trie_rep (vt_trie t) (votes (vt_latest t))"

definition vt_wf :: "validations_trie \<Rightarrow> bool" where
  "vt_wf t \<longleftrightarrow> vt_core t
     \<and> (case vt_cache t of None \<Rightarrow> True | Some (s, g, h) \<Rightarrow> pref_of (fresh_votes t s) h)"

lemma pref_of_unique: "pref_of M h \<Longrightarrow> pref_of M h' \<Longrightarrow> h = h'"
  unfolding pref_of_def using preferred_tip_unique by blast

lemma pref_of_trie: "trie_rep t M \<Longrightarrow> pref_of M (trie_get_preferred t)"
  unfolding pref_of_def by (rule trie_preferred_rep)

lemma size_votes [simp]: "size (votes m) = length m"
  by (simp add: votes_def)

lemma votes_Cons [simp]: "votes (p # m) = add_mset (ve_branch (snd p)) (votes m)"
  by (simp add: votes_def)

lemma votes_in: "hm_get m n = Some e \<Longrightarrow> ve_branch e \<in># votes m"
  by (force simp: votes_def dest: map_of_SomeD)

lemma votes_remove:
  "hm_wf m \<Longrightarrow> hm_get m n = Some e \<Longrightarrow> votes (hm_remove n m) = votes m - {#ve_branch e#}"
proof (induction m)
  case (Cons p m)
  show ?case
  proof (cases "fst p = n")
    case True
    then have "n \<notin> set (hm_keys m)" using Cons.prems(1) by auto
    with True Cons.prems show ?thesis by (cases p) (simp add: hm_remove_absent)
  next
    case False
    then have got: "hm_get m n = Some e" using Cons.prems(2) by (cases p) auto
    then have "ve_branch e \<in># votes m" by (rule votes_in)
    with False Cons.IH [OF _ got] Cons.prems(1) show ?thesis by (cases p) simp
  qed
qed simp

lemma votes_insert_absent: "n \<notin> set (hm_keys m) \<Longrightarrow> votes (hm_insert n e m) = add_mset (ve_branch e) (votes m)"
  by (simp add: hm_insert_absent votes_def)

lemma votes_insert_present:
  "hm_wf m \<Longrightarrow> hm_get m n = Some p \<Longrightarrow>
     votes (hm_insert n e m) = add_mset (ve_branch e) (votes m - {#ve_branch p#})"
proof (induction m)
  case (Cons q m)
  show ?case
  proof (cases "fst q = n")
    case True
    with Cons.prems show ?thesis by (cases q) simp
  next
    case False
    then have got: "hm_get m n = Some p" using Cons.prems(2) by (cases q) auto
    then have "ve_branch p \<in># votes m" by (rule votes_in)
    with False Cons.IH [OF _ got] Cons.prems(1) show ?thesis by (cases q) simp
  qed
qed simp

lemma vt_core_size:
  assumes "vt_core t"
  shows "length (vt_latest t) \<le> length (vt_trusted t)" "length (vt_latest t) \<le> u32_max"
proof -
  have "length (vt_latest t) = card (set (hm_keys (vt_latest t)))"
    using assms distinct_card [of "hm_keys (vt_latest t)"] by (simp add: vt_core_def)
  also have "\<dots> \<le> card (set (vt_trusted t))" using assms by (intro card_mono) (auto simp: vt_core_def)
  finally show "length (vt_latest t) \<le> length (vt_trusted t)" using card_length le_trans by blast
  then show "length (vt_latest t) \<le> u32_max" using assms by (simp add: vt_core_def)
qed

lemma prune_node_core:
  assumes "vt_core t"
  shows "\<exists>t'. prune_node n t = Some t' \<and> vt_core t' \<and> vt_latest t' = hm_remove n (vt_latest t)
    \<and> vt_trusted t' = vt_trusted t \<and> vt_generation t' = vt_generation t \<and> vt_cache t' = vt_cache t"
proof (cases "hm_get (vt_latest t) n")
  case None
  then have "hm_remove n (vt_latest t) = vt_latest t" by (intro hm_remove_absent) (simp add: hm_get_None)
  with None assms show ?thesis by (simp add: prune_node_def)
next
  case (Some e)
  have rep: "trie_rep (vt_trie t) (votes (vt_latest t))" and wf: "hm_wf (vt_latest t)"
    using assms by (simp_all add: vt_core_def)
  obtain trie where trie: "trie_remove (vt_trie t) (ve_branch e) 1 = Some (trie, True)"
    "trie_rep trie (votes (vt_latest t) - {#ve_branch e#})"
    using lt.del [OF rep votes_in [OF Some]] by blast
  have "vt_core (t\<lparr>vt_latest := hm_remove n (vt_latest t), vt_trie := trie\<rparr>)"
    using assms trie(2) votes_remove [OF wf Some]
    by (auto simp: vt_core_def set_hm_remove hm_wf_remove)
  with Some trie(1) show ?thesis by (simp add: prune_node_def)
qed

lemma prune_nodes_core:
  assumes "vt_core t"
  shows "\<exists>t'. fold_opt prune_node ns t = Some t' \<and> vt_core t'
    \<and> vt_latest t' = filter (\<lambda>p. fst p \<notin> set ns) (vt_latest t)
    \<and> vt_trusted t' = vt_trusted t \<and> vt_generation t' = vt_generation t \<and> vt_cache t' = vt_cache t"
  using assms
proof (induction ns arbitrary: t)
  case (Cons n ns)
  obtain t1 where t1: "prune_node n t = Some t1" "vt_core t1" "vt_latest t1 = hm_remove n (vt_latest t)"
    "vt_trusted t1 = vt_trusted t" "vt_generation t1 = vt_generation t" "vt_cache t1 = vt_cache t"
    using prune_node_core [OF Cons.prems] by blast
  obtain t2 where "fold_opt prune_node ns t1 = Some t2" "vt_core t2"
    "vt_latest t2 = filter (\<lambda>p. fst p \<notin> set ns) (vt_latest t1)" "vt_trusted t2 = vt_trusted t1"
    "vt_generation t2 = vt_generation t1" "vt_cache t2 = vt_cache t1"
    using Cons.IH [OF t1(2)] by blast
  moreover have "filter (\<lambda>p. fst p \<notin> set ns) (hm_remove n (vt_latest t))
      = filter (\<lambda>p. fst p \<notin> set (n # ns)) (vt_latest t)"
    by (auto simp: hm_remove_filter intro: filter_cong)
  ultimately show ?case using t1 by simp
qed simp

lemma vt_core_cong:
  assumes "vt_core t" and "vt_latest t' = vt_latest t" and "vt_trusted t' = vt_trusted t"
    and "vt_trie t' = vt_trie t"
  shows "vt_core t'"
  using assms by (simp add: vt_core_def)

lemma invalidate_fields [simp]:
  "vt_latest (invalidate_cache t) = vt_latest t" "vt_trusted (invalidate_cache t) = vt_trusted t"
  by (simp_all add: invalidate_cache_def)

lemma vt_wf_invalidate: "vt_core t \<Longrightarrow> vt_wf (invalidate_cache t)"
  by (simp add: vt_wf_def invalidate_cache_def vt_core_cong)

lemma fresh_votes_branches:
  "fresh_votes t s = mset (map ve_branch (filter (\<lambda>e. \<not> is_stale s e) (hm_values (vt_latest t))))"
  by (simp add: fresh_votes_def votes_def hm_retain_def filter_map case_prod_unfold comp_def)

lemma fresh_votes_all:
  "\<forall>e\<in>set (hm_values (vt_latest t)). \<not> is_stale s e \<Longrightarrow> fresh_votes t s = votes (vt_latest t)"
  unfolding fresh_votes_branches votes_def by (simp add: filter_id_conv [THEN iffD2])

lemma vt_branches_nonempty: "vt_core t \<Longrightarrow> [] \<notin> ve_branch ` set (hm_values (vt_latest t))"
  by (auto simp: vt_core_def entry_wf_def)

lemma vt_rebuild_rep:
  assumes "vt_core t"
  shows "\<exists>trie. vt_rebuild t s = Some trie \<and> trie_rep trie (fresh_votes t s)"
proof -
  let ?bs = "map ve_branch (filter (\<lambda>e. \<not> is_stale s e) (hm_values (vt_latest t)))"
  have nil: "[] \<notin> set ?bs" using vt_branches_nonempty [OF assms] by auto
  have "length (filter (\<lambda>e. \<not> is_stale s e) (hm_values (vt_latest t))) \<le> length (hm_values (vt_latest t))"
    by (rule length_filter_le)
  then have "size ({#} :: hash256 list multiset) + length ?bs \<le> u32_max"
    using vt_core_size(2) [OF assms] by (simp only: length_map size_empty add_0 le_trans)
  from lt.rebuild [OF lt.emp nil this] show ?thesis by (simp add: vt_rebuild_def fresh_votes_branches)
qed

lemma vt_get_preferred_correct:
  assumes "vt_wf t"
  shows "\<exists>t' h. vt_get_preferred t s = Some (t', h) \<and> vt_wf t' \<and> pref_of (fresh_votes t s) h
    \<and> vt_latest t' = vt_latest t \<and> vt_trusted t' = vt_trusted t"
proof (cases "\<exists>e\<in>set (hm_values (vt_latest t)). is_stale s e")
  case False
  then have "fresh_votes t s = votes (vt_latest t)" by (intro fresh_votes_all) blast
  then have "pref_of (fresh_votes t s) (trie_get_preferred (vt_trie t))"
    using assms pref_of_trie by (simp add: vt_wf_def vt_core_def)
  then show ?thesis unfolding vt_get_preferred_def using False assms by simp
next
  case True
  define hit where "hit = (case vt_cache t of
      Some (cs, cg, ch) \<Rightarrow> if cs = s \<and> cg = vt_generation t then Some ch else None | None \<Rightarrow> None)"
  have core: "vt_core t" using assms by (simp add: vt_wf_def)
  obtain trie where trie: "vt_rebuild t s = Some trie" "trie_rep trie (fresh_votes t s)"
    using vt_rebuild_rep [OF core] by blast
  note pref = pref_of_trie [OF trie(2)]
  show ?thesis
  proof (cases hit)
    case None
    let ?t = "t\<lparr>vt_cache := Some (s, vt_generation t, trie_get_preferred trie)\<rparr>"
    have "vt_core ?t" by (rule vt_core_cong [OF core]) simp_all
    then have "vt_wf ?t" using pref by (simp add: vt_wf_def fresh_votes_def)
    moreover have "vt_get_preferred t s = Some (?t, trie_get_preferred trie)"
      using True None trie(1) unfolding vt_get_preferred_def hit_def [symmetric] by (simp add: Let_def)
    ultimately show ?thesis using pref by simp
  next
    case (Some h)
    then have "pref_of (fresh_votes t s) h"
      using assms by (auto simp: hit_def vt_wf_def split: option.splits prod.splits if_splits)
    moreover have "vt_get_preferred t s = Some (t, h)"
      using True Some unfolding vt_get_preferred_def hit_def [symmetric] by simp
    ultimately show ?thesis using assms by simp
  qed
qed

lemma vt_rejects_iff:
  "\<not> vt_rejects p v \<longleftrightarrow> val_ledger_hash p \<noteq> val_ledger_hash v
     \<and> (val_ledger_seq p < val_ledger_seq v
        \<or> val_ledger_seq p = val_ledger_seq v \<and> val_sign_time p < val_sign_time v)"
  unfolding vt_rejects_def by (cases "val_ledger_seq v" "val_ledger_seq p" rule: linorder_cases) (simp_all add: not_le)

definition vt_accepts :: "validations_trie \<Rightarrow> validation \<Rightarrow> bool" where
  "vt_accepts t v \<longleftrightarrow> val_node_id v \<in> set (vt_trusted t)
     \<and> (case hm_get (vt_latest t) (val_node_id v) of
          None \<Rightarrow> True | Some prev \<Rightarrow> \<not> vt_rejects (ve_validation prev) v)"

lemma vt_add_correct:
  fixes v :: validation and ps
  assumes "vt_wf t"
  defines "e \<equiv> \<lparr>ve_validation = v, ve_branch = ps @ [val_ledger_hash v]\<rparr>"
  shows "\<exists>t'. vt_add_with_parents t v ps = Some (t', vt_accepts t v) \<and> vt_wf t' \<and> vt_trusted t' = vt_trusted t
    \<and> vt_latest t' = (if vt_accepts t v then hm_insert (val_node_id v) e (vt_latest t) else vt_latest t)"
proof (cases "vt_accepts t v")
  case False
  then show ?thesis
    using assms by (auto simp: vt_add_with_parents_def vt_accepts_def Let_def split: option.splits)
next
  case True
  let ?n = "val_node_id v" and ?m = "hm_insert (val_node_id v) e (vt_latest t)"
  have core: "vt_core t" using assms(1) by (simp add: vt_wf_def)
  then have rep: "trie_rep (vt_trie t) (votes (vt_latest t))" and wf: "hm_wf (vt_latest t)"
    by (simp_all add: vt_core_def)
  have e: "ve_branch e \<noteq> []" "entry_wf ?n e" by (simp_all add: e_def entry_wf_def)
  have trusted: "?n \<in> set (vt_trusted t)" using True by (simp add: vt_accepts_def)
  have "\<exists>t1 t2. (case hm_get (vt_latest t) ?n of
        Some prev \<Rightarrow> map_option fst (trie_remove (vt_trie t) (ve_branch prev) 1) | None \<Rightarrow> Some (vt_trie t)) = Some t1
      \<and> trie_insert t1 (ve_branch e) 1 = Some t2 \<and> trie_rep t2 (votes ?m)"
  proof (cases "hm_get (vt_latest t) ?n")
    case None
    then have absent: "?n \<notin> set (hm_keys (vt_latest t))" by (simp add: hm_get_None)
    have "card (insert ?n (set (hm_keys (vt_latest t)))) \<le> card (set (vt_trusted t))"
      using core trusted by (intro card_mono) (auto simp: vt_core_def)
    then have "length (vt_latest t) < u32_max"
      using absent core distinct_card [of "hm_keys (vt_latest t)"] card_length [of "vt_trusted t"]
      by (simp add: vt_core_def)
    then obtain t2 where "trie_insert (vt_trie t) (ve_branch e) 1 = Some t2"
      "trie_rep t2 (add_mset (ve_branch e) (votes (vt_latest t)))"
      using lt.ins [OF rep e(1)] by auto
    with None votes_insert_absent [OF absent] show ?thesis by simp
  next
    case (Some prev)
    have "size (votes (vt_latest t)) \<le> u32_max" using vt_core_size(2) [OF core] by simp
    from lt.switch_vote [OF rep votes_in [OF Some] e(1) this] Some votes_insert_present [OF wf Some]
    show ?thesis by auto
  qed
  then obtain t1 t2 where t2: "(case hm_get (vt_latest t) ?n of
        Some prev \<Rightarrow> map_option fst (trie_remove (vt_trie t) (ve_branch prev) 1) | None \<Rightarrow> Some (vt_trie t)) = Some t1"
      "trie_insert t1 (ve_branch e) 1 = Some t2" "trie_rep t2 (votes ?m)" by blast
  let ?t = "t\<lparr>vt_trie := t2, vt_latest := ?m\<rparr>"
  have "vt_core ?t"
    using core t2(3) trusted e(2) by (auto simp: vt_core_def hm_wf_insert hm_keys_insert set_hm_insert [OF wf])
  moreover have "vt_add_with_parents t v ps = Some (invalidate_cache ?t, True)"
    using True t2(1,2) by (simp add: vt_add_with_parents_def vt_accepts_def Let_def e_def split: option.splits)
  ultimately show ?thesis using True vt_wf_invalidate by simp
qed

subsection \<open>Runs of the aggregator\<close>

datatype vt_op = VAddTrusted node_id | VRemoveTrusted node_id | VAdd validation "hash256 list"
  | VPrune nat | VGet nat

fun vt_step :: "vt_op \<Rightarrow> validations_trie \<Rightarrow> validations_trie option" where
  "vt_step (VAddTrusted n) t = Some (vt_add_trusted t n)"
| "vt_step (VRemoveTrusted n) t = vt_remove_trusted t n"
| "vt_step (VAdd v ps) t = map_option fst (vt_add_with_parents t v ps)"
| "vt_step (VPrune s) t = map_option fst (vt_prune_below t s)"
| "vt_step (VGet s) t = map_option fst (vt_get_preferred t s)"

lemma vt_remove_trusted_wf:
  assumes "vt_wf t"
  shows "\<exists>t'. vt_remove_trusted t n = Some t' \<and> vt_wf t' \<and> vt_trusted t' = hs_remove n (vt_trusted t)
    \<and> vt_latest t' = hm_remove n (vt_latest t)"
proof -
  have core: "vt_core t" using assms by (simp add: vt_wf_def)
  let ?u = "t\<lparr>vt_trusted := hs_remove n (vt_trusted t)\<rparr>"
  show ?thesis
  proof (cases "hm_get (vt_latest t) n")
    case None
    then have absent: "n \<notin> set (hm_keys (vt_latest t))" by (simp add: hm_get_None)
    have "vt_core ?u"
      using core absent
      by (auto simp: vt_core_def distinct_removeAll intro: le_trans [OF length_removeAll_less_eq])
    then have "vt_wf ?u" using assms by (simp add: vt_wf_def fresh_votes_def split: option.splits prod.splits)
    with None absent show ?thesis by (simp add: vt_remove_trusted_def hm_remove_absent)
  next
    case (Some e)
    have rep: "trie_rep (vt_trie t) (votes (vt_latest t))" and wf: "hm_wf (vt_latest t)"
      using core by (simp_all add: vt_core_def)
    obtain trie where trie: "trie_remove (vt_trie t) (ve_branch e) 1 = Some (trie, True)"
      "trie_rep trie (votes (vt_latest t) - {#ve_branch e#})"
      using lt.del [OF rep votes_in [OF Some]] by blast
    have "vt_core (?u\<lparr>vt_latest := hm_remove n (vt_latest t), vt_trie := trie\<rparr>)"
      using core trie(2) votes_remove [OF wf Some]
      by (auto simp: vt_core_def set_hm_remove hm_wf_remove distinct_removeAll
          intro: le_trans [OF length_removeAll_less_eq])
    with Some trie(1) vt_wf_invalidate show ?thesis by (simp add: vt_remove_trusted_def)
  qed
qed

lemma vt_prune_correct:
  assumes "vt_wf t"
  shows "\<exists>t'. vt_prune_below t s = Some (t', length (filter (\<lambda>p. is_stale s (snd p)) (vt_latest t)))
    \<and> vt_wf t' \<and> vt_trusted t' = vt_trusted t
    \<and> vt_latest t' = hm_retain (\<lambda>_ e. \<not> is_stale s e) (vt_latest t)"
proof -
  have core: "vt_core t" using assms by (simp add: vt_wf_def)
  let ?stale = "map fst (filter (\<lambda>(_, e). is_stale s e) (vt_latest t))"
  obtain t' where t': "fold_opt prune_node ?stale t = Some t'" "vt_core t'"
    "vt_latest t' = filter (\<lambda>p. fst p \<notin> set ?stale) (vt_latest t)"
    "vt_trusted t' = vt_trusted t" "vt_generation t' = vt_generation t" "vt_cache t' = vt_cache t"
    using prune_nodes_core [OF core] by blast
  have wf: "hm_wf (vt_latest t)" using core by (simp add: vt_core_def)
  have get: "hm_get (vt_latest t) (fst p) = Some (snd p)" if "p \<in> set (vt_latest t)" for p
    using that by (intro hm_get_of_in [OF wf]) simp
  have "fst p \<in> set ?stale \<longleftrightarrow> is_stale s (snd p)" if p: "p \<in> set (vt_latest t)" for p
  proof
    assume "fst p \<in> set ?stale"
    then obtain q where "q \<in> set (vt_latest t)" "is_stale s (snd q)" "fst p = fst q" by auto
    with get [OF p] get [of q] show "is_stale s (snd p)" by simp
  next
    assume "is_stale s (snd p)"
    with p show "fst p \<in> set ?stale" by (auto simp: case_prod_unfold intro!: imageI)
  qed
  then have kept: "vt_latest t' = hm_retain (\<lambda>_ e. \<not> is_stale s e) (vt_latest t)"
    unfolding t'(3) hm_retain_def by (intro filter_cong) (simp_all add: case_prod_unfold)
  have len: "length ?stale = length (filter (\<lambda>p. is_stale s (snd p)) (vt_latest t))"
    by (simp add: case_prod_unfold)
  show ?thesis
  proof (cases "?stale = []")
    case True
    then have "t' = t" using t'(1) by simp
    with True assms t' kept len show ?thesis by (simp add: vt_prune_below_def Let_def)
  next
    case False
    then have "vt_prune_below t s = Some (invalidate_cache t', length ?stale)"
      by (simp add: vt_prune_below_def t'(1) Let_def)
    with vt_wf_invalidate [OF t'(2)] t'(4) kept len show ?thesis by simp
  qed
qed

lemma vt_step_wf:
  assumes "vt_wf t" and "length (vt_trusted t) < u32_max"
  shows "\<exists>t'. vt_step x t = Some t' \<and> vt_wf t' \<and> length (vt_trusted t') \<le> Suc (length (vt_trusted t))"
proof (cases x)
  case (VAddTrusted n)
  have "vt_wf (vt_add_trusted t n)"
    using assms by (auto simp: vt_wf_def vt_core_def vt_add_trusted_def length_hs_insert fresh_votes_def
        split: option.splits prod.splits)
  with VAddTrusted show ?thesis by (simp add: vt_add_trusted_def length_hs_insert)
next
  case (VRemoveTrusted n)
  then show ?thesis
    using vt_remove_trusted_wf [OF assms(1), of n] by (auto intro: le_SucI [OF length_removeAll_less_eq])
next
  case (VAdd v ps)
  then show ?thesis using vt_add_correct [OF assms(1), of v ps] by auto
next
  case (VPrune s)
  then show ?thesis using vt_prune_correct [OF assms(1), of s] by auto
next
  case (VGet s)
  then show ?thesis using vt_get_preferred_correct [OF assms(1), of s] by auto
qed

lemma vt_wf_new: "vt_wf vt_new"
  using trie_rep_new by (simp add: vt_wf_def vt_core_def vt_new_def votes_def)

lemma vt_run_wf:
  assumes "vt_wf t" and "length (vt_trusted t) + length ops \<le> u32_max"
  shows "\<exists>t'. fold_opt vt_step ops t = Some t' \<and> vt_wf t'"
  using assms
proof (induction ops arbitrary: t)
  case (Cons x ops)
  obtain t1 where "vt_step x t = Some t1" "vt_wf t1" "length (vt_trusted t1) \<le> Suc (length (vt_trusted t))"
    using vt_step_wf [OF Cons.prems(1), of x] Cons.prems(2) by auto
  with Cons.IH [of t1] Cons.prems(2) show ?case by simp
qed simp

lemma vt_reachable_wf:
  assumes "fold_opt vt_step ops vt_new = Some t" and "length ops \<le> u32_max"
  shows "vt_wf t"
proof -
  have "length (vt_trusted vt_new) + length ops \<le> u32_max" using assms(2) by (simp add: vt_new_def)
  from vt_run_wf [OF vt_wf_new this] assms(1) show ?thesis by (auto simp only: option.inject)
qed

text \<open>C11: After any sequence of trust changes, validations, prunings and queries (at most
  \<open>u32::MAX\<close> of them) the aggregator has not panicked, and whichever way it answers
  \<open>get_preferred(seq)\<close> - from the persistent trie, from the cache or from a rebuilt trie - the
  answer is the heaviest branch over exactly the latest votes at \<open>seq\<close> or later, one per node.\<close>

theorem vt_preferred_over_fresh_votes:
  assumes "length ops \<le> u32_max"
  shows "\<exists>t t' h. fold_opt vt_step ops vt_new = Some t \<and> vt_get_preferred t s = Some (t', h)
    \<and> pref_of (image_mset (\<lambda>p. ve_branch (snd p))
        (filter_mset (\<lambda>p. s \<le> val_ledger_seq (ve_validation (snd p))) (mset (vt_latest t)))) h
    \<and> distinct (map fst (vt_latest t)) \<and> set (map fst (vt_latest t)) \<subseteq> set (vt_trusted t)"
proof -
  obtain t where t: "fold_opt vt_step ops vt_new = Some t" "vt_wf t"
    using vt_run_wf [OF vt_wf_new, of ops] assms by (auto simp: vt_new_def)
  have "fresh_votes t s = image_mset (\<lambda>p. ve_branch (snd p))
      (filter_mset (\<lambda>p. s \<le> val_ledger_seq (ve_validation (snd p))) (mset (vt_latest t)))"
    by (simp add: fresh_votes_def votes_def hm_retain_def is_stale_def case_prod_unfold comp_def not_less)
  then show ?thesis
    using t vt_get_preferred_correct [OF t(2), of s] by (auto simp: vt_wf_def vt_core_def)
qed

text \<open>In every reachable aggregator a validation changes a vote exactly when its node is
  trusted and it is the node's first, or names another ledger with a higher sequence or the same
  sequence and a later signing time; then it is the node's vote and no other node's vote changes.
  Anything else - untrusted, a repeat, an older one - leaves every vote as it was.\<close>

theorem vt_vote_replacement:
  assumes "fold_opt vt_step ops vt_new = Some t" and "length ops \<le> u32_max"
  shows "\<exists>t' b. vt_add_with_parents t v ps = Some (t', b)
    \<and> b = (val_node_id v \<in> set (vt_trusted t) \<and>
        (case hm_get (vt_latest t) (val_node_id v) of None \<Rightarrow> True
         | Some e \<Rightarrow> val_ledger_hash (ve_validation e) \<noteq> val_ledger_hash v
             \<and> (val_ledger_seq (ve_validation e) < val_ledger_seq v
                \<or> val_ledger_seq (ve_validation e) = val_ledger_seq v
                  \<and> val_sign_time (ve_validation e) < val_sign_time v)))
    \<and> hm_get (vt_latest t') n = (if b \<and> n = val_node_id v
        then Some \<lparr>ve_validation = v, ve_branch = ps @ [val_ledger_hash v]\<rparr> else hm_get (vt_latest t) n)"
proof -
  have wf: "vt_wf t" using assms by (rule vt_reachable_wf)
  obtain t' where t': "vt_add_with_parents t v ps = Some (t', vt_accepts t v)"
    "vt_latest t' = (if vt_accepts t v
       then hm_insert (val_node_id v) \<lparr>ve_validation = v, ve_branch = ps @ [val_ledger_hash v]\<rparr> (vt_latest t)
       else vt_latest t)"
    using vt_add_correct [OF wf, of v ps] by blast
  show ?thesis
  proof (intro exI conjI)
    show "vt_add_with_parents t v ps = Some (t', vt_accepts t v)" by (rule t'(1))
    show "vt_accepts t v = (val_node_id v \<in> set (vt_trusted t) \<and>
        (case hm_get (vt_latest t) (val_node_id v) of None \<Rightarrow> True
         | Some e \<Rightarrow> val_ledger_hash (ve_validation e) \<noteq> val_ledger_hash v
             \<and> (val_ledger_seq (ve_validation e) < val_ledger_seq v
                \<or> val_ledger_seq (ve_validation e) = val_ledger_seq v
                  \<and> val_sign_time (ve_validation e) < val_sign_time v)))"
      by (simp only: vt_accepts_def vt_rejects_iff)
  qed (simp add: t'(2) hm_get_insert)
qed

text \<open>Pruning and untrusting. \<open>prune_below(seq)\<close> evicts exactly the votes below \<open>seq\<close>, reports how
  many, and does nothing when repeated; removing a node from the trusted set drops its vote and
  only its vote.\<close>

theorem vt_eviction:
  assumes "fold_opt vt_step ops vt_new = Some t" and "length ops \<le> u32_max"
  shows "\<exists>t' k t''. vt_prune_below t s = Some (t', k) \<and> vt_prune_below t' s = Some (t', 0)
    \<and> vt_latest t' = filter (\<lambda>p. s \<le> val_ledger_seq (ve_validation (snd p))) (vt_latest t)
    \<and> k = length (vt_latest t) - length (vt_latest t')
    \<and> vt_remove_trusted t n = Some t'' \<and> n \<notin> set (vt_trusted t'')
    \<and> vt_latest t'' = filter (\<lambda>p. fst p \<noteq> n) (vt_latest t)"
proof -
  have wf: "vt_wf t" using assms by (rule vt_reachable_wf)
  obtain t' where t': "vt_prune_below t s = Some (t', length (filter (\<lambda>p. is_stale s (snd p)) (vt_latest t)))"
    "vt_wf t'" "vt_latest t' = hm_retain (\<lambda>_ e. \<not> is_stale s e) (vt_latest t)"
    using vt_prune_correct [OF wf, of s] by blast
  have kept: "vt_latest t' = filter (\<lambda>p. s \<le> val_ledger_seq (ve_validation (snd p))) (vt_latest t)"
    unfolding t'(3) by (simp add: hm_retain_def is_stale_def case_prod_unfold not_less)
  have "filter (\<lambda>(_, e). is_stale s e) (vt_latest t') = []"
    by (auto simp: kept is_stale_def filter_empty_conv)
  then have again: "vt_prune_below t' s = Some (t', 0)" by (simp add: vt_prune_below_def)
  have "length (filter (\<lambda>p. is_stale s (snd p)) (vt_latest t)) = length (vt_latest t) - length (vt_latest t')"
    using sum_length_filter_compl [of "\<lambda>p. is_stale s (snd p)" "vt_latest t"]
    by (simp add: kept is_stale_def not_less)
  moreover obtain t'' where "vt_remove_trusted t n = Some t''" "vt_trusted t'' = hs_remove n (vt_trusted t)"
    "vt_latest t'' = hm_remove n (vt_latest t)"
    using vt_remove_trusted_wf [OF wf, of n] by blast
  ultimately show ?thesis using t'(1) again kept by (auto simp: hm_remove_filter)
qed

definition example_vote :: "hash256 \<Rightarrow> hash256 \<Rightarrow> nat \<Rightarrow> validation" where
  "example_vote n h s = default_validation\<lparr>val_node_id := NodeId n, val_ledger_hash := h, val_ledger_seq := s\<rparr>"

definition example_vt_ops :: "vt_op list" where
  "example_vt_ops = [VAddTrusted (NodeId 1), VAdd (example_vote 1 8 5) [], VAdd (example_vote 2 9 5) []]"

lemma example_vt_run:
  obtains t where "fold_opt vt_step example_vt_ops vt_new = Some t" and "vt_trusted t = [NodeId 1]"
    and "vt_latest t = [(NodeId 1, \<lparr>ve_validation = example_vote 1 8 5, ve_branch = [8]\<rparr>)]"
  by (simp add: example_vt_ops_def vt_add_trusted_def vt_new_def vt_add_with_parents_def example_vote_def
      trie_insert_def trie_new_def node_new_def invalidate_cache_def Let_def)

theorem vt_preferred_over_fresh_votes_witness:
  "\<exists>t t' h. fold_opt vt_step example_vt_ops vt_new = Some t \<and> vt_get_preferred t 5 = Some (t', h)"
  using vt_preferred_over_fresh_votes [of example_vt_ops 5] by (auto simp: example_vt_ops_def u32_max_def)

theorem vt_vote_replacement_witness:
  "\<exists>t. fold_opt vt_step example_vt_ops vt_new = Some t
     \<and> (\<exists>t'. vt_add_with_parents t (example_vote 1 7 6) [] = Some (t', True))
     \<and> (\<exists>t'. vt_add_with_parents t (example_vote 1 7 4) [] = Some (t', False))"
proof -
  obtain t where t: "fold_opt vt_step example_vt_ops vt_new = Some t" "vt_trusted t = [NodeId 1]"
    "vt_latest t = [(NodeId 1, \<lparr>ve_validation = example_vote 1 8 5, ve_branch = [8]\<rparr>)]"
    by (rule example_vt_run)
  have len: "length example_vt_ops \<le> u32_max" by (simp add: example_vt_ops_def u32_max_def)
  show ?thesis
    using vt_vote_replacement [OF t(1) len, of "example_vote 1 7 6" "[]" "NodeId 1"]
      vt_vote_replacement [OF t(1) len, of "example_vote 1 7 4" "[]" "NodeId 1"] t
    by (auto simp: example_vote_def)
qed

theorem vt_eviction_witness:
  "\<exists>t t' k. fold_opt vt_step example_vt_ops vt_new = Some t \<and> vt_prune_below t 6 = Some (t', k)
     \<and> vt_latest t' = [] \<and> k = 1"
proof -
  obtain t where t: "fold_opt vt_step example_vt_ops vt_new = Some t"
    "vt_latest t = [(NodeId 1, \<lparr>ve_validation = example_vote 1 8 5, ve_branch = [8]\<rparr>)]"
    by (rule example_vt_run)
  have len: "length example_vt_ops \<le> u32_max" by (simp add: example_vt_ops_def u32_max_def)
  show ?thesis using vt_eviction [OF t(1) len, of 6 "NodeId 1"] t by (auto simp: example_vote_def)
qed

end
