(* ===== verification/Consensus_Engine.thy ===== *)
theory Consensus_Engine
  imports Proposal_Tracker Negative_Unl Validations_Trie Close_Resolution
begin

text \<open>
  The consensus engine of \<^verbatim>\<open>crates/consensus/src/engine.rs\<close>: its whole state and every handler.
  The adapter is a parameter: what it answers (\<open>acquire_tx_set\<close>, \<open>on_accept_ledger\<close>) is the record
  \<open>adapter\<close>, and what the engine tells it is appended to the log \<open>en_events\<close>. The clocks are
  arguments: \<open>now\<close> is the value of \<open>Instant::now()\<close> in nanoseconds during the call, and ripple
  times are seconds. The hash \<open>sha\<close> and the hex encoding \<open>hexenc\<close> of keys are parameters too. A
  handler that goes through the validation aggregator returns \<^const>\<open>None\<close> where that panics.
\<close>

subsection \<open>State\<close>

definition WRONG_PREV_LEDGER_THRESHOLD :: nat where
  "WRONG_PREV_LEDGER_THRESHOLD = 60"

definition PROPOSAL_FRESHNESS_SECS :: nat where
  "PROPOSAL_FRESHNESS_SECS = 30"

definition RIPPLE_EPOCH_OFFSET_SECS :: nat where
  "RIPPLE_EPOCH_OFFSET_SECS = 946684800"

definition PENDING_PROPOSALS_MAX :: nat where
  "PENDING_PROPOSALS_MAX = 1024"

definition FUTURE_PROPOSALS_MAX_KEYS :: nat where
  "FUTURE_PROPOSALS_MAX_KEYS = 64"

definition FUTURE_PROPOSALS_MAX_PER_KEY :: nat where
  "FUTURE_PROPOSALS_MAX_PER_KEY = 16"

definition FUTURE_PROPOSALS_STALE_LEDGERS :: nat where
  "FUTURE_PROPOSALS_STALE_LEDGERS = 5"

record wrong_prev_ledger_detected =
  preferred_ledger :: hash256
  peer_count :: nat
  total_trusted :: nat

record adapter =
  acquire_tx_set :: "hash256 \<Rightarrow> tx_set option"
  on_accept_ledger :: "tx_set \<Rightarrow> nat \<Rightarrow> nat \<Rightarrow> hash256"

datatype adapter_event =
    Propose proposal
  | SharePosition proposal
  | PublishTxSet tx_set
  | OnAccept validation

record engine =
  en_params :: consensus_params
  en_phase :: consensus_phase
  our_position :: "proposal option"
  our_set :: "tx_set option"
  peer_positions :: "(node_id, proposal) hmap"
  en_tracker :: proposal_tracker
  disputes :: "(hash256, disputed_tx) hmap"
  en_round :: nat
  en_prev_ledger :: hash256
  en_node_id :: node_id
  en_public_key :: bytes
  accepted_close_time :: "nat option"
  latest_peer_close_time :: "nat option"
  latest_peer_ledger_seq :: "nat option"
  accepted_close_flags :: nat
  accepted_validation :: "validation option"
  en_unl :: trusted_validator_list
  en_nunl :: negative_unl_tracker
  pending_proposals :: "proposal list"
  last_share_at :: "nat option"
  wrong_prev_ledger_votes :: "(node_id, hash256) hmap"
  en_validations :: validations_trie
  prev_ledger_seq :: nat
  future_proposals :: "(hash256, proposal list) hmap"
  en_close_time :: adaptive_close_time
  previous_close_agreed :: bool
  prior_close_time :: nat
  dropped_stale_total :: nat
  held_pending_total :: nat
  establish_started_at :: "nat option"
  last_round_advance :: "nat option"
  self_trusted :: bool
  tx_blobs :: "(hash256, bytes) hmap"
  en_events :: "adapter_event list"

definition engine_new_with_unl :: "node_id \<Rightarrow> bytes \<Rightarrow> consensus_params \<Rightarrow> trusted_validator_list \<Rightarrow> engine" where
  "engine_new_with_unl n pk params u =
     \<lparr>en_params = params, en_phase = Open, our_position = None, our_set = None, peer_positions = [],
      en_tracker = tracker_new, disputes = [], en_round = 0, en_prev_ledger = 0, en_node_id = n,
      en_public_key = pk, accepted_close_time = None, latest_peer_close_time = None,
      latest_peer_ledger_seq = None, accepted_close_flags = 0, accepted_validation = None,
      en_unl = u, en_nunl = nunl_new, pending_proposals = [], last_share_at = None,
      wrong_prev_ledger_votes = [],
      en_validations = fold (\<lambda>n t. vt_add_trusted t n) (trusted u) vt_new,
      prev_ledger_seq = 0, future_proposals = [], en_close_time = act_new (close_time_resolution params),
      previous_close_agreed = True, prior_close_time = 0, dropped_stale_total = 0,
      held_pending_total = 0, establish_started_at = None, last_round_advance = None,
      self_trusted = False, tx_blobs = [], en_events = []\<rparr>"

definition engine_new :: "node_id \<Rightarrow> consensus_params \<Rightarrow> engine" where
  "engine_new n params = engine_new_with_unl n [] params unl_empty"

definition set_self_trusted :: "engine \<Rightarrow> bool \<Rightarrow> engine" where
  "set_self_trusted e b = e\<lparr>self_trusted := b\<rparr>"

definition emit :: "adapter_event \<Rightarrow> engine \<Rightarrow> engine" where
  "emit ev e = e\<lparr>en_events := en_events e @ [ev]\<rparr>"

subsection \<open>Validators\<close>

definition register_validators :: "engine \<Rightarrow> node_id list \<Rightarrow> (node_id, string) hmap \<Rightarrow> engine" where
  "register_validators e trusted_set key_map =
     e\<lparr>en_nunl := fold (\<lambda>n t. case hm_get key_map n of Some key \<Rightarrow> register_validator t n key | None \<Rightarrow> t)
         trusted_set (en_nunl e)\<rparr>"

definition record_validation :: "engine \<Rightarrow> node_id \<Rightarrow> engine" where
  "record_validation e n = e\<lparr>en_nunl := nunl_record_validation (en_nunl e) n\<rparr>"

definition on_ledger_close_for_tracker :: "engine \<Rightarrow> engine" where
  "on_ledger_close_for_tracker e = e\<lparr>en_nunl := on_ledger_close (en_nunl e)\<rparr>"

text \<open>The two loops that bring the negative list of the UNL in line with the tracker.\<close>

definition sync_negative_unl :: "node_id list \<Rightarrow> trusted_validator_list \<Rightarrow> trusted_validator_list" where
  "sync_negative_unl disabled u =
     (let u = fold (\<lambda>n u. if is_in_negative_unl u n then u else add_to_negative_unl u n) disabled u
      in fold (\<lambda>n u. if n \<in> set disabled then u else remove_from_negative_unl u n) (negative_unl u) u)"

definition evaluate_negative_unl :: "engine \<Rightarrow> nat \<Rightarrow> engine \<times> negative_unl_change list" where
  "evaluate_negative_unl e ledger_seq =
     (if \<not> is_flag_ledger ledger_seq then (e, [])
      else
        (let (t, changes) = nunl_evaluate (en_nunl e) (trusted (en_unl e)) ledger_seq
         in (e\<lparr>en_nunl := t, en_unl := sync_negative_unl (currently_disabled t) (en_unl e)\<rparr>, changes)))"

definition record_trusted_validation :: "(bytes \<Rightarrow> hash256) \<Rightarrow> engine \<Rightarrow> validation \<Rightarrow> (engine \<times> bool) option" where
  "record_trusted_validation sha e v =
     (if val_node_id v \<noteq> NodeId (sha (val_public_key v)) then Some (e, False)
      else map_option (\<lambda>(t, b). (e\<lparr>en_validations := t\<rparr>, b)) (vt_add (en_validations e) v))"

definition add_trusted_validator :: "engine \<Rightarrow> node_id \<Rightarrow> engine" where
  "add_trusted_validator e n = e\<lparr>en_validations := vt_add_trusted (en_validations e) n\<rparr>"

definition remove_trusted_validator :: "engine \<Rightarrow> node_id \<Rightarrow> engine option" where
  "remove_trusted_validator e n =
     map_option (\<lambda>t. e\<lparr>en_validations := t\<rparr>) (vt_remove_trusted (en_validations e) n)"

definition set_trusted_master_keys :: "(bytes \<Rightarrow> hash256) \<Rightarrow> (bytes \<Rightarrow> string) \<Rightarrow> engine \<Rightarrow> bytes list
    \<Rightarrow> engine option" where
  "set_trusted_master_keys sha hexenc e keys =
     (if keys = [] then Some e
      else
        (let new_ids = map (from_public_key sha) keys;
             stale = filter (\<lambda>n. n \<notin> set new_ids) (trusted (en_unl e)) in
         case fold_opt (\<lambda>n t. vt_remove_trusted t n) stale (en_validations e) of None \<Rightarrow> None
         | Some t \<Rightarrow>
             Some (e\<lparr>en_validations := fold (\<lambda>n t. vt_add_trusted t n) new_ids t,
                     en_unl := update_from_validator_keys sha hexenc (en_unl e) keys\<rparr>)))"

subsection \<open>Wrong previous ledger\<close>

text \<open>The u32 percentage both detectors compute. The division panics in the code when the total is a
  nonzero multiple of \<open>2^32\<close>; the value here is 0 then.\<close>

definition percent_of :: "nat \<Rightarrow> nat \<Rightarrow> nat" where
  "percent_of n tot = wrap32 (wrap32 n * 100) div wrap32 tot"

definition check_wrong_prev_ledger_from_validations :: "engine
    \<Rightarrow> (engine \<times> wrong_prev_ledger_detected option) option" where
  "check_wrong_prev_ledger_from_validations e =
     (let trusted_total = vt_trusted_count (en_validations e) in
      if trusted_total = 0 then Some (e, None)
      else
        (case vt_get_preferred (en_validations e) (prev_ledger_seq e) of None \<Rightarrow> None
         | Some (t, answer) \<Rightarrow>
             (let e = e\<lparr>en_validations := t\<rparr> in
              case answer of None \<Rightarrow> Some (e, None)
              | Some preferred \<Rightarrow>
                  if preferred = en_prev_ledger e then Some (e, None)
                  else
                    (let support = vt_count_for t preferred in
                     if WRONG_PREV_LEDGER_THRESHOLD \<le> percent_of support trusted_total
                     then Some (e, Some \<lparr>preferred_ledger = preferred, peer_count = support,
                                          total_trusted = trusted_total\<rparr>)
                     else Some (e, None)))))"

text \<open>\<open>*entry(k).or_default() += 1\<close> on a table of counters of a given width.\<close>

definition bump :: "(nat \<Rightarrow> nat) \<Rightarrow> 'k \<Rightarrow> ('k, nat) hmap \<Rightarrow> ('k, nat) hmap" where
  "bump wrap k m = hm_insert k (wrap ((case hm_get m k of Some c \<Rightarrow> c | None \<Rightarrow> 0) + 1)) m"

text \<open>\<open>iter().max_by_key\<close>: the last of the entries with the greatest count.\<close>

definition max_by_count :: "('k, nat) hmap \<Rightarrow> ('k \<times> nat) option" where
  "max_by_count m = fold (\<lambda>p best. case best of None \<Rightarrow> Some p
     | Some b \<Rightarrow> if snd b \<le> snd p then Some p else Some b) m None"

definition ledger_counts :: "engine \<Rightarrow> (hash256, nat) hmap" where
  "ledger_counts e = fold (\<lambda>(n, their_prev) m. if is_trusted (en_unl e) n then bump wrap64 their_prev m else m)
     (wrong_prev_ledger_votes e) []"

definition check_wrong_prev_ledger :: "engine \<Rightarrow> (engine \<times> wrong_prev_ledger_detected option) option" where
  "check_wrong_prev_ledger e =
     (if unl_is_empty (en_unl e) then Some (e, None)
      else
        (case check_wrong_prev_ledger_from_validations e of None \<Rightarrow> None
         | Some (e, Some detected) \<Rightarrow> Some (e, Some detected)
         | Some (e, None) \<Rightarrow>
             if wrong_prev_ledger_votes e = [] then Some (e, None)
             else
               (case max_by_count (ledger_counts e) of None \<Rightarrow> Some (e, None)
                | Some (preferred, cnt) \<Rightarrow>
                    (let agreeing = length (filter (\<lambda>p. is_trusted (en_unl e) (prop_node_id p))
                           (hm_values (peer_positions e)));
                         tot = agreeing + sum_list (hm_values (ledger_counts e)) in
                     if tot = 0 then Some (e, None)
                     else if WRONG_PREV_LEDGER_THRESHOLD \<le> percent_of cnt tot
                     then Some (e, Some \<lparr>preferred_ledger = preferred, peer_count = cnt,
                                          total_trusted = tot\<rparr>)
                     else Some (e, None)))))"

subsection \<open>Rounds and held proposals\<close>

definition start_round_with_prior :: "engine \<Rightarrow> hash256 \<Rightarrow> nat \<Rightarrow> nat \<Rightarrow> engine" where
  "start_round_with_prior e prev_ledger ledger_seq prior =
     (let parent_resolution = act_resolution (en_close_time e);
          new_resolution = next_resolution parent_resolution (previous_close_agreed e) ledger_seq;
          matching = (case hm_get (future_proposals e) prev_ledger of Some ps \<Rightarrow> ps | None \<Rightarrow> []);
          rest = hm_remove prev_ledger (future_proposals e);
          kept = filter (\<lambda>(_, ps). ps \<noteq> [])
            (map (\<lambda>(h, ps). (h, filter (\<lambda>p. ledger_seq \<le> wrap32 (prop_ledger_seq p + FUTURE_PROPOSALS_STALE_LEDGERS)) ps)) rest) in
      e\<lparr>en_close_time := set_resolution (en_close_time e) new_resolution,
        en_phase := Open, our_position := None, our_set := None, peer_positions := [],
        en_tracker := tracker_clear_for (en_tracker e) (en_prev_ledger e),
        disputes := [], en_round := 0, last_share_at := None, last_round_advance := None,
        en_prev_ledger := prev_ledger, prev_ledger_seq := ledger_seq - 1, prior_close_time := prior,
        accepted_close_time := None, accepted_close_flags := 0, accepted_validation := None,
        wrong_prev_ledger_votes := [],
        pending_proposals := pending_proposals e @ matching,
        future_proposals := kept\<rparr>)"

definition start_round :: "engine \<Rightarrow> hash256 \<Rightarrow> nat \<Rightarrow> engine" where
  "start_round e prev_ledger ledger_seq = start_round_with_prior e prev_ledger ledger_seq 0"

definition min_seq :: "proposal list \<Rightarrow> nat" where
  "min_seq ps = (if ps = [] then u32_max else fold min (map prop_ledger_seq (tl ps)) (prop_ledger_seq (hd ps)))"

text \<open>\<open>iter().min_by_key\<close>: the first of the groups with the least sequence.\<close>

definition min_by_seq :: "(hash256, proposal list) hmap \<Rightarrow> hash256 option" where
  "min_by_seq m = map_option fst (fold (\<lambda>p best. case best of None \<Rightarrow> Some p
     | Some b \<Rightarrow> if min_seq (snd p) < min_seq (snd b) then Some p else Some b) m None)"

definition hold_future_proposal :: "engine \<Rightarrow> proposal \<Rightarrow> engine" where
  "hold_future_proposal e proposal =
     (let key = prop_prev_ledger proposal;
          group = (case hm_get (future_proposals e) key of Some ps \<Rightarrow> ps | None \<Rightarrow> []);
          group = (if FUTURE_PROPOSALS_MAX_PER_KEY \<le> length group then tl group else group);
          group = filter (\<lambda>p. prop_node_id p \<noteq> prop_node_id proposal) group @ [proposal];
          m = hm_insert key group (future_proposals e);
          m = (if FUTURE_PROPOSALS_MAX_KEYS < length m
               then (case min_by_seq m of Some victim \<Rightarrow> hm_remove victim m | None \<Rightarrow> m)
               else m) in
      e\<lparr>future_proposals := m\<rparr>)"

subsection \<open>Disputes\<close>

text \<open>\<open>disputes.get_mut(tx)\<close> followed by a vote, and \<open>entry(tx).or_insert_with(new)\<close> followed by one.\<close>

definition vote_existing :: "node_id \<Rightarrow> bool \<Rightarrow> hash256 \<Rightarrow> (hash256, disputed_tx) hmap \<Rightarrow> (hash256, disputed_tx) hmap" where
  "vote_existing n include tx ds =
     (case hm_get ds tx of Some d \<Rightarrow> hm_insert tx (dispute_vote d n include) ds | None \<Rightarrow> ds)"

definition vote_or_new :: "bool \<Rightarrow> node_id \<Rightarrow> bool \<Rightarrow> hash256 \<Rightarrow> (hash256, disputed_tx) hmap \<Rightarrow> (hash256, disputed_tx) hmap" where
  "vote_or_new ours n include tx ds =
     (let d = (case hm_get ds tx of Some d \<Rightarrow> d | None \<Rightarrow> dispute_new tx ours)
      in hm_insert tx (dispute_vote d n include) ds)"

definition absorb_blob :: "hash256 \<times> bytes \<Rightarrow> (hash256, bytes) hmap \<Rightarrow> (hash256, bytes) hmap" where
  "absorb_blob p m = (if snd p = [] then m
     else case hm_get m (fst p) of Some _ \<Rightarrow> m | None \<Rightarrow> hm_insert (fst p) (snd p) m)"

text \<open>The body of the loop of \<open>create_disputes\<close> for one peer position.\<close>

definition dispute_peer :: "adapter \<Rightarrow> tx_set \<Rightarrow> node_id \<times> proposal
    \<Rightarrow> (hash256, disputed_tx) hmap \<times> (hash256, bytes) hmap
    \<Rightarrow> (hash256, disputed_tx) hmap \<times> (hash256, bytes) hmap" where
  "dispute_peer ad ours np st =
     (let (n, peer_prop) = np; (ds, blobs) = st in
      if tx_set_hash peer_prop = ts_hash ours
      then (fold (vote_existing n True) (ts_txs ours) ds, blobs)
      else
        (case acquire_tx_set ad (tx_set_hash peer_prop) of None \<Rightarrow> (ds, blobs)
         | Some peer_set \<Rightarrow>
             (let blobs = fold absorb_blob (ts_blobs peer_set) blobs;
                  ds = fold (vote_or_new True n False) (filter (\<lambda>tx. tx \<notin> set (ts_txs peer_set)) (ts_txs ours)) ds;
                  ds = fold (vote_or_new False n True) (filter (\<lambda>tx. tx \<notin> set (ts_txs ours)) (ts_txs peer_set)) ds;
                  ds = fold (vote_existing n True) (filter (\<lambda>tx. tx \<in> set (ts_txs peer_set)) (ts_txs ours)) ds
              in (ds, blobs))))"

definition create_disputes :: "adapter \<Rightarrow> engine \<Rightarrow> engine" where
  "create_disputes ad e =
     (case our_set e of None \<Rightarrow> e
      | Some ours \<Rightarrow>
          (let (ds, blobs) = fold (dispute_peer ad ours) (peer_positions e) (disputes e, tx_blobs e)
           in e\<lparr>disputes := ds, tx_blobs := blobs\<rparr>))"

subsection \<open>Proposals\<close>

definition note_peer :: "engine \<Rightarrow> proposal \<Rightarrow> engine" where
  "note_peer e p =
     (let e = (if 0 < prop_close_time p then e\<lparr>latest_peer_close_time := Some (prop_close_time p)\<rparr> else e)
      in if 0 < prop_ledger_seq p
         then e\<lparr>latest_peer_ledger_seq := Some (case latest_peer_ledger_seq e of
                 None \<Rightarrow> prop_ledger_seq p | Some s \<Rightarrow> max s (prop_ledger_seq p))\<rparr>
         else e)"

definition unl_admits :: "engine \<Rightarrow> proposal \<Rightarrow> bool" where
  "unl_admits e p \<longleftrightarrow> unl_is_empty (en_unl e) \<or> is_trusted (en_unl e) (prop_node_id p)"

definition peer_proposal_at :: "adapter \<Rightarrow> engine \<Rightarrow> proposal \<Rightarrow> nat \<Rightarrow> engine" where
  "peer_proposal_at ad e proposal now =
     (let e = note_peer e proposal in
      if en_phase e \<noteq> Establish then
        (if \<not> unl_admits e proposal then e
         else if PROPOSAL_FRESHNESS_SECS < abs_diff now (prop_close_time proposal)
         then e\<lparr>dropped_stale_total := wrap64 (dropped_stale_total e + 1)\<rparr>
         else if PENDING_PROPOSALS_MAX \<le> length (pending_proposals e) then e
         else e\<lparr>pending_proposals := pending_proposals e @ [proposal]\<rparr>)
      else if \<not> unl_admits e proposal then e
      else if PROPOSAL_FRESHNESS_SECS < abs_diff now (prop_close_time proposal)
      then e\<lparr>dropped_stale_total := wrap64 (dropped_stale_total e + 1)\<rparr>
      else if prop_prev_ledger proposal \<noteq> en_prev_ledger e then
        hold_future_proposal
          (e\<lparr>wrong_prev_ledger_votes := hm_insert (prop_node_id proposal) (prop_prev_ledger proposal)
               (wrong_prev_ledger_votes e),
             held_pending_total := wrap64 (held_pending_total e + 1)\<rparr>) proposal
      else if (case our_position e of None \<Rightarrow> False
         | Some our \<Rightarrow> prop_ledger_seq proposal \<noteq> 0 \<and> prop_ledger_seq proposal \<noteq> prop_ledger_seq our) then e
      else
        (let (t, accepted) = tracker_track (en_tracker e) proposal; e = e\<lparr>en_tracker := t\<rparr> in
         if \<not> accepted then e
         else create_disputes ad
           (e\<lparr>peer_positions := hm_insert (prop_node_id proposal) proposal (peer_positions e)\<rparr>)))"

text \<open>\<open>peer_proposal\<close> with the wall clock in seconds since the Unix epoch.\<close>

definition current_ripple_time :: "nat \<Rightarrow> nat" where
  "current_ripple_time unix_secs = wrap32 (unix_secs - RIPPLE_EPOCH_OFFSET_SECS)"

definition peer_proposal :: "adapter \<Rightarrow> engine \<Rightarrow> proposal \<Rightarrow> nat \<Rightarrow> engine" where
  "peer_proposal ad e proposal unix_secs = peer_proposal_at ad e proposal (current_ripple_time unix_secs)"

definition close_ledger :: "adapter \<Rightarrow> engine \<Rightarrow> tx_set \<Rightarrow> nat \<Rightarrow> nat \<Rightarrow> nat \<Rightarrow> engine \<times> (consensus_error + unit)" where
  "close_ledger ad e ours close_time ledger_seq now =
     (if en_phase e \<noteq> Open then (e, Inl (WrongPhase ''open'' (phase_to_string (en_phase e))))
      else
        (let proposal = \<lparr>prop_node_id = en_node_id e, prop_public_key = en_public_key e,
               tx_set_hash = ts_hash ours, prop_close_time = close_time, prop_seq = 0,
               prop_ledger_seq = ledger_seq, prop_prev_ledger = en_prev_ledger e, prop_signature = None\<rparr>;
             e = emit (PublishTxSet ours) (emit (Propose proposal) e);
             pending = pending_proposals e;
             e = e\<lparr>our_position := Some proposal,
                   tx_blobs := fold (\<lambda>(k, b) m. hm_insert k b m) (ts_blobs ours) [],
                   our_set := Some ours, en_phase := Establish,
                   establish_started_at := Some now, last_share_at := Some now,
                   last_round_advance := Some now, pending_proposals := []\<rparr>
         in (fold (\<lambda>p e. peer_proposal_at ad e p close_time) pending e, Inr ())))"

subsection \<open>Close time\<close>

text \<open>The vote of one close time: none for the sentinel 0 or below the floor.\<close>

definition tally_vote :: "nat \<Rightarrow> nat \<Rightarrow> nat \<Rightarrow> (nat, nat) hmap \<Rightarrow> (nat, nat) hmap" where
  "tally_vote resolution min_allowed t vs =
     (let rounded = round_close_time t resolution in
      if t = 0 \<or> rounded < min_allowed then vs else bump wrap32 rounded vs)"

definition close_time_votes :: "engine \<Rightarrow> nat \<Rightarrow> (nat, nat) hmap" where
  "close_time_votes e our_time =
     (let resolution = act_resolution (en_close_time e);
          min_allowed = sat_add32 (prior_close_time e) 1 in
      fold (tally_vote resolution min_allowed) (map prop_close_time (hm_values (peer_positions e)))
        (tally_vote resolution min_allowed our_time []))"

text \<open>The loop that picks the bucket with the most votes, the later one on ties.\<close>

definition best_vote :: "(nat, nat) hmap \<Rightarrow> nat \<times> nat" where
  "best_vote vs = fold (\<lambda>(bucket, cnt) (best_bucket, best_count).
     if best_count < cnt \<or> (cnt = best_count \<and> best_bucket < bucket) then (bucket, cnt)
     else (best_bucket, best_count)) vs (0, 0)"

definition effective_close_time :: "engine \<Rightarrow> nat \<times> bool" where
  "effective_close_time e =
     (case our_position e of None \<Rightarrow> (0, True)
      | Some pos \<Rightarrow>
          (let our_time = prop_close_time pos;
               resolution = act_resolution (en_close_time e);
               prior = prior_close_time e in
           if peer_positions e = [] then (eff_close_time our_time resolution prior, True)
           else
             (let vs = close_time_votes e our_time in
              if vs = [] then (eff_close_time our_time resolution prior, True)
              else
                (let (best_bucket, best_count) = best_vote vs;
                     surviving_votes = wrap32 (sum_list (hm_values vs)) in
                 if wrap32 (best_count * 2) \<le> surviving_votes then (eff_close_time 0 resolution prior, False)
                 else (eff_close_time best_bucket resolution prior, True)))))"

definition align_close_time_with_peers :: "engine \<Rightarrow> engine \<times> bool" where
  "align_close_time_with_peers e =
     (case our_position e of None \<Rightarrow> (e, False)
      | Some pos \<Rightarrow>
          if peer_positions e = [] then (e, False)
          else
            (let vs = close_time_votes e (prop_close_time pos) in
             if vs = [] then (e, False)
             else
               (let tot = sat_add32 (wrap32 (length (peer_positions e))) 1;
                    (best_bucket, best_count) = best_vote vs;
                    allow_tie_realign = (tot = 2 \<and> \<not> unl_is_empty (en_unl e)) in
                if wrap32 (best_count * 2) < tot
                   \<or> (\<not> allow_tie_realign \<and> wrap32 (best_count * 2) = tot) then (e, False)
                else if prop_close_time pos \<noteq> best_bucket
                then (e\<lparr>our_position := Some (pos\<lparr>prop_close_time := best_bucket\<rparr>)\<rparr>, True)
                else (e, False))))"

definition elapsed_ms :: "nat \<Rightarrow> nat \<Rightarrow> nat" where
  "elapsed_ms now t = (now - t) div 1000000"

definition min_consensus_time_elapsed :: "engine \<Rightarrow> nat \<Rightarrow> bool" where
  "min_consensus_time_elapsed e now =
     (let floor = min_consensus_time_ms (en_params e) in
      if floor = 0 then True
      else case establish_started_at e of Some started \<Rightarrow> floor \<le> elapsed_ms now started | None \<Rightarrow> True)"

subsection \<open>Acceptance and convergence\<close>

definition accept :: "adapter \<Rightarrow> engine \<Rightarrow> engine" where
  "accept ad e =
     (let (close_time, agreed) = effective_close_time e;
          e = e\<lparr>en_phase := Accepted, accepted_close_time := Some close_time,
                accepted_close_flags := (if agreed then accepted_close_flags e else 1),
                previous_close_agreed := agreed\<rparr> in
      case our_set e of None \<Rightarrow> e
      | Some ours \<Rightarrow>
          (let ledger_hash = on_accept_ledger ad ours close_time (accepted_close_flags e);
               ledger_seq = (case our_position e of Some p \<Rightarrow> prop_ledger_seq p | None \<Rightarrow> 0);
               validation = default_validation\<lparr>val_node_id := en_node_id e, val_public_key := en_public_key e,
                 val_ledger_hash := ledger_hash, val_ledger_seq := ledger_seq, val_full := True,
                 val_close_time := close_time, val_sign_time := close_time\<rparr>
           in (emit (OnAccept validation) e)\<lparr>accepted_validation := Some validation\<rparr>))"

text \<open>The loop over the disputes: the changed transaction list and whether it changed.\<close>

definition resolve_dispute :: "nat \<Rightarrow> disputed_tx \<Rightarrow> hash256 list \<times> bool \<Rightarrow> hash256 list \<times> bool" where
  "resolve_dispute threshold d st =
     (let (txs, changed) = st; should = dispute_our_vote d threshold in
      if should = d_our_vote d then (txs, changed)
      else if should then (if d_tx_hash d \<in> set txs then txs else txs @ [d_tx_hash d], True)
      else (filter (\<lambda>h. h \<noteq> d_tx_hash d) txs, True))"

text \<open>The dispute-resolution block of \<open>converge\<close>; the flag is \<open>set_changed\<close>.\<close>

definition resolve_disputes :: "(bytes \<Rightarrow> hash256) \<Rightarrow> engine \<Rightarrow> nat \<Rightarrow> engine \<times> bool" where
  "resolve_disputes sha e now =
     (case our_set e of None \<Rightarrow> (e, False)
      | Some ours \<Rightarrow>
          (let (new_txs, set_changed) = fold (resolve_dispute (avalanche_dispute_threshold (en_round e)))
                 (hm_values (disputes e)) (ts_txs ours, False) in
           if \<not> set_changed then (e, False)
           else
             (let items = map (\<lambda>tx. (tx, case hm_get (tx_blobs e) tx of Some b \<Rightarrow> b | None \<Rightarrow> [])) new_txs;
                  ours = tx_set_from_items sha items;
                  e = e\<lparr>our_set := Some ours\<rparr>;
                  e = (case our_position e of None \<Rightarrow> e
                       | Some pos \<Rightarrow>
                           (let pos = pos\<lparr>tx_set_hash := ts_hash ours, prop_seq := wrap32 (prop_seq pos + 1)\<rparr>
                            in (emit (SharePosition pos) (emit (PublishTxSet ours) e))
                                 \<lparr>our_position := Some pos, last_share_at := Some now\<rparr>))
              in (e\<lparr>disputes := map (\<lambda>(tx, d). (tx, d\<lparr>d_our_vote := d_tx_hash d \<in> set (ts_txs ours)\<rparr>)) (disputes e)\<rparr>,
                  True))))"

definition due :: "engine \<Rightarrow> nat option \<Rightarrow> nat \<Rightarrow> bool" where
  "due e since now = (case since of None \<Rightarrow> True | Some t \<Rightarrow> propose_interval_ms (en_params e) \<le> elapsed_ms now t)"

definition refresh_position :: "engine \<Rightarrow> bool \<Rightarrow> bool \<Rightarrow> nat \<Rightarrow> engine" where
  "refresh_position e close_realigned set_changed now =
     (let refresh_due = due e (last_share_at e) now;
          needs_refresh = (close_realigned \<or> refresh_due) in
      if needs_refresh \<and> \<not> set_changed then
        (case our_position e of None \<Rightarrow> e
         | Some pos \<Rightarrow>
             (let pos = pos\<lparr>prop_seq := sat_add32 (prop_seq pos) 1\<rparr>
              in (emit (SharePosition pos) e)\<lparr>our_position := Some pos, last_share_at := Some now\<rparr>))
      else e)"

definition self_in_unl :: "(bytes \<Rightarrow> hash256) \<Rightarrow> engine \<Rightarrow> bool" where
  "self_in_unl sha e \<longleftrightarrow> self_trusted e \<or> is_trusted (en_unl e) (en_node_id e)
     \<or> (en_public_key e \<noteq> [] \<and> is_trusted (en_unl e) (from_public_key sha (en_public_key e)))"

definition agrees_with :: "engine \<Rightarrow> proposal \<Rightarrow> proposal \<Rightarrow> bool" where
  "agrees_with e pos p \<longleftrightarrow> tx_set_hash p = tx_set_hash pos
     \<and> round_close_time (prop_close_time p) (act_resolution (en_close_time e))
       = round_close_time (prop_close_time pos) (act_resolution (en_close_time e))"

text \<open>Whether the positions reach agreement: a percentage without a UNL, the quorum with one.\<close>

definition agreement_reached :: "(bytes \<Rightarrow> hash256) \<Rightarrow> engine \<Rightarrow> proposal \<Rightarrow> nat \<Rightarrow> bool" where
  "agreement_reached sha e pos threshold =
     (if unl_is_empty (en_unl e) then
        (let tot = length (peer_positions e) + 1;
             agreeing = length (filter (\<lambda>p. tx_set_hash p = tx_set_hash pos) (hm_values (peer_positions e))) + 1;
             agreement_pct = (if 0 < tot then percent_of agreeing tot else 100)
         in threshold \<le> agreement_pct)
      else
        (let agreeing_unl = length (filter (\<lambda>p. is_trusted (en_unl e) (prop_node_id p) \<and> agrees_with e pos p)
               (hm_values (peer_positions e)));
             self_counts = (if self_in_unl sha e then 1 else 0)
         in quorum_threshold (en_unl e) \<le> agreeing_unl + self_counts))"

definition advance_round :: "adapter \<Rightarrow> engine \<Rightarrow> nat \<Rightarrow> engine \<times> bool" where
  "advance_round ad e now =
     (if \<not> due e (last_round_advance e) now then (e, False)
      else
        (let e = e\<lparr>en_round := wrap32 (en_round e + 1), last_round_advance := Some now\<rparr> in
         if max_consensus_rounds (en_params e) \<le> en_round e then
           (if peer_positions e = [] \<and> \<not> unl_is_empty (en_unl e)
            then (e\<lparr>en_round := max_consensus_rounds (en_params e)\<rparr>, False)
            else (accept ad e, True))
         else (e, False)))"

definition converge :: "(bytes \<Rightarrow> hash256) \<Rightarrow> adapter \<Rightarrow> engine \<Rightarrow> nat \<Rightarrow> engine \<times> bool" where
  "converge sha ad e now =
     (if en_phase e \<noteq> Establish then (e, False)
      else
        (let (e, close_realigned) = align_close_time_with_peers e;
             threshold = threshold_for_round (en_params e) (en_round e);
             (e, set_changed) = resolve_disputes sha e now;
             e = refresh_position e close_realigned set_changed now in
         case our_position e of None \<Rightarrow> (e, False)
         | Some pos \<Rightarrow>
             if agreement_reached sha e pos threshold then
               (if \<not> min_consensus_time_elapsed e now then (e, False) else (accept ad e, True))
             else advance_round ad e now))"

definition accepted_set :: "engine \<Rightarrow> hash256 option" where
  "accepted_set e = (if en_phase e = Accepted then map_option tx_set_hash (our_position e) else None)"

text \<open>The rounded median the node layer reads.\<close>

definition rounded_close_time :: "engine \<Rightarrow> nat option" where
  "rounded_close_time e =
     (if peer_positions e = [] then None
      else case our_position e of None \<Rightarrow> None
        | Some p \<Rightarrow>
            (let times = sort (prop_close_time p # map prop_close_time (hm_values (peer_positions e)))
             in Some (round_close_time (times ! (length times div 2)) (act_resolution (en_close_time e)))))"

end
