(* ===== verification/Engine_Safety.thy ===== *)
theory Engine_Safety
  imports Consensus_Engine
begin

text \<open>
  The consensus engine as a state machine: a step per handler, under any adapter, any clock and
  any peer traffic, and the invariants of its reachable states. The theorems give the phase
  discipline, the lockstep of the peer positions with the proposal tracker, the bounds of the
  buffers, and what an accepted ledger is backed by.
\<close>

subsection \<open>Steps\<close>

inductive engine_step :: "(bytes \<Rightarrow> hash256) \<Rightarrow> engine \<Rightarrow> engine \<Rightarrow> bool" for sha where
  step_start: "engine_step sha e (start_round_with_prior e h s prior)"
| step_peer: "engine_step sha e (peer_proposal_at ad e p now)"
| step_close: "engine_step sha e (fst (close_ledger ad e ours ct s now))"
| step_converge: "engine_step sha e (fst (converge sha ad e now))"
| step_unl: "engine_step sha e (e\<lparr>en_unl := u, en_nunl := t, self_trusted := b\<rparr>)"
| step_validations: "engine_step sha e (e\<lparr>en_validations := v\<rparr>)"

inductive engine_reachable :: "(bytes \<Rightarrow> hash256) \<Rightarrow> engine \<Rightarrow> bool" for sha where
  reach_new: "engine_reachable sha (engine_new_with_unl n pk params u)"
| reach_step: "engine_reachable sha e \<Longrightarrow> engine_step sha e e' \<Longrightarrow> engine_reachable sha e'"

subsection \<open>What each handler leaves alone\<close>

lemma note_peer_fields [simp]:
  "en_params (note_peer e p) = en_params e" "en_phase (note_peer e p) = en_phase e"
  "our_position (note_peer e p) = our_position e" "our_set (note_peer e p) = our_set e"
  "peer_positions (note_peer e p) = peer_positions e" "en_tracker (note_peer e p) = en_tracker e"
  "disputes (note_peer e p) = disputes e" "en_round (note_peer e p) = en_round e"
  "en_prev_ledger (note_peer e p) = en_prev_ledger e" "en_node_id (note_peer e p) = en_node_id e"
  "en_unl (note_peer e p) = en_unl e" "pending_proposals (note_peer e p) = pending_proposals e"
  "wrong_prev_ledger_votes (note_peer e p) = wrong_prev_ledger_votes e"
  "future_proposals (note_peer e p) = future_proposals e" "tx_blobs (note_peer e p) = tx_blobs e"
  "accepted_close_time (note_peer e p) = accepted_close_time e"
  "accepted_validation (note_peer e p) = accepted_validation e"
  "dropped_stale_total (note_peer e p) = dropped_stale_total e"
  by (simp_all add: note_peer_def Let_def)

lemma hold_future_fields [simp]:
  "en_params (hold_future_proposal e p) = en_params e" "en_phase (hold_future_proposal e p) = en_phase e"
  "our_position (hold_future_proposal e p) = our_position e" "our_set (hold_future_proposal e p) = our_set e"
  "peer_positions (hold_future_proposal e p) = peer_positions e"
  "en_tracker (hold_future_proposal e p) = en_tracker e" "disputes (hold_future_proposal e p) = disputes e"
  "en_round (hold_future_proposal e p) = en_round e" "en_prev_ledger (hold_future_proposal e p) = en_prev_ledger e"
  "en_node_id (hold_future_proposal e p) = en_node_id e" "en_unl (hold_future_proposal e p) = en_unl e"
  "pending_proposals (hold_future_proposal e p) = pending_proposals e"
  "wrong_prev_ledger_votes (hold_future_proposal e p) = wrong_prev_ledger_votes e"
  "accepted_close_time (hold_future_proposal e p) = accepted_close_time e"
  "accepted_validation (hold_future_proposal e p) = accepted_validation e"
  by (simp_all add: hold_future_proposal_def Let_def)

lemma create_disputes_fields [simp]:
  "en_params (create_disputes ad e) = en_params e" "en_phase (create_disputes ad e) = en_phase e"
  "our_position (create_disputes ad e) = our_position e" "our_set (create_disputes ad e) = our_set e"
  "peer_positions (create_disputes ad e) = peer_positions e" "en_tracker (create_disputes ad e) = en_tracker e"
  "en_round (create_disputes ad e) = en_round e" "en_prev_ledger (create_disputes ad e) = en_prev_ledger e"
  "en_node_id (create_disputes ad e) = en_node_id e" "en_unl (create_disputes ad e) = en_unl e"
  "pending_proposals (create_disputes ad e) = pending_proposals e"
  "wrong_prev_ledger_votes (create_disputes ad e) = wrong_prev_ledger_votes e"
  "future_proposals (create_disputes ad e) = future_proposals e"
  "accepted_close_time (create_disputes ad e) = accepted_close_time e"
  "accepted_validation (create_disputes ad e) = accepted_validation e"
  by (simp_all add: create_disputes_def split: option.split prod.split)

lemma emit_fields [simp]:
  "en_params (emit ev e) = en_params e" "en_phase (emit ev e) = en_phase e"
  "our_position (emit ev e) = our_position e" "our_set (emit ev e) = our_set e"
  "peer_positions (emit ev e) = peer_positions e" "en_tracker (emit ev e) = en_tracker e"
  "disputes (emit ev e) = disputes e" "en_round (emit ev e) = en_round e"
  "en_prev_ledger (emit ev e) = en_prev_ledger e" "en_node_id (emit ev e) = en_node_id e"
  "en_unl (emit ev e) = en_unl e" "pending_proposals (emit ev e) = pending_proposals e"
  "wrong_prev_ledger_votes (emit ev e) = wrong_prev_ledger_votes e"
  "future_proposals (emit ev e) = future_proposals e" "tx_blobs (emit ev e) = tx_blobs e"
  "accepted_close_time (emit ev e) = accepted_close_time e"
  "accepted_validation (emit ev e) = accepted_validation e"
  "en_close_time (emit ev e) = en_close_time e" "prior_close_time (emit ev e) = prior_close_time e"
  "self_trusted (emit ev e) = self_trusted e" "en_public_key (emit ev e) = en_public_key e"
  by (simp_all add: emit_def)

text \<open>The outcomes of a delivery during the establish phase.\<close>

lemma peer_proposal_cases:
  obtains (ignored) e' where "peer_proposal_at ad e p now = e'" "e' = note_peer e p \<or>
      e' = (note_peer e p)\<lparr>dropped_stale_total := wrap64 (dropped_stale_total e + 1)\<rparr>"
  | (buffered) "en_phase e \<noteq> Establish" "unl_admits e p" "length (pending_proposals e) < PENDING_PROPOSALS_MAX"
      "peer_proposal_at ad e p now = (note_peer e p)\<lparr>pending_proposals := pending_proposals e @ [p]\<rparr>"
  | (held) k where "en_phase e = Establish" "unl_admits e p" "prop_prev_ledger p \<noteq> en_prev_ledger e"
      "peer_proposal_at ad e p now = hold_future_proposal ((note_peer e p)
         \<lparr>wrong_prev_ledger_votes := hm_insert (prop_node_id p) (prop_prev_ledger p) (wrong_prev_ledger_votes e),
          held_pending_total := k\<rparr>) p"
  | (rejected) t where "en_phase e = Establish" "prop_prev_ledger p = en_prev_ledger e"
      "tracker_track (en_tracker e) p = (t, False)"
      "peer_proposal_at ad e p now = (note_peer e p)\<lparr>en_tracker := t\<rparr>"
  | (accepted) t where "en_phase e = Establish" "unl_admits e p" "prop_prev_ledger p = en_prev_ledger e"
      "abs_diff now (prop_close_time p) \<le> PROPOSAL_FRESHNESS_SECS"
      "tracker_track (en_tracker e) p = (t, True)"
      "peer_proposal_at ad e p now = create_disputes ad ((note_peer e p)
         \<lparr>en_tracker := t, peer_positions := hm_insert (prop_node_id p) p (peer_positions e)\<rparr>)"
proof -
  obtain t b where t: "tracker_track (en_tracker e) p = (t, b)" by fastforce
  have adm: "unl_admits (note_peer e p) p = unl_admits e p" by (simp add: unl_admits_def)
  note d = peer_proposal_at_def Let_def adm
  let ?r = "peer_proposal_at ad e p now" and ?e = "note_peer e p"
  let ?stale = "PROPOSAL_FRESHNESS_SECS < abs_diff now (prop_close_time p)"
  let ?other = "case our_position e of None \<Rightarrow> False
     | Some our \<Rightarrow> prop_ledger_seq p \<noteq> 0 \<and> prop_ledger_seq p \<noteq> prop_ledger_seq our"
  consider (untrusted) "\<not> unl_admits e p" | (stale) "unl_admits e p" "?stale"
    | (full) "unl_admits e p" "\<not> ?stale" "en_phase e \<noteq> Establish" "PENDING_PROPOSALS_MAX \<le> length (pending_proposals e)"
    | (room) "unl_admits e p" "\<not> ?stale" "en_phase e \<noteq> Establish" "length (pending_proposals e) < PENDING_PROPOSALS_MAX"
    | (future) "unl_admits e p" "\<not> ?stale" "en_phase e = Establish" "prop_prev_ledger p \<noteq> en_prev_ledger e"
    | (seq) "unl_admits e p" "\<not> ?stale" "en_phase e = Establish" "prop_prev_ledger p = en_prev_ledger e" "?other"
    | (track) "unl_admits e p" "\<not> ?stale" "en_phase e = Establish" "prop_prev_ledger p = en_prev_ledger e" "\<not> ?other"
    by linarith
  then show ?thesis
  proof cases
    case untrusted
    then have "?r = ?e" by (simp add: d)
    then show ?thesis by (rule ignored) simp
  next
    case stale
    then have "?r = ?e\<lparr>dropped_stale_total := wrap64 (dropped_stale_total e + 1)\<rparr>" by (simp add: d)
    then show ?thesis by (rule ignored) simp
  next
    case full
    then have "?r = ?e" by (simp add: d)
    then show ?thesis by (rule ignored) simp
  next
    case room
    then have "?r = ?e\<lparr>pending_proposals := pending_proposals e @ [p]\<rparr>" by (simp add: d)
    from buffered [OF room(3,1,4) this] show ?thesis .
  next
    case future
    then have "?r = hold_future_proposal (?e\<lparr>wrong_prev_ledger_votes := hm_insert (prop_node_id p) (prop_prev_ledger p)
        (wrong_prev_ledger_votes e), held_pending_total := wrap64 (held_pending_total ?e + 1)\<rparr>) p"
      by (simp add: d)
    from held [OF future(3,1,4) this] show ?thesis .
  next
    case seq
    then have "?r = ?e" by (simp add: d)
    then show ?thesis by (rule ignored) simp
  next
    case track
    show ?thesis
    proof (cases b)
      case True
      then have "?r = create_disputes ad (?e\<lparr>en_tracker := t,
          peer_positions := hm_insert (prop_node_id p) p (peer_positions e)\<rparr>)"
        using track t by (simp add: d)
      from accepted [OF track(3,1,4) _ _ this] track(2) t True show ?thesis by (simp add: not_less)
    next
      case False
      then have "?r = ?e\<lparr>en_tracker := t\<rparr>" using track t by (simp add: d)
      from rejected [OF track(3,4) _ this] t False show ?thesis by simp
    qed
  qed
qed

text \<open>Convergence touches our own position only: what came from the network stays.\<close>

definition same_net :: "engine \<Rightarrow> engine \<Rightarrow> bool" where
  "same_net e e' \<longleftrightarrow> peer_positions e' = peer_positions e \<and> en_tracker e' = en_tracker e
     \<and> en_prev_ledger e' = en_prev_ledger e \<and> en_unl e' = en_unl e
     \<and> pending_proposals e' = pending_proposals e \<and> future_proposals e' = future_proposals e
     \<and> wrong_prev_ledger_votes e' = wrong_prev_ledger_votes e \<and> en_params e' = en_params e
     \<and> en_node_id e' = en_node_id e \<and> en_public_key e' = en_public_key e
     \<and> en_close_time e' = en_close_time e \<and> prior_close_time e' = prior_close_time e
     \<and> self_trusted e' = self_trusted e \<and> establish_started_at e' = establish_started_at e"

lemma same_net_refl [simp]: "same_net e e"
  by (simp add: same_net_def)

lemma same_net_trans: "same_net e e' \<Longrightarrow> same_net e' e'' \<Longrightarrow> same_net e e''"
  by (simp add: same_net_def)

lemma same_net_align [simp]: "same_net e (fst (align_close_time_with_peers e))"
  by (simp add: align_close_time_with_peers_def same_net_def Let_def split: option.split prod.split)

lemma emit_started [simp]: "establish_started_at (emit ev e) = establish_started_at e"
  by (simp add: emit_def)

lemma same_net_resolve [simp]: "same_net e (fst (resolve_disputes sha e now))"
  by (simp add: resolve_disputes_def same_net_def Let_def split: option.split prod.split)

lemma same_net_refresh [simp]: "same_net e (refresh_position e a b now)"
  by (simp add: refresh_position_def same_net_def Let_def split: option.split)

lemma same_net_accept [simp]: "same_net e (accept ad e)"
  by (simp add: accept_def same_net_def Let_def split: option.split prod.split)

lemma same_net_round: "same_net e (e\<lparr>en_round := r, last_round_advance := t\<rparr>)" "same_net e (e\<lparr>en_round := r\<rparr>)"
  by (simp_all add: same_net_def)

lemma same_net_advance [simp]: "same_net e (fst (advance_round ad e now))"
proof -
  have "same_net e (accept ad (e\<lparr>en_round := r, last_round_advance := t\<rparr>))" for r t
    by (rule same_net_trans [OF same_net_round(1) same_net_accept])
  then show ?thesis unfolding advance_round_def Let_def by (simp add: same_net_def)
qed

text \<open>The engine right before the agreement test of \<open>converge\<close>.\<close>

definition converge_prepare :: "(bytes \<Rightarrow> hash256) \<Rightarrow> engine \<Rightarrow> nat \<Rightarrow> engine" where
  "converge_prepare sha e now =
     (let (e1, close_realigned) = align_close_time_with_peers e;
          (e2, set_changed) = resolve_disputes sha e1 now
      in refresh_position e2 close_realigned set_changed now)"

lemma same_net_prepare [simp]: "same_net e (converge_prepare sha e now)"
proof -
  obtain e1 r where 1: "align_close_time_with_peers e = (e1, r)" by fastforce
  obtain e2 c where 2: "resolve_disputes sha e1 now = (e2, c)" by fastforce
  have "same_net e e1" using same_net_align [of e] 1 by simp
  moreover have "same_net e1 e2" using same_net_resolve [of e1 sha now] 2 by simp
  moreover have "same_net e2 (refresh_position e2 r c now)" by simp
  ultimately have "same_net e (refresh_position e2 r c now)" using same_net_trans by blast
  then show ?thesis by (simp add: converge_prepare_def 1 2)
qed

lemma prepare_round: "en_round (fst (align_close_time_with_peers e)) = en_round e"
  by (simp add: align_close_time_with_peers_def Let_def split: option.split prod.split)

lemma converge_alt:
  "converge sha ad e now =
     (if en_phase e \<noteq> Establish then (e, False)
      else
        (let e' = converge_prepare sha e now in
         case our_position e' of None \<Rightarrow> (e', False)
         | Some pos \<Rightarrow>
             if agreement_reached sha e' pos (threshold_for_round (en_params e) (en_round e)) then
               (if \<not> min_consensus_time_elapsed e' now then (e', False) else (accept ad e', True))
             else advance_round ad e' now))"
proof -
  obtain e1 r where 1: "align_close_time_with_peers e = (e1, r)" by fastforce
  obtain e2 c where 2: "resolve_disputes sha e1 now = (e2, c)" by fastforce
  have "en_params e1 = en_params e" "en_round e1 = en_round e"
    using same_net_align [of e] prepare_round [of e] 1 by (simp_all add: same_net_def)
  then show ?thesis by (simp add: converge_def converge_prepare_def 1 2 Let_def cong: option.case_cong)
qed

lemma same_net_converge: "same_net e (fst (converge sha ad e now))"
proof (cases "en_phase e = Establish")
  case True
  let ?e = "converge_prepare sha e now"
  have net: "same_net e ?e" by simp
  show ?thesis
    unfolding converge_alt using True
    by (auto simp: Let_def split: option.split intro: net same_net_trans [OF net])
qed (simp add: converge_def)

subsection \<open>Peer positions and the tracker\<close>

definition inv_peers :: "engine \<Rightarrow> bool" where
  "inv_peers e \<longleftrightarrow> tracker_wf (en_tracker e) \<and> set (prev_ledger_order (en_tracker e)) \<subseteq> {en_prev_ledger e}
     \<and> hm_wf (peer_positions e)
     \<and> (\<forall>n. hm_get (peer_positions e) n = tracker_get (en_tracker e) n (en_prev_ledger e))"

lemma tracker_empty:
  assumes "tracker_wf t" and "prev_ledger_order t = []"
  shows "pt_proposals t = []"
  using assms by (simp add: tracker_wf_def keys_wf_def)

lemma track_lockstep:
  assumes wf: "tracker_wf t" and ord: "set (prev_ledger_order t) \<subseteq> {h}" and p: "prop_prev_ledger p = h"
    and tr: "tracker_track t p = (t', b)"
  shows "tracker_wf t' \<and> set (prev_ledger_order t') \<subseteq> {h}
    \<and> (\<forall>n. tracker_get t' n h = (if b \<and> n = prop_node_id p then Some p else tracker_get t n h))"
  using wf
proof (cases rule: tracker_track_cases [where p = p])
  case (fresh props ord')
  have nil: "prev_ledger_order t = []" using fresh(2) ord p by (cases "prev_ledger_order t") auto
  have "ord' = []" "props = []" using fresh(5,6) nil tracker_empty [OF wf nil] by auto
  then show ?thesis
    using fresh(7) tr p tracker_wf_track [OF wf, of p] tracker_empty [OF wf nil]
    by (auto simp: tracker_get_def)
qed (use tr p ord wf tracker_wf_track [OF wf, of p] in \<open>auto simp: tracker_get_def hm_get_insert\<close>)

lemma inv_peers_cong:
  assumes "inv_peers e" and "peer_positions e' = peer_positions e" and "en_tracker e' = en_tracker e"
    and "en_prev_ledger e' = en_prev_ledger e"
  shows "inv_peers e'"
  using assms by (simp add: inv_peers_def)

lemma inv_peers_peer:
  assumes "inv_peers e"
  shows "inv_peers (peer_proposal_at ad e p now)"
proof (cases rule: peer_proposal_cases [where ad = ad and e = e and p = p and now = now])
  case (ignored e')
  then show ?thesis using inv_peers_cong [OF assms] by auto
next
  case (rejected t)
  have "inv_peers ((note_peer e p)\<lparr>en_tracker := t\<rparr>)"
    using track_lockstep [OF _ _ rejected(2,3)] assms by (simp add: inv_peers_def)
  then show ?thesis by (simp add: rejected(4))
next
  case (accepted t)
  have "inv_peers ((note_peer e p)\<lparr>en_tracker := t, peer_positions := hm_insert (prop_node_id p) p (peer_positions e)\<rparr>)"
    using track_lockstep [OF _ _ accepted(3,5)] assms by (simp add: inv_peers_def hm_simps)
  then show ?thesis by (rule inv_peers_cong) (simp_all add: accepted(6))
qed (use inv_peers_cong [OF assms] in simp_all)

subsection \<open>The other invariants\<close>

definition own_ok :: "engine \<Rightarrow> bool" where
  "own_ok e \<longleftrightarrow> (\<exists>pos ts. our_position e = Some pos \<and> our_set e = Some ts \<and> tx_set_hash pos = ts_hash ts
     \<and> prop_prev_ledger pos = en_prev_ledger e \<and> prop_node_id pos = en_node_id e)"

definition accepted_ok :: "engine \<Rightarrow> bool" where
  "accepted_ok e \<longleftrightarrow> (\<exists>t v. accepted_close_time e = Some t \<and> accepted_validation e = Some v
     \<and> val_close_time v = t \<and> val_node_id v = en_node_id e)"

definition inv_phase :: "engine \<Rightarrow> bool" where
  "inv_phase e \<longleftrightarrow> (case en_phase e of
       Open \<Rightarrow> our_position e = None \<and> our_set e = None \<and> peer_positions e = [] \<and> disputes e = []
     | Establish \<Rightarrow> own_ok e
     | Accepted \<Rightarrow> own_ok e \<and> accepted_ok e)"

definition inv_future :: "engine \<Rightarrow> bool" where
  "inv_future e \<longleftrightarrow> hm_wf (future_proposals e) \<and> length (future_proposals e) \<le> FUTURE_PROPOSALS_MAX_KEYS
     \<and> (\<forall>g\<in>set (future_proposals e). snd g \<noteq> [] \<and> length (snd g) \<le> FUTURE_PROPOSALS_MAX_PER_KEY)"

definition inv_wrong :: "engine \<Rightarrow> bool" where
  "inv_wrong e \<longleftrightarrow> hm_wf (wrong_prev_ledger_votes e)
     \<and> (\<forall>v\<in>set (wrong_prev_ledger_votes e). snd v \<noteq> en_prev_ledger e)"

definition dispute_ok :: "tx_set \<Rightarrow> hash256 \<Rightarrow> disputed_tx \<Rightarrow> bool" where
  "dispute_ok ours tx d \<longleftrightarrow> d_tx_hash d = tx \<and> hm_wf (d_votes d) \<and> d_our_vote d = (tx \<in> set (ts_txs ours))"

definition disputes_ok :: "tx_set \<Rightarrow> (hash256, disputed_tx) hmap \<Rightarrow> bool" where
  "disputes_ok ours ds \<longleftrightarrow> hm_wf ds \<and> (\<forall>p\<in>set ds. dispute_ok ours (fst p) (snd p))"

definition inv_disputes :: "engine \<Rightarrow> bool" where
  "inv_disputes e \<longleftrightarrow> (case our_set e of None \<Rightarrow> disputes e = [] | Some ours \<Rightarrow> disputes_ok ours (disputes e))"

definition engine_inv :: "engine \<Rightarrow> bool" where
  "engine_inv e \<longleftrightarrow> inv_peers e \<and> inv_phase e \<and> inv_future e \<and> inv_wrong e \<and> inv_disputes e"

subsubsection \<open>Held proposals\<close>

lemma min_by_seq_in: "m \<noteq> [] \<Longrightarrow> \<exists>k\<in>set (hm_keys m). min_by_seq m = Some k"
proof -
  define f where "f = (\<lambda>(p :: hash256 \<times> proposal list) best. case best of None \<Rightarrow> Some p
     | Some b \<Rightarrow> if min_seq (snd p) < min_seq (snd b) then Some p else Some b)"
  have "\<exists>p\<in>insert q (set m). fold f m (Some q) = Some p" for q m
  proof (induction m arbitrary: q)
    case (Cons a m)
    have "f a (Some q) = Some a \<or> f a (Some q) = Some q" by (simp add: f_def)
    then show ?case using Cons.IH [of a] Cons.IH [of q] by auto
  qed simp
  then show "m \<noteq> [] \<Longrightarrow> ?thesis"
    unfolding min_by_seq_def f_def [symmetric] by (cases m) (auto simp: f_def, force)
qed

lemma inv_future_hold:
  assumes "inv_future e"
  shows "inv_future (hold_future_proposal e p)"
proof -
  let ?k = "prop_prev_ledger p"
  define g where "g = (case hm_get (future_proposals e) ?k of Some ps \<Rightarrow> ps | None \<Rightarrow> [])"
  define g1 where "g1 = (if FUTURE_PROPOSALS_MAX_PER_KEY \<le> length g then tl g else g)"
  define g2 where "g2 = filter (\<lambda>q. prop_node_id q \<noteq> prop_node_id p) g1 @ [p]"
  define m where "m = hm_insert ?k g2 (future_proposals e)"
  have wf: "hm_wf (future_proposals e)" using assms by (simp add: inv_future_def)
  have "length g \<le> FUTURE_PROPOSALS_MAX_PER_KEY"
  proof (cases "hm_get (future_proposals e) ?k")
    case (Some ps)
    from hm_get_in [OF this] assms have "length ps \<le> FUTURE_PROPOSALS_MAX_PER_KEY"
      by (force simp: inv_future_def)
    then show ?thesis by (simp add: g_def Some)
  qed (simp add: g_def)
  then have "length g1 < FUTURE_PROPOSALS_MAX_PER_KEY"
    by (auto simp: g1_def FUTURE_PROPOSALS_MAX_PER_KEY_def)
  moreover have "length (filter (\<lambda>q. prop_node_id q \<noteq> prop_node_id p) g1) \<le> length g1" by (rule length_filter_le)
  ultimately have "length (filter (\<lambda>q. prop_node_id q \<noteq> prop_node_id p) g1) < FUTURE_PROPOSALS_MAX_PER_KEY"
    by (rule le_less_trans [rotated])
  then have g2: "g2 \<noteq> []" "length g2 \<le> FUTURE_PROPOSALS_MAX_PER_KEY" by (simp_all add: g2_def)
  have m: "hm_wf m" unfolding m_def using wf by (rule hm_wf_insert)
  have m_groups: "\<forall>q\<in>set m. snd q \<noteq> [] \<and> length (snd q) \<le> FUTURE_PROPOSALS_MAX_PER_KEY"
    using assms g2 unfolding m_def set_hm_insert [OF wf] inv_future_def by simp
  have m_len: "length m \<le> Suc FUTURE_PROPOSALS_MAX_KEYS"
    using assms by (simp add: m_def inv_future_def hm_len_insert)
  have hold: "hold_future_proposal e p = e\<lparr>future_proposals :=
      if FUTURE_PROPOSALS_MAX_KEYS < length m
      then (case min_by_seq m of Some victim \<Rightarrow> hm_remove victim m | None \<Rightarrow> m) else m\<rparr>"
    unfolding hold_future_proposal_def Let_def g_def g1_def g2_def m_def by (rule refl)
  show ?thesis
  proof (cases "FUTURE_PROPOSALS_MAX_KEYS < length m")
    case False
    with m m_groups hold show ?thesis by (simp add: inv_future_def)
  next
    case True
    then have "m \<noteq> []" by auto
    then obtain k where k: "k \<in> set (hm_keys m)" "min_by_seq m = Some k" using min_by_seq_in by blast
    have "length (hm_remove k m) \<le> FUTURE_PROPOSALS_MAX_KEYS" using hm_len_remove [OF k(1)] m_len by simp
    with m m_groups k True hold show ?thesis by (simp add: inv_future_def set_hm_remove hm_wf_remove)
  qed
qed

lemma inv_future_cong: "inv_future e \<Longrightarrow> future_proposals e' = future_proposals e \<Longrightarrow> inv_future e'"
  by (simp add: inv_future_def)

lemma inv_future_start:
  assumes "inv_future e"
  shows "inv_future (start_round_with_prior e h s prior)"
proof -
  define P where "P = (\<lambda>p :: proposal. s \<le> wrap32 (prop_ledger_seq p + FUTURE_PROPOSALS_STALE_LEDGERS))"
  define rest where "rest = hm_remove h (future_proposals e)"
  have fp: "future_proposals (start_round_with_prior e h s prior)
      = filter (\<lambda>(_, ps). ps \<noteq> []) (map (\<lambda>(k, ps). (k, filter P ps)) rest)"
    by (simp add: start_round_with_prior_def Let_def P_def rest_def)
  have rest: "hm_wf rest" "length rest \<le> FUTURE_PROPOSALS_MAX_KEYS"
    "\<forall>g\<in>set rest. length (snd g) \<le> FUTURE_PROPOSALS_MAX_PER_KEY"
    using assms hm_len_remove_le [of h "future_proposals e"]
    by (auto simp: inv_future_def rest_def hm_wf_remove set_hm_remove)
  let ?new = "map (\<lambda>(k, ps). (k, filter P ps)) rest"
  have "hm_keys ?new = hm_keys rest" by (induction rest) auto
  then have "hm_wf ?new" using rest(1) by (simp only:)
  then have "hm_wf (filter (\<lambda>(_, ps). ps \<noteq> []) ?new)" by (rule distinct_map_filter)
  moreover have "length (filter (\<lambda>(_, ps). ps \<noteq> []) ?new) \<le> length ?new" by (rule length_filter_le)
  then have "length (filter (\<lambda>(_, ps). ps \<noteq> []) ?new) \<le> FUTURE_PROPOSALS_MAX_KEYS"
    using rest(2) unfolding length_map by (rule le_trans)
  moreover have "snd g \<noteq> [] \<and> length (snd g) \<le> FUTURE_PROPOSALS_MAX_PER_KEY"
    if "g \<in> set (filter (\<lambda>(_, ps). ps \<noteq> []) ?new)" for g
  proof -
    from that obtain q where q: "q \<in> set rest" "snd g = filter P (snd q)" "snd g \<noteq> []" by auto
    have "length (filter P (snd q)) \<le> FUTURE_PROPOSALS_MAX_PER_KEY"
      using length_filter_le rest(3) [rule_format, OF q(1)] by (rule le_trans)
    then show ?thesis using q(3) unfolding q(2) by blast
  qed
  ultimately show ?thesis unfolding inv_future_def fp by blast
qed

subsubsection \<open>Disputes\<close>

lemma disputes_ok_get: "disputes_ok ours ds \<Longrightarrow> hm_get ds tx = Some d \<Longrightarrow> dispute_ok ours tx d"
  using hm_get_in unfolding disputes_ok_def by fastforce

lemma dispute_ok_vote: "dispute_ok ours tx d \<Longrightarrow> dispute_ok ours tx (dispute_vote d n b)"
  by (simp add: dispute_ok_def dispute_vote_def hm_wf_insert)

lemma disputes_ok_insert:
  assumes "disputes_ok ours ds" and "dispute_ok ours tx d"
  shows "disputes_ok ours (hm_insert tx d ds)"
proof -
  have wf: "hm_wf ds" using assms(1) by (simp add: disputes_ok_def)
  show ?thesis
    using assms unfolding disputes_ok_def set_hm_insert [OF wf] by (simp add: hm_wf_insert)
qed

lemma disputes_ok_existing: "disputes_ok ours ds \<Longrightarrow> disputes_ok ours (vote_existing n b tx ds)"
  by (auto simp: vote_existing_def split: option.split
      intro: disputes_ok_insert dispute_ok_vote disputes_ok_get)

lemma disputes_ok_or_new:
  assumes "disputes_ok ours ds" and "ours_vote = (tx \<in> set (ts_txs ours))"
  shows "disputes_ok ours (vote_or_new ours_vote n b tx ds)"
proof -
  have "dispute_ok ours tx (case hm_get ds tx of Some d \<Rightarrow> d | None \<Rightarrow> dispute_new tx ours_vote)"
    using assms disputes_ok_get by (auto simp: dispute_ok_def dispute_new_def split: option.split)
  then show ?thesis
    unfolding vote_or_new_def Let_def by (intro disputes_ok_insert [OF assms(1)] dispute_ok_vote)
qed

lemma fold_preserves: "(\<And>x s. x \<in> set xs \<Longrightarrow> P s \<Longrightarrow> P (f x s)) \<Longrightarrow> P s \<Longrightarrow> P (fold f xs s)"
  by (induction xs arbitrary: s) auto

lemma disputes_ok_peer:
  assumes "disputes_ok ours (fst st)"
  shows "disputes_ok ours (fst (dispute_peer ad ours np st))"
proof -
  obtain n p ds blobs where np: "np = (n, p)" and st: "st = (ds, blobs)" by (cases np, cases st)
  have ok: "disputes_ok ours ds" using assms by (simp add: st)
  have ex: "disputes_ok ours (fold (vote_existing n b) txs ds)" if "disputes_ok ours ds" for b txs ds
    using that by (rule fold_preserves [rotated]) (rule disputes_ok_existing)
  have nw: "disputes_ok ours (fold (vote_or_new ov n b) txs ds)"
    if "disputes_ok ours ds" "\<And>tx. tx \<in> set txs \<Longrightarrow> ov = (tx \<in> set (ts_txs ours))" for ov b txs ds
    using that(1) by (rule fold_preserves [rotated]) (rule disputes_ok_or_new [OF _ that(2)])
  show ?thesis
  proof (cases "tx_set_hash p = ts_hash ours")
    case True
    then show ?thesis using ex [OF ok] by (simp add: dispute_peer_def np st)
  next
    case False
    show ?thesis
    proof (cases "acquire_tx_set ad (tx_set_hash p)")
      case None
      with False ok show ?thesis by (simp add: dispute_peer_def np st)
    next
      case (Some ps)
      have "disputes_ok ours (fold (vote_existing n True) (filter (\<lambda>tx. tx \<in> set (ts_txs ps)) (ts_txs ours))
          (fold (vote_or_new False n True) (filter (\<lambda>tx. tx \<notin> set (ts_txs ours)) (ts_txs ps))
            (fold (vote_or_new True n False) (filter (\<lambda>tx. tx \<notin> set (ts_txs ps)) (ts_txs ours)) ds)))"
        by (intro ex nw ok) auto
      with False Some show ?thesis by (simp add: dispute_peer_def np st Let_def)
    qed
  qed
qed

lemma create_disputes_ok:
  assumes "our_set e = Some ours" and "disputes_ok ours (disputes e)"
  shows "disputes_ok ours (disputes (create_disputes ad e))"
proof -
  have "disputes_ok ours (fst (fold (dispute_peer ad ours) (peer_positions e) (disputes e, tx_blobs e)))"
    by (rule fold_preserves [where P = "\<lambda>st. disputes_ok ours (fst st)"]) (simp_all add: disputes_ok_peer assms)
  then show ?thesis using assms(1) by (simp add: create_disputes_def case_prod_unfold Let_def)
qed

lemma inv_disputes_cong:
  "inv_disputes e \<Longrightarrow> our_set e' = our_set e \<Longrightarrow> disputes e' = disputes e \<Longrightarrow> inv_disputes e'"
  by (simp add: inv_disputes_def split: option.splits)

lemma inv_disputes_peer:
  assumes "inv_disputes e" and "inv_phase e"
  shows "inv_disputes (peer_proposal_at ad e p now)"
proof (cases rule: peer_proposal_cases [where ad = ad and e = e and p = p and now = now])
  case (ignored e')
  then show ?thesis using inv_disputes_cong [OF assms(1)] by auto
next
  case (accepted t)
  obtain ours where ours: "our_set e = Some ours" using assms(2) accepted(1) by (auto simp: inv_phase_def own_ok_def)
  then have "disputes_ok ours (disputes e)" using assms(1) by (simp add: inv_disputes_def)
  with ours show ?thesis unfolding accepted(6) inv_disputes_def by (simp add: create_disputes_ok)
qed (use inv_disputes_cong [OF assms(1)] in simp_all)

lemma inv_disputes_resolve:
  assumes "inv_disputes e"
  shows "inv_disputes (fst (resolve_disputes sha e now))"
proof (cases "our_set e")
  case None
  with assms show ?thesis by (simp add: resolve_disputes_def)
next
  case (Some ours)
  obtain txs c where r: "fold (resolve_dispute (avalanche_dispute_threshold (en_round e)))
      (hm_values (disputes e)) (ts_txs ours, False) = (txs, c)" by fastforce
  show ?thesis
  proof (cases c)
    case False
    with assms Some r show ?thesis by (simp add: resolve_disputes_def)
  next
    case True
    define new where "new = tx_set_from_items sha (map (\<lambda>tx. (tx, case hm_get (tx_blobs e) tx of Some b \<Rightarrow> b | None \<Rightarrow> [])) txs)"
    let ?f = "\<lambda>(tx, d :: disputed_tx). (tx, d\<lparr>d_our_vote := d_tx_hash d \<in> set (ts_txs new)\<rparr>)"
    have res: "our_set (fst (resolve_disputes sha e now)) = Some new"
      "disputes (fst (resolve_disputes sha e now)) = map ?f (disputes e)"
      using Some r True unfolding resolve_disputes_def Let_def
      by (simp_all add: new_def [symmetric] Let_def split: option.split)
    have ok: "disputes_ok ours (disputes e)" using assms Some by (simp add: inv_disputes_def)
    have "hm_keys (map ?f (disputes e)) = hm_keys (disputes e)" by auto
    then have "hm_wf (map ?f (disputes e))" using ok by (simp only: disputes_ok_def)
    then have "disputes_ok new (map ?f (disputes e))"
      using ok by (auto simp: disputes_ok_def dispute_ok_def)
    then show ?thesis by (simp add: inv_disputes_def res)
  qed
qed

subsubsection \<open>Phases\<close>

lemma own_ok_cong:
  assumes "own_ok e" and "our_position e' = our_position e" and "our_set e' = our_set e"
    and "en_prev_ledger e' = en_prev_ledger e" and "en_node_id e' = en_node_id e"
  shows "own_ok e'"
  using assms by (simp add: own_ok_def)

lemma own_ok_align: "own_ok e \<Longrightarrow> own_ok (fst (align_close_time_with_peers e))"
  by (auto simp: own_ok_def align_close_time_with_peers_def Let_def split: prod.split)

lemma own_ok_resolve: "own_ok e \<Longrightarrow> own_ok (fst (resolve_disputes sha e now))"
  by (auto simp: own_ok_def resolve_disputes_def Let_def split: prod.split)

lemma own_ok_refresh: "own_ok e \<Longrightarrow> own_ok (refresh_position e a b now)"
  by (auto simp: own_ok_def refresh_position_def Let_def)

lemma own_ok_accept: "own_ok e \<Longrightarrow> own_ok (accept ad e) \<and> accepted_ok (accept ad e) \<and> en_phase (accept ad e) = Accepted"
  by (auto simp: own_ok_def accepted_ok_def accept_def Let_def split: prod.split)

lemma phase_align [simp]: "en_phase (fst (align_close_time_with_peers e)) = en_phase e"
  by (simp add: align_close_time_with_peers_def Let_def split: option.split prod.split)

lemma phase_resolve [simp]: "en_phase (fst (resolve_disputes sha e now)) = en_phase e"
  by (simp add: resolve_disputes_def Let_def split: option.split prod.split)

lemma phase_refresh [simp]: "en_phase (refresh_position e a b now) = en_phase e"
  by (simp add: refresh_position_def Let_def split: option.split)

lemma sets_align [simp]:
  "our_set (fst (align_close_time_with_peers e)) = our_set e" "disputes (fst (align_close_time_with_peers e)) = disputes e"
  by (simp_all add: align_close_time_with_peers_def Let_def split: option.split prod.split)

lemma sets_refresh [simp]:
  "our_set (refresh_position e a b now) = our_set e" "disputes (refresh_position e a b now) = disputes e"
  by (simp_all add: refresh_position_def Let_def split: option.split)

lemma sets_accept [simp]: "our_set (accept ad e) = our_set e" "disputes (accept ad e) = disputes e"
  by (simp_all add: accept_def Let_def split: option.split prod.split)

lemma prepare_steps:
  obtains e1 r e2 c where "align_close_time_with_peers e = (e1, r)" "resolve_disputes sha e1 now = (e2, c)"
    "converge_prepare sha e now = refresh_position e2 r c now"
proof -
  obtain e1 r where 1: "align_close_time_with_peers e = (e1, r)" by fastforce
  obtain e2 c where 2: "resolve_disputes sha e1 now = (e2, c)" by fastforce
  from 1 2 show ?thesis by (rule that) (simp add: converge_prepare_def 1 2)
qed

lemma prepare_own:
  assumes "own_ok e"
  shows "own_ok (converge_prepare sha e now)" and "en_phase (converge_prepare sha e now) = en_phase e"
proof -
  obtain e1 r e2 c where s: "align_close_time_with_peers e = (e1, r)" "resolve_disputes sha e1 now = (e2, c)"
    "converge_prepare sha e now = refresh_position e2 r c now" by (rule prepare_steps)
  have e1: "own_ok e1" "en_phase e1 = en_phase e"
    using own_ok_align [OF assms] phase_align [of e] s(1) by simp_all
  have "own_ok e2" "en_phase e2 = en_phase e"
    using own_ok_resolve [OF e1(1), of sha now] phase_resolve [of sha e1 now] s(2) e1(2) by simp_all
  then show "own_ok (converge_prepare sha e now)" "en_phase (converge_prepare sha e now) = en_phase e"
    by (simp_all add: s(3) own_ok_refresh)
qed

lemma prepare_disputes:
  assumes "inv_disputes e"
  shows "inv_disputes (converge_prepare sha e now)"
proof -
  obtain e1 r e2 c where s: "align_close_time_with_peers e = (e1, r)" "resolve_disputes sha e1 now = (e2, c)"
    "converge_prepare sha e now = refresh_position e2 r c now" by (rule prepare_steps)
  have "inv_disputes e1" using inv_disputes_cong [OF assms sets_align] s(1) by simp
  then have "inv_disputes e2" using inv_disputes_resolve [of e1 sha now] s(2) by simp
  then show ?thesis by (rule inv_disputes_cong) (simp_all add: s(3))
qed

lemma advance_round_cases:
  obtains (wait) r t where "advance_round ad e now = (e\<lparr>en_round := r, last_round_advance := t\<rparr>, False)"
  | (force) e' where "advance_round ad e now = (accept ad e', True)"
      "e' = e\<lparr>en_round := wrap32 (en_round e + 1), last_round_advance := Some now\<rparr>"
      "max_consensus_rounds (en_params e) \<le> wrap32 (en_round e + 1)"
      "peer_positions e \<noteq> [] \<or> unl_is_empty (en_unl e)"
proof (cases "due e (last_round_advance e) now")
  case False
  then have "advance_round ad e now = (e\<lparr>en_round := en_round e, last_round_advance := last_round_advance e\<rparr>, False)"
    by (simp add: advance_round_def)
  then show ?thesis by (rule wait)
next
  case True
  let ?e = "e\<lparr>en_round := wrap32 (en_round e + 1), last_round_advance := Some now\<rparr>"
  consider (under) "\<not> max_consensus_rounds (en_params e) \<le> wrap32 (en_round e + 1)"
    | (alone) "max_consensus_rounds (en_params e) \<le> wrap32 (en_round e + 1)"
        "peer_positions e = []" "\<not> unl_is_empty (en_unl e)"
    | (full) "max_consensus_rounds (en_params e) \<le> wrap32 (en_round e + 1)"
        "peer_positions e \<noteq> [] \<or> unl_is_empty (en_unl e)" by blast
  then show ?thesis
  proof cases
    case under
    then have "advance_round ad e now = (?e, False)" using True by (simp add: advance_round_def Let_def)
    then show ?thesis by (rule wait)
  next
    case alone
    then have "advance_round ad e now = (e\<lparr>en_round := max_consensus_rounds (en_params e),
        last_round_advance := Some now\<rparr>, False)" using True by (simp add: advance_round_def Let_def)
    then show ?thesis by (rule wait)
  next
    case full
    then have "advance_round ad e now = (accept ad ?e, True)" using True by (auto simp: advance_round_def Let_def)
    from force [OF this refl full] show ?thesis .
  qed
qed

text \<open>What a call of \<open>converge\<close> can end in, from an establish phase.\<close>

lemma converge_outcomes:
  assumes "en_phase e = Establish" and "own_ok e"
  obtains (waiting) r t where "converge sha ad e now =
        ((converge_prepare sha e now)\<lparr>en_round := r, last_round_advance := t\<rparr>, False)"
  | (agreed) pos where "converge sha ad e now = (accept ad (converge_prepare sha e now), True)"
      "our_position (converge_prepare sha e now) = Some pos"
      "agreement_reached sha (converge_prepare sha e now) pos (threshold_for_round (en_params e) (en_round e))"
      "min_consensus_time_elapsed (converge_prepare sha e now) now"
  | (forced) e' where "converge sha ad e now = (accept ad e', True)"
      "e' = (converge_prepare sha e now)\<lparr>en_round := wrap32 (en_round (converge_prepare sha e now) + 1),
         last_round_advance := Some now\<rparr>"
      "max_consensus_rounds (en_params e) \<le> wrap32 (en_round (converge_prepare sha e now) + 1)"
      "peer_positions e \<noteq> [] \<or> unl_is_empty (en_unl e)"
proof -
  let ?e = "converge_prepare sha e now"
  obtain pos where pos: "our_position ?e = Some pos"
    using prepare_own(1) [OF assms(2), of sha now] by (auto simp: own_ok_def)
  have conv: "converge sha ad e now =
     (if agreement_reached sha ?e pos (threshold_for_round (en_params e) (en_round e)) then
        (if \<not> min_consensus_time_elapsed ?e now then (?e, False) else (accept ad ?e, True))
      else advance_round ad ?e now)"
    using assms(1) pos by (simp add: converge_alt)
  consider (early) "agreement_reached sha ?e pos (threshold_for_round (en_params e) (en_round e))"
      "\<not> min_consensus_time_elapsed ?e now"
    | (yes) "agreement_reached sha ?e pos (threshold_for_round (en_params e) (en_round e))"
      "min_consensus_time_elapsed ?e now"
    | (no) "\<not> agreement_reached sha ?e pos (threshold_for_round (en_params e) (en_round e))" by blast
  then show ?thesis
  proof cases
    case early
    then have "converge sha ad e now = (?e\<lparr>en_round := en_round ?e, last_round_advance := last_round_advance ?e\<rparr>, False)"
      using conv by simp
    then show ?thesis by (rule waiting)
  next
    case yes
    then have "converge sha ad e now = (accept ad ?e, True)" using conv by simp
    from agreed [OF this pos yes] show ?thesis .
  next
    case no
    then have adv: "converge sha ad e now = advance_round ad ?e now" using conv by simp
    show ?thesis
    proof (cases rule: advance_round_cases [where ad = ad and e = ?e and now = now])
      case (wait r t)
      with adv show ?thesis using waiting by simp
    next
      case (force e')
      then show ?thesis
        using forced [of e'] adv same_net_prepare [of e sha now] by (simp add: same_net_def)
    qed
  qed
qed

subsubsection \<open>Preservation\<close>

lemma inv_phase_peer:
  assumes "inv_phase e"
  shows "inv_phase (peer_proposal_at ad e p now)"
proof -
  let ?e = "peer_proposal_at ad e p now"
  have same: "en_phase ?e = en_phase e \<and> our_position ?e = our_position e \<and> our_set ?e = our_set e
      \<and> en_prev_ledger ?e = en_prev_ledger e \<and> en_node_id ?e = en_node_id e
      \<and> accepted_close_time ?e = accepted_close_time e \<and> accepted_validation ?e = accepted_validation e
      \<and> (en_phase e \<noteq> Establish \<longrightarrow> peer_positions ?e = peer_positions e \<and> disputes ?e = disputes e)"
    by (cases rule: peer_proposal_cases [where ad = ad and e = e and p = p and now = now]) auto
  show ?thesis
    using assms same by (cases "en_phase e") (simp_all add: inv_phase_def own_ok_def accepted_ok_def)
qed

lemma phase_peer [simp]: "en_phase (peer_proposal_at ad e p now) = en_phase e"
  by (cases rule: peer_proposal_cases [where ad = ad and e = e and p = p and now = now]) auto

lemma inv_wrong_peer:
  assumes "inv_wrong e"
  shows "inv_wrong (peer_proposal_at ad e p now)"
proof (cases rule: peer_proposal_cases [where ad = ad and e = e and p = p and now = now])
  case (held k)
  have "hm_wf (wrong_prev_ledger_votes e)" using assms by (simp add: inv_wrong_def)
  then show ?thesis
    using assms held by (auto simp: inv_wrong_def set_hm_insert hm_wf_insert)
next
  case (ignored e')
  then have "wrong_prev_ledger_votes e' = wrong_prev_ledger_votes e" "en_prev_ledger e' = en_prev_ledger e" by auto
  then show ?thesis using assms ignored(1) by (simp add: inv_wrong_def)
qed (use assms in \<open>simp_all add: inv_wrong_def\<close>)

lemma inv_future_peer:
  assumes "inv_future e"
  shows "inv_future (peer_proposal_at ad e p now)"
proof (cases rule: peer_proposal_cases [where ad = ad and e = e and p = p and now = now])
  case (held k)
  show ?thesis unfolding held(4) by (rule inv_future_hold, rule inv_future_cong [OF assms]) simp
qed (use inv_future_cong [OF assms] in auto)

lemma engine_inv_peer: "engine_inv e \<Longrightarrow> engine_inv (peer_proposal_at ad e p now)"
  by (simp add: engine_inv_def inv_peers_peer inv_phase_peer inv_future_peer inv_wrong_peer inv_disputes_peer)

lemma engine_inv_start:
  assumes "engine_inv e"
  shows "engine_inv (start_round_with_prior e h s prior)"
proof -
  let ?e = "start_round_with_prior e h s prior" and ?t = "tracker_clear_for (en_tracker e) (en_prev_ledger e)"
  have wf: "tracker_wf (en_tracker e)" and ord: "set (prev_ledger_order (en_tracker e)) \<subseteq> {en_prev_ledger e}"
    using assms by (simp_all add: engine_inv_def inv_peers_def)
  have "tracker_wf ?t" by (rule tracker_wf_clear [OF wf])
  moreover have nil: "prev_ledger_order ?t = []" using ord by (auto simp: tracker_clear_for_def filter_empty_conv)
  moreover have "pt_proposals ?t = []" by (rule tracker_empty [OF tracker_wf_clear [OF wf] nil])
  ultimately have "inv_peers ?e"
    by (simp add: inv_peers_def start_round_with_prior_def Let_def tracker_get_def)
  moreover have "inv_phase ?e" "inv_wrong ?e" "inv_disputes ?e"
    by (simp_all add: inv_phase_def inv_wrong_def inv_disputes_def start_round_with_prior_def Let_def)
  ultimately show ?thesis using assms by (simp add: engine_inv_def inv_future_start)
qed

definition closing :: "engine \<Rightarrow> tx_set \<Rightarrow> nat \<Rightarrow> nat \<Rightarrow> nat \<Rightarrow> engine" where
  "closing e ours close_time ledger_seq now =
     (let proposal = \<lparr>prop_node_id = en_node_id e, prop_public_key = en_public_key e,
               tx_set_hash = ts_hash ours, prop_close_time = close_time, prop_seq = 0,
               prop_ledger_seq = ledger_seq, prop_prev_ledger = en_prev_ledger e, prop_signature = None\<rparr>
      in (emit (PublishTxSet ours) (emit (Propose proposal) e))\<lparr>our_position := Some proposal,
                   tx_blobs := fold (\<lambda>(k, b) m. hm_insert k b m) (ts_blobs ours) [],
                   our_set := Some ours, en_phase := Establish,
                   establish_started_at := Some now, last_share_at := Some now,
                   last_round_advance := Some now, pending_proposals := []\<rparr>)"

lemma close_ledger_open:
  "en_phase e = Open \<Longrightarrow> close_ledger ad e ours ct s now =
     (fold (\<lambda>p e. peer_proposal_at ad e p ct) (pending_proposals e) (closing e ours ct s now), Inr ())"
  by (simp add: close_ledger_def closing_def Let_def)

lemma engine_inv_closing:
  assumes "engine_inv e" and "en_phase e = Open"
  shows "engine_inv (closing e ours ct s now)"
  using assms
  by (auto simp: engine_inv_def inv_peers_def inv_phase_def inv_future_def inv_wrong_def inv_disputes_def
      own_ok_def disputes_ok_def closing_def Let_def)

lemma engine_inv_close:
  assumes "engine_inv e"
  shows "engine_inv (fst (close_ledger ad e ours ct s now))"
proof (cases "en_phase e = Open")
  case True
  have "engine_inv (fold (\<lambda>p e. peer_proposal_at ad e p ct) (pending_proposals e) (closing e ours ct s now))"
    by (rule fold_preserves) (simp_all add: engine_inv_peer engine_inv_closing [OF assms True])
  then show ?thesis by (simp add: close_ledger_open [OF True])
qed (simp add: close_ledger_def assms)

lemma engine_inv_net:
  assumes "engine_inv e" and "same_net e e'" and "inv_phase e'" and "inv_disputes e'"
  shows "engine_inv e'"
  using assms by (simp add: engine_inv_def inv_peers_def inv_future_def inv_wrong_def same_net_def)

lemma engine_inv_converge:
  assumes "engine_inv e"
  shows "engine_inv (fst (converge sha ad e now))"
proof (cases "en_phase e = Establish")
  case True
  then have own: "own_ok e" using assms by (simp add: engine_inv_def inv_phase_def)
  let ?e = "converge_prepare sha e now"
  have prep: "own_ok ?e" "inv_disputes ?e" "en_phase ?e = Establish"
    using prepare_own [OF own, of sha now] prepare_disputes [of e sha now] assms True by (simp_all add: engine_inv_def)
  have acc: "inv_phase (accept ad x) \<and> inv_disputes (accept ad x)" if "own_ok x" "inv_disputes x" for x
    using own_ok_accept [OF that(1)] inv_disputes_cong [OF that(2) sets_accept] by (simp add: inv_phase_def)
  have "inv_phase (fst (converge sha ad e now)) \<and> inv_disputes (fst (converge sha ad e now))"
    using True own
  proof (cases rule: converge_outcomes [where sha = sha and ad = ad and now = now])
    case (waiting r t)
    have "own_ok (fst (converge sha ad e now))" "inv_disputes (fst (converge sha ad e now))"
      "en_phase (fst (converge sha ad e now)) = Establish"
      using own_ok_cong [OF prep(1)] inv_disputes_cong [OF prep(2)] prep(3) by (simp_all add: waiting)
    then show ?thesis by (simp add: inv_phase_def)
  next
    case (agreed pos)
    then show ?thesis using acc prep by simp
  next
    case (forced e')
    have "own_ok e'" "inv_disputes e'"
      using own_ok_cong [OF prep(1)] inv_disputes_cong [OF prep(2)] by (simp_all add: forced(2))
    then show ?thesis using acc forced(1) by simp
  qed
  then show ?thesis using engine_inv_net [OF assms same_net_converge] by blast
qed (simp add: converge_def assms)

lemma engine_inv_step: "engine_step sha e e' \<Longrightarrow> engine_inv e \<Longrightarrow> engine_inv e'"
proof (induction rule: engine_step.induct)
  case (step_unl e u t b)
  then show ?case
    by (auto simp: engine_inv_def inv_peers_def inv_phase_def own_ok_def accepted_ok_def inv_future_def
        inv_wrong_def inv_disputes_def split: consensus_phase.splits option.splits)
next
  case (step_validations e v)
  then show ?case
    by (auto simp: engine_inv_def inv_peers_def inv_phase_def own_ok_def accepted_ok_def inv_future_def
        inv_wrong_def inv_disputes_def split: consensus_phase.splits option.splits)
qed (simp_all add: engine_inv_start engine_inv_peer engine_inv_close engine_inv_converge)

lemma engine_inv_new: "engine_inv (engine_new_with_unl n pk params u)"
  by (simp add: engine_inv_def engine_new_with_unl_def inv_peers_def inv_phase_def inv_future_def
      inv_wrong_def inv_disputes_def tracker_wf_new tracker_get_def) (simp add: tracker_new_def)

lemma engine_reachable_inv: "engine_reachable sha e \<Longrightarrow> engine_inv e"
  by (induction rule: engine_reachable.induct) (auto intro: engine_inv_new engine_inv_step)

end
