(* ===== verification/Engine_Properties.thy ===== *)
theory Engine_Properties
  imports Engine_Safety
begin

text \<open>
  What the invariants of the engine's reachable states give: the phase discipline of the handlers,
  the bound on the peers a round can hear, what an accepted ledger rests on, how long a round can
  last, how disputes change our set, and how the close time is agreed.
\<close>

subsection \<open>A concrete engine\<close>

definition example_adapter :: adapter where
  "example_adapter = \<lparr>acquire_tx_set = \<lambda>_. None, on_accept_ledger = \<lambda>_ _ _. 7\<rparr>"

definition example_set :: tx_set where
  "example_set = \<lparr>ts_hash = 5, ts_txs = [3, 4], ts_blobs = []\<rparr>"

definition round_unl :: "nat \<Rightarrow> trusted_validator_list" where
  "round_unl n = unl_empty\<lparr>trusted := map (\<lambda>i. NodeId (of_nat i)) [0..<n]\<rparr>"

definition example_engine :: "nat \<Rightarrow> engine" where
  "example_engine n = closing (engine_new_with_unl (NodeId 0) [] default_params (round_unl n)) example_set 100 2 0"

lemma example_engine_reachable: "engine_reachable sha (example_engine n)"
proof -
  let ?e = "engine_new_with_unl (NodeId 0) [] default_params (round_unl n)"
  have "close_ledger example_adapter ?e example_set 100 2 0 = (example_engine n, Inr ())"
    by (subst close_ledger_open) (simp_all add: example_engine_def engine_new_with_unl_def)
  moreover have "engine_reachable sha (fst (close_ledger example_adapter ?e example_set 100 2 0))"
    by (rule reach_step [OF reach_new step_close])
  ultimately show ?thesis by simp
qed

lemma example_engine_fields [simp]:
  "en_phase (example_engine n) = Establish" "en_unl (example_engine n) = round_unl n"
  "en_params (example_engine n) = default_params" "peer_positions (example_engine n) = []"
  "en_round (example_engine n) = 0" "en_node_id (example_engine n) = NodeId 0"
  "establish_started_at (example_engine n) = Some 0" "last_round_advance (example_engine n) = Some 0"
  "our_set (example_engine n) = Some example_set" "disputes (example_engine n) = []"
  by (simp_all add: example_engine_def closing_def Let_def engine_new_with_unl_def)

subsection \<open>Phases\<close>


lemma phase_accept [simp]: "en_phase (accept ad e) = Accepted"
  by (simp add: accept_def Let_def split: prod.split option.split)

lemma phase_prepare [simp]: "en_phase (converge_prepare sha e now) = en_phase e"
  by (simp add: converge_prepare_def Let_def split: prod.split) (metis fst_conv phase_align phase_resolve)







subsection \<open>Peers of a round\<close>

lemma peers_of_tracker:
  assumes "inv_peers e" and "(n, p) \<in> set (peer_positions e)"
  shows "((n, en_prev_ledger e), p) \<in> set (pt_proposals (en_tracker e)) \<and> prop_node_id p = n
    \<and> prop_prev_ledger p = en_prev_ledger e"
proof -
  have "hm_get (peer_positions e) n = Some p"
    using assms by (intro map_of_is_SomeI) (simp_all add: inv_peers_def)
  then have "hm_get (pt_proposals (en_tracker e)) (n, en_prev_ledger e) = Some p"
    using assms(1) by (simp add: inv_peers_def tracker_get_def)
  then have "((n, en_prev_ledger e), p) \<in> set (pt_proposals (en_tracker e))" by (rule map_of_SomeD)
  then show ?thesis using assms(1) by (auto simp: inv_peers_def tracker_wf_def)
qed

lemma peers_bounded:
  assumes "inv_peers e"
  shows "length (peer_positions e) \<le> MAX_PROPOSALS_PER_PREV"
proof -
  let ?ks = "filter (\<lambda>(_, h). h = en_prev_ledger e) (hm_keys (pt_proposals (en_tracker e)))"
  have wf: "distinct (map fst (peer_positions e))" using assms by (simp add: inv_peers_def)
  have "length (peer_positions e) = card (fst ` set (peer_positions e))"
    using distinct_card [OF wf] by simp
  also have "\<dots> \<le> card (fst ` set ?ks)"
    using peers_of_tracker [OF assms] by (intro card_mono) force+
  also have "\<dots> \<le> length ?ks" by (rule le_trans [OF card_image_le card_length]) simp
  also have "\<dots> \<le> MAX_PROPOSALS_PER_PREV"
    using assms by (simp add: inv_peers_def tracker_wf_def keys_wf_def count_prev_def)
  finally show ?thesis .
qed

text \<open>C6: The peer positions are exactly what the proposal tracker holds on the current parent: one
  position per node, keyed by its node and built on our parent. So a round hears at most sixteen peers.\<close>

theorem engine_peers_lockstep:
  assumes "engine_reachable sha e"
  shows "length (peer_positions e) \<le> 16 \<and> distinct (hm_keys (peer_positions e))
    \<and> (\<forall>n. hm_get (peer_positions e) n = tracker_get (en_tracker e) n (en_prev_ledger e))
    \<and> list_all (\<lambda>(n, p). prop_node_id p = n \<and> prop_prev_ledger p = en_prev_ledger e) (peer_positions e)"
proof -
  have inv: "inv_peers e" using engine_reachable_inv [OF assms] by (simp add: engine_inv_def)
  then show ?thesis
    using peers_bounded [OF inv] peers_of_tracker [OF inv]
    by (auto simp: inv_peers_def MAX_PROPOSALS_PER_PREV_def list_all_iff)
qed

definition example_peer :: "hash256 \<Rightarrow> nat \<Rightarrow> proposal" where
  "example_peer n ct = \<lparr>prop_node_id = NodeId n, prop_public_key = [], tx_set_hash = 5,
     prop_close_time = ct, prop_seq = 0, prop_ledger_seq = 2, prop_prev_ledger = 0, prop_signature = None\<rparr>"

lemma example_trusted: "i < n \<Longrightarrow> is_trusted (round_unl n) (NodeId (of_nat i))"
  by (auto simp: is_trusted_def resolve_to_master_def round_unl_def unl_empty_def unl_new_def)

lemma example_delivery:
  "abs_diff now ct \<le> 30 \<Longrightarrow>
   peer_positions (peer_proposal_at example_adapter (example_engine 4) (example_peer 1 ct) now)
     = [(NodeId 1, example_peer 1 ct)]"
proof -
  assume "abs_diff now ct \<le> 30"
  moreover have "unl_admits (note_peer (example_engine 4) (example_peer 1 ct)) (example_peer 1 ct)"
    using example_trusted [of 1 4] by (simp add: unl_admits_def example_peer_def)
  moreover have "tracker_track (en_tracker (example_engine 4)) (example_peer 1 ct)
      = (fst (tracker_track tracker_new (example_peer 1 ct)), True)"
    by (simp add: example_engine_def closing_def Let_def engine_new_with_unl_def tracker_track_def tracker_new_def
        MAX_DISTINCT_PREV_LEDGERS_def)
  moreover have "en_prev_ledger (example_engine 4) = 0" "map_option prop_ledger_seq (our_position (example_engine 4)) = Some 2"
    by (simp_all add: example_engine_def closing_def Let_def engine_new_with_unl_def)
  moreover have "prop_close_time (example_peer 1 ct) = ct" "prop_prev_ledger (example_peer 1 ct) = 0"
    "prop_ledger_seq (example_peer 1 ct) = 2" "prop_node_id (example_peer 1 ct) = NodeId 1" by (simp_all add: example_peer_def)
  ultimately show ?thesis
    by (auto simp: peer_proposal_at_def Let_def PROPOSAL_FRESHNESS_SECS_def)
qed

theorem engine_peers_lockstep_witness:
  "(let e = peer_proposal_at example_adapter (example_engine 4) (example_peer 1 100) 100 in
      length (peer_positions e) = 1 \<and> length (peer_positions e) \<le> 16
      \<and> list_all (\<lambda>(n, p). prop_node_id p = n \<and> prop_prev_ledger p = en_prev_ledger e) (peer_positions e))"
proof -
  let ?e = "peer_proposal_at example_adapter (example_engine 4) (example_peer 1 100) 100"
  have "engine_reachable (\<lambda>_. 0) ?e"
    by (rule reach_step [OF example_engine_reachable step_peer])
  from engine_peers_lockstep [OF this] have "length (peer_positions ?e) \<le> 16"
    "list_all (\<lambda>(n, p). prop_node_id p = n \<and> prop_prev_ledger p = en_prev_ledger ?e) (peer_positions ?e)"
    by blast+
  moreover have "length (peer_positions ?e) = 1" by (simp add: example_delivery abs_diff_def)
  ultimately show ?thesis by (simp add: Let_def)
qed

subsection \<open>Acceptance\<close>

lemma round_prepare [simp]: "en_round (converge_prepare sha e now) = en_round e"
proof -
  have "en_round (fst (resolve_disputes sha x now)) = en_round x" for x
    by (simp add: resolve_disputes_def Let_def split: option.split prod.split)
  moreover have "en_round (refresh_position x a b now) = en_round x" for x a b
    by (simp add: refresh_position_def Let_def split: option.split)
  ultimately show ?thesis
    by (simp add: converge_prepare_def Let_def split: prod.split) (metis fst_conv prepare_round)
qed

text \<open>The peers that support a position: trusted, on the same set and in the same close-time bucket.\<close>

definition supporters :: "engine \<Rightarrow> proposal \<Rightarrow> node_id set" where
  "supporters e pos = {n. \<exists>p. hm_get (peer_positions e) n = Some p \<and> is_trusted (en_unl e) n \<and> agrees_with e pos p}"

lemma agreeing_card:
  assumes "inv_peers e"
  shows "length (filter (\<lambda>p. is_trusted (en_unl e) (prop_node_id p) \<and> agrees_with e pos p) (hm_values (peer_positions e)))
    = card (supporters e pos)"
proof -
  let ?P = "\<lambda>(n, p). is_trusted (en_unl e) n \<and> agrees_with e pos p"
  have wf: "hm_wf (peer_positions e)" using assms by (simp add: inv_peers_def)
  have "length (filter (\<lambda>p. is_trusted (en_unl e) (prop_node_id p) \<and> agrees_with e pos p) (hm_values (peer_positions e)))
      = length (filter ?P (peer_positions e))"
    unfolding filter_map length_map
    by (intro arg_cong [where f = length] filter_cong) (use peers_of_tracker [OF assms] in force)+
  also have "\<dots> = card (fst ` set (filter ?P (peer_positions e)))"
    using distinct_card [OF distinct_map_filter [OF wf, of ?P]] by simp
  also have "fst ` set (filter ?P (peer_positions e)) = supporters e pos"
    using wf by (force simp: supporters_def dest: map_of_SomeD)
  finally show ?thesis .
qed

lemma inv_peers_net: "inv_peers e \<Longrightarrow> same_net e e' \<Longrightarrow> inv_peers e'"
  by (simp add: inv_peers_def same_net_def)

lemma supporters_bounded:
  assumes "inv_peers e"
  shows "card (supporters e pos) \<le> 16"
proof -
  have "card (supporters e pos) \<le> length (peer_positions e)"
    unfolding agreeing_card [OF assms, symmetric] by (rule le_trans [OF length_filter_le]) simp
  also have "\<dots> \<le> 16" using peers_bounded [OF assms] by (simp add: MAX_PROPOSALS_PER_PREV_def)
  finally show ?thesis .
qed

lemma agreement_unl:
  assumes "inv_peers e" and "\<not> unl_is_empty (en_unl e)"
  shows "agreement_reached sha e pos th \<longleftrightarrow>
    quorum_threshold (en_unl e) \<le> card (supporters e pos) + (if self_in_unl sha e then 1 else 0)"
  unfolding agreement_reached_def Let_def agreeing_card [OF assms(1)] using assms(2) by simp

lemma min_time_net: "same_net e e' \<Longrightarrow> min_consensus_time_elapsed e' now = min_consensus_time_elapsed e now"
  by (simp add: min_consensus_time_elapsed_def same_net_def Let_def cong: if_cong)

text \<open>C1: What an accepted ledger rests on, with a UNL: either the round limit was reached with at least
  one peer heard, or the minimum time has passed and a quorum of the UNL (distinct trusted peers,
  plus ourselves when we are in it) holds the very set we accepted, in our close-time bucket.\<close>

theorem acceptance_backed_by_quorum:
  assumes "engine_reachable sha e" and "\<not> unl_is_empty (en_unl e)" and "converge sha ad e now = (e', True)"
  shows "max_consensus_rounds (en_params e) \<le> wrap32 (en_round e + 1) \<and> peer_positions e \<noteq> []
    \<or> min_consensus_time_elapsed e now \<and> (\<exists>pos. our_position e' = Some pos \<and> accepted_set e' = Some (tx_set_hash pos)
        \<and> quorum_threshold (en_unl e) \<le> card (supporters e' pos) + (if self_in_unl sha e then 1 else 0))"
proof -
  have inv: "engine_inv e" by (rule engine_reachable_inv [OF assms(1)])
  have est: "en_phase e = Establish" using assms(3) by (auto simp: converge_def split: if_splits)
  then have own: "own_ok e" using inv by (simp add: engine_inv_def inv_phase_def)
  show ?thesis
    using est own
  proof (cases rule: converge_outcomes [where sha = sha and ad = ad and now = now])
    case (agreed pos)
    let ?e = "converge_prepare sha e now"
    note net = same_net_prepare [of e sha now]
    have unl: "en_unl ?e = en_unl e" using net by (simp add: same_net_def)
    have peers: "inv_peers ?e" using inv_peers_net [OF _ net] inv by (simp add: engine_inv_def)
    have "quorum_threshold (en_unl e) \<le> card (supporters ?e pos) + (if self_in_unl sha ?e then 1 else 0)"
      using agreed(3) assms(2) agreement_unl [OF peers] unl by simp
    moreover have "self_in_unl sha ?e = self_in_unl sha e" "min_consensus_time_elapsed e now"
      using net agreed(4) min_time_net [OF net] by (simp_all add: self_in_unl_def same_net_def)
    moreover have e': "e' = accept ad ?e" using agreed(1) assms(3) by simp
    moreover have "our_position e' = Some pos" "supporters e' pos = supporters ?e pos"
      using agreed(2) same_net_accept [of ?e ad]
      by (simp_all add: e' accept_def supporters_def agrees_with_def Let_def same_net_def split: prod.split option.split)
    ultimately show ?thesis by (auto simp: accepted_set_def)
  qed (use assms(2,3) in auto)
qed

lemma example_solo_accepts: "snd (converge sha example_adapter (example_engine 1) 0)"
proof -
  let ?e = "example_engine 1"
  obtain pos where pos: "our_position ?e = Some pos"
    by (simp add: example_engine_def closing_def Let_def)
  have share: "last_share_at ?e = Some 0" by (simp add: example_engine_def closing_def Let_def)
  have self: "self_in_unl sha ?e" using example_trusted [of 0 1] by (simp add: self_in_unl_def)
  have "\<not> unl_is_empty (round_unl 1)" "quorum_threshold (round_unl 1) = 1"
    by (simp_all add: unl_is_empty_def quorum_threshold_def effective_size_def round_unl_def unl_empty_def
        unl_new_def Let_def div_ceil_def)
  then have "agreement_reached sha ?e pos th" for th using self by (simp add: agreement_reached_def Let_def)
  moreover have "align_close_time_with_peers ?e = (?e, False)" "resolve_disputes sha ?e 0 = (?e, False)"
    "refresh_position ?e False False 0 = ?e"
    using share by (simp_all add: align_close_time_with_peers_def resolve_disputes_def refresh_position_def
        due_def elapsed_ms_def default_params_def Let_def split: option.split)
  ultimately show ?thesis
    using pos by (simp add: converge_def Let_def min_consensus_time_elapsed_def default_params_def)
qed

theorem acceptance_backed_by_quorum_witness:
  "(let e = fst (converge (\<lambda>_. 0) example_adapter (example_engine 1) 0)
    in \<exists>pos. our_position e = Some pos \<and> accepted_set e = Some (tx_set_hash pos))"
proof -
  let ?c = "converge (\<lambda>_. 0) example_adapter (example_engine 1) 0"
  have "?c = (fst ?c, True)" using example_solo_accepts [of "\<lambda>_. 0"] by (cases ?c) simp
  moreover have "\<not> unl_is_empty (en_unl (example_engine 1))"
    by (simp add: unl_is_empty_def round_unl_def)
  ultimately show ?thesis
    using acceptance_backed_by_quorum [OF example_engine_reachable [where n = 1], where ad = example_adapter and now = 0 and e' = "fst ?c"]
    by (auto simp: Let_def)
qed

text \<open>C7: With a quorum above seventeen no poll below the round limit is ever accepted: the tracker keeps
  at most sixteen peers of the round, so the supporters and ourselves never make the quorum. A UNL of
  twenty-two enabled validators has a quorum of eighteen.\<close>

theorem large_quorum_never_reached:
  assumes "engine_reachable sha e" and "17 < quorum_threshold (en_unl e)"
    and "wrap32 (en_round e + 1) < max_consensus_rounds (en_params e)"
  shows "\<not> snd (converge sha ad e now)"
proof
  assume yes: "snd (converge sha ad e now)"
  have inv: "engine_inv e" by (rule engine_reachable_inv [OF assms(1)])
  have est: "en_phase e = Establish" using yes by (auto simp: converge_def split: if_splits)
  then have own: "own_ok e" using inv by (simp add: engine_inv_def inv_phase_def)
  let ?e = "converge_prepare sha e now"
  note net = same_net_prepare [of e sha now]
  have unl: "en_unl ?e = en_unl e" using net by (simp add: same_net_def)
  have peers: "inv_peers ?e" using inv_peers_net [OF _ net] inv by (simp add: engine_inv_def)
  have ne: "\<not> unl_is_empty (en_unl e)"
    using assms(2) by (auto simp: quorum_threshold_def unl_is_empty_def effective_size_def Let_def)
  show False
    using est own
  proof (cases rule: converge_outcomes [where sha = sha and ad = ad and now = now])
    case (agreed pos)
    then show False
      using agreement_unl [OF peers, of sha pos] supporters_bounded [OF peers, of pos] unl ne assms(2)
      by (auto split: if_splits)
  qed (use yes assms(3) in auto)
qed

theorem large_quorum_never_reached_witness:
  "quorum_threshold (round_unl 22) = 18
   \<and> \<not> snd (converge (\<lambda>_. 0) example_adapter (example_engine 22) 2000000000)"
proof -
  have q: "quorum_threshold (round_unl 22) = 18"
    by (simp add: quorum_threshold_def effective_size_def round_unl_def unl_empty_def unl_new_def Let_def div_ceil_def)
  moreover have "\<not> snd (converge (\<lambda>_. 0) example_adapter (example_engine 22) 2000000000)"
    by (rule large_quorum_never_reached [OF example_engine_reachable])
      (simp_all add: q default_params_def wrap32_def)
  ultimately show ?thesis by blast
qed

subsection \<open>Buffers\<close>

text \<open>C10: Held proposals are bounded in every reachable state, at most 64 parents of at most 16 proposals,
  all of them for another parent than ours; and a delivery never takes the pending queue past its cap
  of 1024 (a new round may, by adding what was held for its parent).\<close>

theorem engine_buffers_bounded:
  assumes "engine_reachable sha e"
  shows "length (future_proposals e) \<le> 64 \<and> list_all (\<lambda>g. length (snd g) \<le> 16) (future_proposals e)
    \<and> length (pending_proposals (peer_proposal_at ad e p now)) \<le> max 1024 (length (pending_proposals e))
    \<and> length (pending_proposals (start_round_with_prior e h s prior)) \<le> length (pending_proposals e) + 16"
proof -
  have inv: "inv_future e" using engine_reachable_inv [OF assms] by (simp add: engine_inv_def)
  have "length (pending_proposals (peer_proposal_at ad e p now)) \<le> max 1024 (length (pending_proposals e))"
    by (cases rule: peer_proposal_cases [where ad = ad and e = e and p = p and now = now])
      (auto simp: PENDING_PROPOSALS_MAX_def)
  moreover have "length (case hm_get (future_proposals e) h of Some ps \<Rightarrow> ps | None \<Rightarrow> []) \<le> 16"
    using inv by (auto simp: inv_future_def FUTURE_PROPOSALS_MAX_PER_KEY_def split: option.split dest!: map_of_SomeD)
  ultimately show ?thesis
    using inv by (auto simp: inv_future_def FUTURE_PROPOSALS_MAX_PER_KEY_def FUTURE_PROPOSALS_MAX_KEYS_def
        list_all_iff start_round_with_prior_def Let_def)
qed

theorem engine_buffers_bounded_witness:
  "(let e = peer_proposal_at example_adapter (example_engine 4) (example_peer 1 100) 100
    in length (future_proposals e) \<le> 64 \<and> length (pending_proposals (start_round e 9 3)) \<le> length (pending_proposals e) + 16)"
  using engine_buffers_bounded [OF reach_step [OF example_engine_reachable [where sha = "\<lambda>_. 0" and n = 4]
        step_peer [where ad = example_adapter and p = "example_peer 1 100" and now = 100]], where h = 9 and s = 3 and prior = 0]
  by (simp add: Let_def start_round_def)

subsection \<open>A round ends\<close>

datatype round_event = Poll nat | Deliver proposal nat

fun run_round :: "(bytes \<Rightarrow> hash256) \<Rightarrow> adapter \<Rightarrow> round_event list \<Rightarrow> engine \<Rightarrow> engine" where
  "run_round sha ad [] e = e"
| "run_round sha ad (Poll now # es) e = run_round sha ad es (fst (converge sha ad e now))"
| "run_round sha ad (Deliver p now # es) e = run_round sha ad es (peer_proposal_at ad e p now)"

fun poll_times :: "round_event list \<Rightarrow> nat list" where
  "poll_times [] = []"
| "poll_times (Poll t # es) = t # poll_times es"
| "poll_times (Deliver p t # es) = poll_times es"

text \<open>Poll times at least the proposal interval apart, the first one after a given time.\<close>

fun spaced :: "consensus_params \<Rightarrow> nat option \<Rightarrow> nat list \<Rightarrow> bool" where
  "spaced ps prev [] \<longleftrightarrow> True"
| "spaced ps prev (t # ts) \<longleftrightarrow>
     (case prev of None \<Rightarrow> True | Some l \<Rightarrow> propose_interval_ms ps \<le> elapsed_ms t l) \<and> spaced ps (Some t) ts"

definition late_enough :: "engine \<Rightarrow> round_event list \<Rightarrow> bool" where
  "late_enough e es \<longleftrightarrow> list_all (min_consensus_time_elapsed e) (poll_times es)"

lemma clocks_fields [simp]:
  "last_round_advance (note_peer e p) = last_round_advance e"
  "last_round_advance (hold_future_proposal e p) = last_round_advance e"
  "last_round_advance (create_disputes ad e) = last_round_advance e"
  "establish_started_at (note_peer e p) = establish_started_at e"
  "establish_started_at (hold_future_proposal e p) = establish_started_at e"
  "establish_started_at (create_disputes ad e) = establish_started_at e"
  by (simp_all add: note_peer_def hold_future_proposal_def create_disputes_def Let_def split: option.split prod.split)

lemma last_advance_prepare [simp]: "last_round_advance (converge_prepare sha e now) = last_round_advance e"
proof -
  have "last_round_advance (fst (resolve_disputes sha x now)) = last_round_advance x" for x
    by (simp add: resolve_disputes_def Let_def emit_def split: option.split prod.split)
  moreover have "last_round_advance (refresh_position x a b now) = last_round_advance x" for x a b
    by (simp add: refresh_position_def Let_def emit_def split: option.split)
  moreover have "last_round_advance (fst (align_close_time_with_peers x)) = last_round_advance x" for x
    by (simp add: align_close_time_with_peers_def Let_def split: option.split prod.split)
  ultimately show ?thesis
    by (simp add: converge_prepare_def Let_def split: prod.split) (metis fst_conv)
qed

definition round_open :: "engine \<Rightarrow> bool" where
  "round_open e \<longleftrightarrow> en_phase e = Establish \<and> own_ok e \<and> (peer_positions e \<noteq> [] \<or> unl_is_empty (en_unl e))"

lemma poll_progress:
  fixes sha ad
  assumes op: "round_open e" and due: "due e (last_round_advance e) now" and late: "min_consensus_time_elapsed e now"
    and max: "max_consensus_rounds (en_params e) \<le> u32_max" "en_round e < max_consensus_rounds (en_params e)"
  defines "e' \<equiv> fst (converge sha ad e now)"
  shows "en_phase e' = Accepted \<or>
    round_open e' \<and> en_round e' = en_round e + 1 \<and> en_round e' < max_consensus_rounds (en_params e)
      \<and> last_round_advance e' = Some now \<and> same_net e e'"
proof -
  let ?e = "converge_prepare sha e now"
  note net = same_net_prepare [of e sha now]
  have own: "own_ok ?e" using prepare_own(1) [of e sha now] op by (simp add: round_open_def)
  then obtain pos where pos: "our_position ?e = Some pos" by (auto simp: own_ok_def)
  have eqs: "min_consensus_time_elapsed ?e now" "due ?e (last_round_advance ?e) now" "en_params ?e = en_params e"
    "peer_positions ?e \<noteq> [] \<or> unl_is_empty (en_unl ?e)"
    using late due net min_time_net [OF net] op by (simp_all add: due_def same_net_def round_open_def cong: option.case_cong)
  have wrap: "wrap32 (en_round e + 1) = en_round e + 1" using max by (simp add: wrap32_def u32_max_def)
  have conv: "fst (converge sha ad e now) =
     (if agreement_reached sha ?e pos (threshold_for_round (en_params e) (en_round e)) then accept ad ?e
      else fst (advance_round ad ?e now))"
    using op pos eqs(1) by (simp add: converge_alt round_open_def)
  have "en_phase (fst (advance_round ad ?e now)) = Accepted \<or> fst (advance_round ad ?e now) =
      ?e\<lparr>en_round := en_round e + 1, last_round_advance := Some now\<rparr> \<and> en_round e + 1 < max_consensus_rounds (en_params e)"
    using eqs wrap by (auto simp: advance_round_def Let_def)
  moreover have "round_open (?e\<lparr>en_round := r, last_round_advance := t\<rparr>)" for r t
    using own_ok_cong [OF own] op eqs(4) by (simp add: round_open_def)
  moreover have "same_net e (?e\<lparr>en_round := r, last_round_advance := t\<rparr>)" for r t
    using net by (rule same_net_trans) (rule same_net_round)
  ultimately show ?thesis unfolding e'_def conv by auto
qed

lemma run_accepted: "en_phase e = Accepted \<Longrightarrow> en_phase (run_round sha ad es e) = Accepted"
  by (induction es arbitrary: e rule: poll_times.induct) (simp_all add: converge_def)

lemma deliver_fields:
  "en_params (peer_proposal_at ad e p now) = en_params e" "en_round (peer_proposal_at ad e p now) = en_round e"
  "last_round_advance (peer_proposal_at ad e p now) = last_round_advance e"
  "establish_started_at (peer_proposal_at ad e p now) = establish_started_at e"
  "en_unl (peer_proposal_at ad e p now) = en_unl e"
  "our_position (peer_proposal_at ad e p now) = our_position e" "our_set (peer_proposal_at ad e p now) = our_set e"
  "en_prev_ledger (peer_proposal_at ad e p now) = en_prev_ledger e"
  "en_node_id (peer_proposal_at ad e p now) = en_node_id e"
  "peer_positions (peer_proposal_at ad e p now) = [] \<Longrightarrow> peer_positions e = []"
  by (cases rule: peer_proposal_cases [where ad = ad and e = e and p = p and now = now];
      auto dest: arg_cong [where f = "\<lambda>m. hm_get m (prop_node_id p)"] simp: hm_simps)+

lemma min_time_fields: "en_params e' = en_params e \<Longrightarrow> establish_started_at e' = establish_started_at e
    \<Longrightarrow> min_consensus_time_elapsed e' = min_consensus_time_elapsed e"
  by (intro ext) (simp add: min_consensus_time_elapsed_def Let_def cong: if_cong)

lemma round_ends:
  assumes "round_open e" and "spaced (en_params e) (last_round_advance e) (poll_times es)" and "late_enough e es"
    and "max_consensus_rounds (en_params e) \<le> u32_max" and "en_round e < max_consensus_rounds (en_params e)"
    and "max_consensus_rounds (en_params e) - en_round e \<le> length (poll_times es)"
  shows "en_phase (run_round sha ad es e) = Accepted"
  using assms
proof (induction es arbitrary: e rule: poll_times.induct)
  case (2 t es)
  let ?e = "fst (converge sha ad e t)"
  have "due e (last_round_advance e) t" using 2(3) by (simp add: due_def)
  moreover have "min_consensus_time_elapsed e t" using 2(4) by (simp add: late_enough_def)
  ultimately have "en_phase ?e = Accepted \<or> round_open ?e \<and> en_round ?e = en_round e + 1
      \<and> en_round ?e < max_consensus_rounds (en_params e) \<and> last_round_advance ?e = Some t \<and> same_net e ?e"
    by (rule poll_progress [OF 2(2) _ _ 2(5,6)])
  then consider "en_phase ?e = Accepted" | (next_poll) "round_open ?e" "en_round ?e = en_round e + 1"
      "en_round ?e < max_consensus_rounds (en_params e)" "last_round_advance ?e = Some t" "same_net e ?e"
    by blast
  then show ?case
  proof cases
    case next_poll
    have ps: "en_params ?e = en_params e" "establish_started_at ?e = establish_started_at e"
      using next_poll(5) by (simp_all add: same_net_def)
    have "late_enough ?e es" using 2(4) min_time_fields [OF ps] by (simp add: late_enough_def)
    moreover have "spaced (en_params ?e) (last_round_advance ?e) (poll_times es)"
      using 2(3) next_poll(4) ps by simp
    moreover have "max_consensus_rounds (en_params ?e) - en_round ?e \<le> length (poll_times es)"
      using 2(7) next_poll(2) ps by simp
    ultimately have "en_phase (run_round sha ad es ?e) = Accepted"
      using next_poll(1,3) 2(5) by (intro 2(1)) (simp_all only: ps)
    then show ?thesis by simp
  qed (simp add: run_accepted)
next
  case (3 p t es)
  let ?e = "peer_proposal_at ad e p t"
  have "round_open ?e" using 3(2) deliver_fields(10) [of ad e p t]
    by (auto simp: round_open_def own_ok_def deliver_fields(1-9))
  moreover have "late_enough ?e es"
    using 3(4) min_time_fields [OF deliver_fields(1,4)] by (simp add: late_enough_def)
  ultimately have "en_phase (run_round sha ad es ?e) = Accepted"
    using 3(3,5-7) by (intro 3(1)) (simp_all only: deliver_fields(1-9) poll_times.simps)
  then show ?case by simp
qed simp

text \<open>C2: A round ends: from any reachable establish phase in which a peer has been heard (or with no
  UNL), under any interleaving of deliveries and polls, where the polls are spaced by the proposal
  interval and come after the minimum time, the engine has accepted once there were as many polls as
  rounds were left.\<close>

theorem round_always_ends:
  assumes "engine_reachable sha e" and "en_phase e = Establish" and "peer_positions e \<noteq> [] \<or> unl_is_empty (en_unl e)"
    and "spaced (en_params e) (last_round_advance e) (poll_times es)" and "late_enough e es"
    and "max_consensus_rounds (en_params e) \<le> u32_max" and "en_round e < max_consensus_rounds (en_params e)"
    and "max_consensus_rounds (en_params e) - en_round e \<le> length (poll_times es)"
  shows "en_phase (run_round sha ad es e) = Accepted"
proof (rule round_ends [OF _ assms(4-8)])
  show "round_open e"
    using engine_reachable_inv [OF assms(1)] assms(2,3) by (auto simp: round_open_def engine_inv_def inv_phase_def)
qed

lemma example_spaced:
  "spaced default_params (Some (t * 2000000000)) (map (\<lambda>i. i * 2000000000) [Suc t..<Suc t + n])"
proof (induction n arbitrary: t)
  case (Suc n)
  have "[Suc t..<Suc t + Suc n] = Suc t # [Suc (Suc t)..<Suc (Suc t) + n]"
    by (metis add_Suc_right add_Suc_shift less_add_Suc1 upt_conv_Cons)
  moreover have "elapsed_ms (Suc t * 2000000000) (t * 2000000000) = 2000" by (simp add: elapsed_ms_def)
  ultimately show ?case using Suc [of "Suc t"] by (simp add: default_params_def)
qed simp

lemma example_polls: "poll_times (map Poll ts) = ts"
  by (induction ts) simp_all

theorem round_always_ends_witness:
  "en_phase (run_round (\<lambda>_. 0) example_adapter (map Poll (map (\<lambda>i. i * 2000000000) [Suc 0..<Suc 0 + 25]))
     (example_engine 0)) = Accepted"
proof (rule round_always_ends [OF example_engine_reachable])
  show "spaced (en_params (example_engine 0)) (last_round_advance (example_engine 0))
      (poll_times (map Poll (map (\<lambda>i. i * 2000000000) [Suc 0..<Suc 0 + 25])))"
    using example_spaced [of 0 25] by (simp only: example_engine_fields example_polls mult_0)
  show "late_enough (example_engine 0) (map Poll (map (\<lambda>i. i * 2000000000) [Suc 0..<Suc 0 + 25]))"
    by (simp only: late_enough_def example_polls) (simp add: list_all_iff min_consensus_time_elapsed_def default_params_def)
  show "max_consensus_rounds (en_params (example_engine 0)) - en_round (example_engine 0)
      \<le> length (poll_times (map Poll (map (\<lambda>i. i * 2000000000) [Suc 0..<Suc 0 + 25])))"
    by (simp only: example_polls) (simp add: default_params_def)
qed (simp_all add: round_unl_def unl_is_empty_def default_params_def u32_max_def)

end
