(* ===== verification/Engine_Agreement.thy ===== *)
theory Engine_Agreement
  imports Engine_Properties
begin

text \<open>
  What the engine's tallies compute: the counting tables of the close-time vote and of the wrong
  parent detector, the agreed close time, the transaction set a round of dispute resolution leaves,
  and the negative list after a flag ledger.
\<close>

subsection \<open>Counting tables\<close>

lemma hm_wf_bump: "hm_wf m \<Longrightarrow> hm_wf (bump w k m)"
  by (simp add: bump_def hm_wf_insert)

lemma tally_get:
  assumes w: "\<And>n. n \<le> length ks \<Longrightarrow> w n = n"
  shows "hm_get (fold (bump w) ks []) k = (if k \<in> set ks then Some (count_list ks k) else None)
    \<and> hm_wf (fold (bump w) ks [])"
  using w
proof (induction ks rule: rev_induct)
  case (snoc x xs)
  have "count_list xs x < length (xs @ [x])" by (simp add: count_le_length le_imp_less_Suc)
  then have "w (count_list xs x + 1) = count_list xs x + 1" by (intro snoc(2)) simp
  moreover have "count_list xs x = 0 \<longleftrightarrow> x \<notin> set xs" by (rule count_list_0_iff)
  ultimately show ?case
    using snoc by (auto simp: bump_def hm_get_insert hm_wf_insert)
qed simp

lemma tally_entries:
  assumes "\<And>n. n \<le> length ks \<Longrightarrow> w n = n"
  shows "set (fold (bump w) ks []) = (\<lambda>k. (k, count_list ks k)) ` set ks"
proof -
  let ?m = "fold (bump w) ks []"
  have wf: "hm_wf ?m" using tally_get [of ks w] assms by blast
  have "(k, v) \<in> set ?m \<longleftrightarrow> k \<in> set ks \<and> v = count_list ks k" for k v
    using tally_get [of ks w k] assms Some_eq_map_of_iff [OF wf, of v k] by (auto split: if_splits)
  then show ?thesis by force
qed

lemma tally_total:
  assumes "\<And>n. n \<le> length ks \<Longrightarrow> w n = n"
  shows "sum_list (hm_values (fold (bump w) ks [])) = length ks"
proof -
  let ?m = "fold (bump w) ks []"
  have wf: "distinct (map fst ?m)" using tally_get [of ks w] assms by blast
  have "sum_list (map snd ?m) = (\<Sum>p\<in>set ?m. snd p)"
    using sum_list_distinct_conv_sum_set [of ?m snd] wf by (simp add: distinct_map)
  also have "\<dots> = (\<Sum>k\<in>set ks. count_list ks k)"
    by (simp add: tally_entries [OF assms] sum.reindex inj_on_def)
  also have "\<dots> = length ks" by (rule sum_count_set) simp_all
  finally show ?thesis .
qed

lemma bump_Cons [simp]: "bump w k m \<noteq> []"
  by (cases m) (auto simp: bump_def)

lemma tally_empty: "fold (bump w) ks [] = [] \<longleftrightarrow> ks = []"
  by (cases ks rule: rev_cases) simp_all

lemma best_vote_max:
  assumes "vs \<noteq> []" and "\<forall>v\<in>set vs. 0 < snd v"
  shows "best_vote vs \<in> set vs \<and> (\<forall>v\<in>set vs. snd v < snd (best_vote vs)
    \<or> snd v = snd (best_vote vs) \<and> fst v \<le> fst (best_vote vs))"
proof -
  let ?f = "\<lambda>(bucket, cnt) (best_bucket, best_count).
     if best_count < cnt \<or> (cnt = best_count \<and> best_bucket < bucket) then (bucket, cnt) else (best_bucket, best_count)"
  let ?le = "\<lambda>v w. snd v < snd w \<or> snd v = snd w \<and> fst v \<le> fst (w :: nat \<times> nat)"
  have "fold ?f vs a \<in> insert a (set vs) \<and> (\<forall>v\<in>insert a (set vs). ?le v (fold ?f vs a))" for a
  proof (induction vs arbitrary: a)
    case (Cons x xs)
    define y where "y = ?f x a"
    have y: "y \<in> {x, a}" "?le x y" "?le a y" by (cases x; cases a; auto simp: y_def)+
    have "fold ?f xs y \<in> insert y (set xs)" "?le y (fold ?f xs y)" "\<forall>v\<in>set xs. ?le v (fold ?f xs y)"
      using Cons [of y] by blast+
    moreover have "?le x (fold ?f xs y)" "?le a (fold ?f xs y)" using y(2,3) calculation(2) by linarith+
    ultimately show ?case using y(1) by (auto simp: y_def [symmetric])
  qed simp
  from this [of "(0, 0)"] have "best_vote vs \<in> insert (0, 0) (set vs)"
    and max: "\<forall>v\<in>set vs. ?le v (best_vote vs)" by (simp_all add: best_vote_def)
  moreover have "best_vote vs \<noteq> (0, 0)" using assms max by (cases vs) auto
  ultimately show ?thesis by blast
qed

subsection \<open>The agreed close time\<close>

text \<open>The buckets voted for: one per known close time, ours and the peers', that lies after the parent.\<close>

definition ballots :: "engine \<Rightarrow> proposal \<Rightarrow> nat list" where
  "ballots e pos =
     (let resolution = act_resolution (en_close_time e) in
      filter (\<lambda>b. sat_add32 (prior_close_time e) 1 \<le> b)
        (map (\<lambda>t. round_close_time t resolution)
          (filter (\<lambda>t. t \<noteq> 0) (prop_close_time pos # map prop_close_time (hm_values (peer_positions e))))))"

lemma tally_votes:
  "fold (tally_vote r m) ts vs =
     fold (bump wrap32) (filter (\<lambda>b. m \<le> b) (map (\<lambda>t. round_close_time t r) (filter (\<lambda>t. t \<noteq> 0) ts))) vs"
  by (induction ts arbitrary: vs) (auto simp: tally_vote_def Let_def)

lemma close_time_votes_ballots:
  "close_time_votes e (prop_close_time pos) = fold (bump wrap32) (ballots e pos) []"
  using tally_votes [of "act_resolution (en_close_time e)" "sat_add32 (prior_close_time e) 1"
      "prop_close_time pos # map prop_close_time (hm_values (peer_positions e))" "[]"]
  by (simp add: close_time_votes_def ballots_def Let_def)

lemma ballots_bounded: "inv_peers e \<Longrightarrow> length (ballots e pos) \<le> 17"
proof -
  assume "inv_peers e"
  then have "length (peer_positions e) \<le> 16" using peers_bounded [of e] by (simp add: MAX_PROPOSALS_PER_PREV_def)
  then have "length (prop_close_time pos # map prop_close_time (hm_values (peer_positions e))) \<le> 17" by simp
  then show ?thesis
    unfolding ballots_def Let_def
    by (intro le_trans [OF length_filter_le]) (simp only: length_map, rule le_trans [OF length_filter_le])
qed

lemma best_of_ballots:
  assumes "inv_peers e" and "ballots e pos \<noteq> []"
  defines "vs \<equiv> close_time_votes e (prop_close_time pos)" and "bs \<equiv> ballots e pos"
  shows "snd (best_vote vs) = count_list bs (fst (best_vote vs))"
    and "count_list bs b \<le> snd (best_vote vs)"
    and "sum_list (hm_values vs) = length bs" and "vs \<noteq> []" and "snd (best_vote vs) \<le> 17"
proof -
  have w: "wrap32 n = n" if "n \<le> length bs" for n
    using that ballots_bounded [OF assms(1), of pos] by (simp add: wrap32_def bs_def)
  have vs: "vs = fold (bump wrap32) bs []" unfolding vs_def bs_def by (rule close_time_votes_ballots)
  have set: "set vs = (\<lambda>k. (k, count_list bs k)) ` set bs" unfolding vs by (rule tally_entries [OF w])
  show ne: "vs \<noteq> []" using assms(2) by (simp add: vs tally_empty bs_def)
  have "\<forall>v\<in>set vs. 0 < snd v" unfolding set by (auto simp: count_list_0_iff intro: gr0I)
  note best = best_vote_max [OF ne this]
  show c: "snd (best_vote vs) = count_list bs (fst (best_vote vs))" using best set by auto
  show "count_list bs b \<le> snd (best_vote vs)"
  proof (cases "b \<in> set bs")
    case True
    then have "(b, count_list bs b) \<in> set vs" by (simp add: set)
    then show ?thesis using best by fastforce
  qed (simp add: count_list_0_iff)
  show "sum_list (hm_values vs) = length bs" unfolding vs by (rule tally_total [OF w])
  show "snd (best_vote vs) \<le> 17"
    using c count_le_length [of bs] ballots_bounded [OF assms(1), of pos] by (metis bs_def le_trans)
qed

lemma majority_unique:
  assumes "length xs < 2 * count_list xs a" and "length xs < 2 * count_list xs b"
  shows "a = b"
proof (rule ccontr)
  assume "a \<noteq> b"
  then have "count_list xs a + count_list xs b \<le> length xs"
    by (induction xs) auto
  with assms show False by linarith
qed

text \<open>C5: The close time a round accepts, once a peer was heard: the bucket that holds a strict majority
  of the ballots, clamped above the parent's close time; with no ballot at all, our own time;
  and, when no bucket has a majority, the time 0, not agreed.\<close>

theorem close_time_by_majority:
  assumes "engine_reachable sha e" and "our_position e = Some pos" and "peer_positions e \<noteq> []"
  shows "(ballots e pos = [] \<longrightarrow> effective_close_time e =
            (eff_close_time (prop_close_time pos) (act_resolution (en_close_time e)) (prior_close_time e), True))
    \<and> (\<forall>b. length (ballots e pos) < 2 * count_list (ballots e pos) b \<longrightarrow> effective_close_time e =
            (eff_close_time b (act_resolution (en_close_time e)) (prior_close_time e), True))
    \<and> (ballots e pos \<noteq> [] \<and> (\<forall>b. 2 * count_list (ballots e pos) b \<le> length (ballots e pos))
         \<longrightarrow> effective_close_time e = (0, False))"
proof (cases "ballots e pos = []")
  case True
  then show ?thesis
    using assms(2,3) by (simp add: effective_close_time_def Let_def close_time_votes_ballots tally_empty)
next
  case False
  let ?vs = "close_time_votes e (prop_close_time pos)" and ?bs = "ballots e pos"
  have inv: "inv_peers e" using engine_reachable_inv [OF assms(1)] by (simp add: engine_inv_def)
  note best = best_of_ballots [OF inv False]
  obtain b c where bc: "best_vote ?vs = (b, c)" by fastforce
  have wrap: "wrap32 (c * 2) = c * 2" "wrap32 (length ?bs) = length ?bs"
    using best(5) bc ballots_bounded [OF inv, of pos] by (simp_all add: wrap32_def)
  have eff: "effective_close_time e = (if c * 2 \<le> length ?bs then (0, False)
      else (eff_close_time b (act_resolution (en_close_time e)) (prior_close_time e), True))"
    using assms(2,3) best(3,4) wrap by (simp add: effective_close_time_def Let_def bc eff_close_time_def [of 0])
  have c: "c = count_list ?bs b" "count_list ?bs x \<le> c" for x using best(1,2) bc by simp_all
  have "x = b" "\<not> c * 2 \<le> length ?bs" if "length ?bs < 2 * count_list ?bs x" for x
    using that c(2) [of x] majority_unique [OF that, of b] c(1) by auto
  moreover have "c * 2 \<le> length ?bs" if "\<forall>b. 2 * count_list ?bs b \<le> length ?bs"
    using that c(1) by (simp add: mult.commute)
  ultimately show ?thesis unfolding eff using False by auto
qed

definition example_heard :: "nat \<Rightarrow> engine" where
  "example_heard ct = peer_proposal_at example_adapter (example_engine 4) (example_peer 1 ct) ct"

lemma example_heard_reachable: "engine_reachable sha (example_heard ct)"
  unfolding example_heard_def by (rule reach_step [OF example_engine_reachable step_peer])

lemma deliver_clock:
  "en_close_time (peer_proposal_at ad e p t) = en_close_time e"
  "prior_close_time (peer_proposal_at ad e p t) = prior_close_time e"
proof -
  have [simp]: "en_close_time (note_peer e p) = en_close_time e" "prior_close_time (note_peer e p) = prior_close_time e"
    "en_close_time (create_disputes ad e) = en_close_time e" "prior_close_time (create_disputes ad e) = prior_close_time e"
    "en_close_time (hold_future_proposal e p) = en_close_time e"
    "prior_close_time (hold_future_proposal e p) = prior_close_time e" for e p
    by (simp_all add: note_peer_def create_disputes_def hold_future_proposal_def Let_def split: option.split prod.split)
  show "en_close_time (peer_proposal_at ad e p t) = en_close_time e"
    "prior_close_time (peer_proposal_at ad e p t) = prior_close_time e"
    by (cases rule: peer_proposal_cases [where ad = ad and e = e and p = p and now = t]; auto)+
qed

lemma example_heard_fields:
  "peer_positions (example_heard ct) = [(NodeId 1, example_peer 1 ct)]"
  "en_close_time (example_heard ct) = act_new 30" "prior_close_time (example_heard ct) = 0"
  "\<exists>pos. our_position (example_heard ct) = Some pos \<and> prop_close_time pos = 100"
proof -
  show "peer_positions (example_heard ct) = [(NodeId 1, example_peer 1 ct)]"
    unfolding example_heard_def by (rule example_delivery) (simp add: abs_diff_def)
  show "en_close_time (example_heard ct) = act_new 30" "prior_close_time (example_heard ct) = 0"
    by (simp_all add: example_heard_def deliver_clock example_engine_def closing_def Let_def engine_new_with_unl_def
        emit_def default_params_def)
  show "\<exists>pos. our_position (example_heard ct) = Some pos \<and> prop_close_time pos = 100"
    by (simp add: example_heard_def deliver_fields example_engine_def closing_def Let_def)
qed

theorem close_time_by_majority_witness:
  "effective_close_time (example_heard 100) = (90, True) \<and> effective_close_time (example_heard 50) = (0, False)"
proof -
  have res: "act_resolution (act_new 30) = 30"
    by (simp add: act_resolution_def act_new_def nearest_index_closed_form u32_max_def TIME_RESOLUTIONS_def)
  have bs: "ballots (example_heard ct) pos = filter (\<lambda>b. 1 \<le> b) (map (\<lambda>t. round_close_time t 30) [100, ct])"
    if "ct \<noteq> 0" "prop_close_time pos = 100" for ct pos
    using that by (simp add: ballots_def Let_def example_heard_fields res example_peer_def sat_add32_def u32_max_def)
  obtain p1 p2 where p: "our_position (example_heard 100) = Some p1" "prop_close_time p1 = 100"
    "our_position (example_heard 50) = Some p2" "prop_close_time p2 = 100" using example_heard_fields(4) by metis
  have b: "ballots (example_heard 100) p1 = [90, 90]" "ballots (example_heard 50) p2 = [90, 60]"
    using bs p by (simp_all add: round_close_time_def sat_add32_def u32_max_def)
  have "effective_close_time (example_heard 100) = (eff_close_time 90 30 0, True)"
    using close_time_by_majority [OF example_heard_reachable [of "\<lambda>_. 0"] p(1)]
    by (simp add: example_heard_fields b res)
  moreover have "effective_close_time (example_heard 50) = (0, False)"
    using close_time_by_majority [OF example_heard_reachable [of "\<lambda>_. 0"] p(3)]
    by (simp add: example_heard_fields b res)
  ultimately show ?thesis by (simp add: eff_close_time_def Let_def round_close_time_def sat_add32_def u32_max_def)
qed

subsection \<open>Dispute resolution\<close>

text \<open>The set after a pass over the disputes: a disputed transaction is in by the vote, any other stays.\<close>

lemma resolve_dispute_set:
  assumes "d_our_vote d = (d_tx_hash d \<in> set (fst st))"
  shows "tx \<in> set (fst (resolve_dispute th d st)) \<longleftrightarrow>
      (if tx = d_tx_hash d then dispute_our_vote d th else tx \<in> set (fst st))"
    and "snd (resolve_dispute th d st) \<longleftrightarrow> snd st \<or> dispute_our_vote d th \<noteq> d_our_vote d"
  using assms by (cases st; auto simp: resolve_dispute_def Let_def)+

lemma resolve_disputes_set:
  assumes "distinct (map d_tx_hash ds)" and "\<forall>d\<in>set ds. d_our_vote d = (d_tx_hash d \<in> set txs)"
  shows "(tx \<in> set (fst (fold (resolve_dispute th) ds (txs, c))) \<longleftrightarrow>
      (case map_of (map (\<lambda>d. (d_tx_hash d, d)) ds) tx of Some d \<Rightarrow> dispute_our_vote d th | None \<Rightarrow> tx \<in> set txs))
    \<and> (snd (fold (resolve_dispute th) ds (txs, c)) \<longleftrightarrow> c \<or> (\<exists>d\<in>set ds. dispute_our_vote d th \<noteq> d_our_vote d))"
  using assms
proof (induction ds arbitrary: txs c)
  case (Cons d ds)
  obtain txs' c' where st: "resolve_dispute th d (txs, c) = (txs', c')" by fastforce
  note set' = resolve_dispute_set [where d = d and st = "(txs, c)" and th = th, unfolded st fst_conv snd_conv]
  have vote: "d_our_vote d = (d_tx_hash d \<in> set txs)" using Cons.prems(2) by simp
  have "d_tx_hash x \<noteq> d_tx_hash d" if "x \<in> set ds" for x using Cons.prems(1) that by (metis distinct.simps(2) image_eqI list.map(2) set_map)
  then have "\<forall>x\<in>set ds. d_our_vote x = (d_tx_hash x \<in> set txs')"
    using Cons.prems(2) set'(1) [OF vote] by simp
  note IH = Cons.IH [OF _ this, of c']
  have "map_of (map (\<lambda>d. (d_tx_hash d, d)) ds) (d_tx_hash d) = None"
    using Cons.prems(1) by (simp add: map_of_eq_None_iff image_image)
  then show ?case
    using IH Cons.prems(1) set'(1) [OF vote, of tx] set'(2) [OF vote]
    by (cases "tx = d_tx_hash d") (auto simp: st split: option.splits)
qed simp

lemma disputes_as_list:
  assumes "disputes_ok ours ds"
  shows "map (\<lambda>d. (d_tx_hash d, d)) (hm_values ds) = ds" and "distinct (map d_tx_hash (hm_values ds))"
    and "\<forall>d\<in>set (hm_values ds). d_our_vote d = (d_tx_hash d \<in> set (ts_txs ours))"
proof -
  have hash: "d_tx_hash (snd p) = fst p" if "p \<in> set ds" for p
    using assms that by (auto simp: disputes_ok_def dispute_ok_def)
  show "map (\<lambda>d. (d_tx_hash d, d)) (hm_values ds) = ds"
    unfolding map_map by (rule map_idI) (use hash in force)
  have eq: "map d_tx_hash (hm_values ds) = map fst ds" by (auto simp: hash)
  show "distinct (map d_tx_hash (hm_values ds))" unfolding eq using assms by (simp add: disputes_ok_def)
  show "\<forall>d\<in>set (hm_values ds). d_our_vote d = (d_tx_hash d \<in> set (ts_txs ours))"
    using assms by (auto simp: disputes_ok_def dispute_ok_def)
qed

lemma disputes_of_reachable: "engine_reachable sha e \<Longrightarrow> our_set e = Some ours \<Longrightarrow> disputes_ok ours (disputes e)"
  using engine_reachable_inv [of sha e] by (simp add: engine_inv_def inv_disputes_def)

text \<open>C4: One pass of dispute resolution leaves exactly the set the votes ask for: a disputed transaction
  is kept or added if and only if its share of the votes reaches the round's avalanche threshold, and
  every undisputed one stays as it was. The pass reports a change exactly when some vote of ours
  flips; then our position carries the root of the new set and every dispute records our new vote.\<close>

theorem disputes_decide_our_set:
  assumes "engine_reachable sha e" and "our_set e = Some ours"
  shows "\<exists>ours'. our_set (fst (resolve_disputes sha e now)) = Some ours'
    \<and> (\<forall>tx. tx \<in> set (ts_txs ours') \<longleftrightarrow> (case hm_get (disputes e) tx of
          Some d \<Rightarrow> dispute_our_vote d (avalanche_dispute_threshold (en_round e)) | None \<Rightarrow> tx \<in> set (ts_txs ours)))
    \<and> (snd (resolve_disputes sha e now) \<longleftrightarrow>
         (\<exists>tx d. hm_get (disputes e) tx = Some d
            \<and> dispute_our_vote d (avalanche_dispute_threshold (en_round e)) \<noteq> (tx \<in> set (ts_txs ours))))
    \<and> list_all (\<lambda>(tx, d). d_our_vote d = (tx \<in> set (ts_txs ours'))) (disputes (fst (resolve_disputes sha e now)))"
proof -
  have ok: "disputes_ok ours (disputes e)" by (rule disputes_of_reachable [OF assms])
  let ?th = "avalanche_dispute_threshold (en_round e)" and ?ds = "hm_values (disputes e)"
  obtain txs c where st: "fold (resolve_dispute ?th) ?ds (ts_txs ours, False) = (txs, c)" by fastforce
  note list = disputes_as_list [OF ok]
  have mem: "tx \<in> set txs \<longleftrightarrow> (case hm_get (disputes e) tx of
      Some d \<Rightarrow> dispute_our_vote d ?th | None \<Rightarrow> tx \<in> set (ts_txs ours))"
    and flip: "c \<longleftrightarrow> (\<exists>d\<in>set ?ds. dispute_our_vote d ?th \<noteq> d_our_vote d)" for tx
    using resolve_disputes_set [OF list(2,3), of tx ?th False, unfolded list(1) st fst_conv snd_conv] by blast+
  have flip': "c \<longleftrightarrow> (\<exists>tx d. hm_get (disputes e) tx = Some d \<and> dispute_our_vote d ?th \<noteq> (tx \<in> set (ts_txs ours)))"
    unfolding flip using ok by (force simp: disputes_ok_def dispute_ok_def dest: map_of_SomeD)
  have dis: "list_all (\<lambda>(tx, d). d_our_vote d = (tx \<in> set (ts_txs ours))) (disputes e)"
    using ok by (auto simp: disputes_ok_def dispute_ok_def list_all_iff)
  have hash: "list_all (\<lambda>(tx, d). d_tx_hash d = tx) (disputes e)"
    using ok by (auto simp: disputes_ok_def dispute_ok_def list_all_iff)
  show ?thesis
  proof (cases c)
    case False
    have "tx \<in> set (ts_txs ours) \<longleftrightarrow> tx \<in> set txs" for tx
      using False flip' by (auto simp: mem split: option.split)
    then show ?thesis using False st assms(2) mem flip' dis by (simp add: resolve_disputes_def)
  next
    case True
    define ours' where "ours' = tx_set_from_items sha
        (map (\<lambda>tx. (tx, case hm_get (tx_blobs e) tx of Some b \<Rightarrow> b | None \<Rightarrow> [])) txs)"
    have res: "our_set (fst (resolve_disputes sha e now)) = Some ours'" "snd (resolve_disputes sha e now)"
      "disputes (fst (resolve_disputes sha e now)) =
         map (\<lambda>(tx, d). (tx, d\<lparr>d_our_vote := d_tx_hash d \<in> set (ts_txs ours')\<rparr>)) (disputes e)"
      using True st assms(2) by (simp_all add: resolve_disputes_def Let_def ours'_def image_image split: option.split)
    have "set (ts_txs ours') = set txs" by (simp add: ours'_def comp_def)
    moreover have "list_all (\<lambda>(tx, d). d_our_vote d = (tx \<in> set (ts_txs ours'))) (disputes (fst (resolve_disputes sha e now)))"
      unfolding res(3) using hash by (auto simp: list_all_iff)
    ultimately show ?thesis using res(1,2) mem flip' True by (intro exI [of _ ours']) simp
  qed
qed

theorem disputes_decide_our_set_witness:
  "\<not> snd (resolve_disputes (\<lambda>_. 0) (example_engine 4) 0)"
  using disputes_decide_our_set [OF example_engine_reachable, where n1 = 4 and now = 0 and ours = example_set and sha = "\<lambda>_. 0"]
  by auto

subsection \<open>The wrong parent\<close>

definition wrong_voters :: "engine \<Rightarrow> hash256 list" where
  "wrong_voters e = map snd (filter (\<lambda>v. is_trusted (en_unl e) (fst v)) (wrong_prev_ledger_votes e))"

definition right_voters :: "engine \<Rightarrow> nat" where
  "right_voters e = length (filter (\<lambda>p. is_trusted (en_unl e) (prop_node_id p)) (hm_values (peer_positions e)))"

lemma ledger_counts_tally: "ledger_counts e = fold (bump wrap64) (wrong_voters e) []"
proof -
  have "fold (\<lambda>(n, h) m. if is_trusted u n then bump wrap64 h m else m) vs m
      = fold (bump wrap64) (map snd (filter (\<lambda>v. is_trusted u (fst v)) vs)) m" for u vs and m :: "(hash256, nat) hmap"
    by (induction vs arbitrary: m) auto
  then show ?thesis by (simp add: ledger_counts_def wrong_voters_def)
qed

lemma max_by_count_max:
  assumes "m \<noteq> []"
  shows "\<exists>p. max_by_count m = Some p \<and> p \<in> set m \<and> (\<forall>q\<in>set m. snd q \<le> snd p)"
proof -
  let ?f = "\<lambda>p best. case best of None \<Rightarrow> Some p | Some b \<Rightarrow> if snd b \<le> snd p then Some p else Some b"
  have "\<exists>p. fold ?f m (Some b) = Some p \<and> p \<in> insert b (set m) \<and> (\<forall>q\<in>insert b (set m). snd q \<le> snd p)"
    for b and m :: "('k \<times> nat) list"
  proof (induction m arbitrary: b)
    case (Cons x xs)
    define y where "y = (if snd b \<le> snd x then x else b)"
    have y: "y \<in> {x, b}" "snd x \<le> snd y" "snd b \<le> snd y" by (auto simp: y_def)
    obtain p where p: "fold ?f xs (Some y) = Some p" "p \<in> insert y (set xs)" "\<forall>q\<in>insert y (set xs). snd q \<le> snd p"
      using Cons [of y] by blast
    have "?f x (Some b) = Some y" by (simp add: y_def)
    then have "fold ?f (x # xs) (Some b) = Some p" using p(1) by simp
    moreover have "\<forall>q\<in>insert b (set (x # xs)). snd q \<le> snd p" using p(3) y(2,3) by fastforce
    ultimately show ?case using p(2) y(1) by auto
  qed simp
  with assms show ?thesis by (cases m) (auto simp: max_by_count_def)
qed

lemma percent_of_ge:
  assumes "tot \<le> u32_max" and "0 < tot" and "WRONG_PREV_LEDGER_THRESHOLD \<le> percent_of c tot"
  shows "60 * tot \<le> 100 * c"
proof -
  have "60 \<le> wrap32 (wrap32 c * 100) div tot"
    using assms by (simp add: percent_of_def WRONG_PREV_LEDGER_THRESHOLD_def wrap32_def u32_max_def)
  then have "60 * tot \<le> wrap32 (wrap32 c * 100)" using assms(2) by (simp add: less_eq_div_iff_mult_less_eq)
  also have "\<dots> \<le> wrap32 c * 100" by (simp add: wrap32_def)
  also have "\<dots> \<le> c * 100" by (simp add: wrap32_def)
  finally show ?thesis by simp
qed

lemma supermajority_beats:
  fixes a c :: nat
  assumes "a + c \<le> w" and "60 * (r + w) \<le> 100 * c" and "0 < r + w"
  shows "a < c"
proof (rule ccontr)
  assume "\<not> a < c"
  then have "100 * c \<le> 50 * w" using assms(1) by simp
  then have "60 * (r + w) \<le> 50 * w" using assms(2) by (rule order_trans [rotated])
  then show False using assms(3) by simp
qed

lemma wrong_voters_other: "inv_wrong e \<Longrightarrow> h \<in> set (wrong_voters e) \<Longrightarrow> h \<noteq> en_prev_ledger e"
  by (auto simp: inv_wrong_def wrong_voters_def)

text \<open>C8: The engine reports a wrong parent only against a supermajority: the preferred ledger is not our
  parent, and at least sixty percent support it, either of the trusted validators in the validation
  trie or of the trusted peers of this round. In the second case the count is the number of trusted
  peers on that parent, and no other ledger has as many, so the iteration order of the table does
  not matter.\<close>

theorem wrong_parent_needs_supermajority:
  assumes "engine_reachable sha e" and "check_wrong_prev_ledger e = Some (e', Some d)"
    and "length (vt_trusted (en_validations e)) \<le> u32_max"
    and "length (wrong_voters e) + right_voters e \<le> u32_max"
  shows "preferred_ledger d \<noteq> en_prev_ledger e \<and> 0 < total_trusted d
    \<and> 60 * total_trusted d \<le> 100 * peer_count d
    \<and> (total_trusted d = vt_trusted_count (en_validations e)
         \<and> peer_count d = vt_count_for (en_validations e') (preferred_ledger d)
       \<or> total_trusted d = right_voters e + length (wrong_voters e)
         \<and> peer_count d = count_list (wrong_voters e) (preferred_ledger d)
         \<and> (\<forall>h. h \<noteq> preferred_ledger d \<longrightarrow> count_list (wrong_voters e) h < peer_count d))"
proof -
  have inv: "inv_wrong e" using engine_reachable_inv [OF assms(1)] by (simp add: engine_inv_def)
  have w: "wrap64 n = n" if "n \<le> length (wrong_voters e)" for n
    using that assms(4) by (simp add: wrap64_def u32_max_def)
  let ?v = "check_wrong_prev_ledger_from_validations e"
  consider (validations) "?v = Some (e', Some d)"
    | (proposals) e1 where "?v = Some (e1, None)"
    using assms(2) by (auto simp: check_wrong_prev_ledger_def split: if_splits option.splits)
  then show ?thesis
  proof cases
    case validations
    then show ?thesis
      using percent_of_ge [OF assms(3)]
      by (auto simp: check_wrong_prev_ledger_from_validations_def vt_trusted_count_def Let_def
          split: if_splits option.splits prod.splits)
  next
    case proposals
    then have same: "en_unl e1 = en_unl e" "wrong_prev_ledger_votes e1 = wrong_prev_ledger_votes e"
      "peer_positions e1 = peer_positions e"
      by (auto simp: check_wrong_prev_ledger_from_validations_def Let_def split: if_splits option.splits)
    then have counts: "ledger_counts e1 = fold (bump wrap64) (wrong_voters e) []"
      by (simp add: ledger_counts_tally wrong_voters_def)
    have total: "sum_list (hm_values (ledger_counts e1)) = length (wrong_voters e)"
      unfolding counts by (rule tally_total [OF w])
    obtain h c where max: "max_by_count (ledger_counts e1) = Some (h, c)"
      and d: "d = \<lparr>preferred_ledger = h, peer_count = c, total_trusted = right_voters e + length (wrong_voters e)\<rparr>"
      and pos: "0 < right_voters e + length (wrong_voters e)"
      and pct: "WRONG_PREV_LEDGER_THRESHOLD \<le> percent_of c (right_voters e + length (wrong_voters e))"
      using assms(2) proposals total same
      by (auto simp: check_wrong_prev_ledger_def right_voters_def Let_def split: if_splits option.splits)
    have "(h, c) \<in> set (ledger_counts e1)"
      using max_by_count_max [of "ledger_counts e1"] max by (cases "ledger_counts e1 = []") (auto simp: max_by_count_def)
    moreover have "set (ledger_counts e1) = (\<lambda>k. (k, count_list (wrong_voters e) k)) ` set (wrong_voters e)"
      unfolding counts by (rule tally_entries [OF w])
    ultimately have h: "h \<in> set (wrong_voters e)" "c = count_list (wrong_voters e) h" by auto
    have ge: "60 * (right_voters e + length (wrong_voters e)) \<le> 100 * c"
      by (rule percent_of_ge [OF _ pos pct]) (use assms(4) in simp)
    have "count_list (wrong_voters e) h' < c" if "h' \<noteq> h" for h'
    proof -
      have "count_list xs h' + count_list xs h \<le> length xs" for xs using that by (induction xs) auto
      from this [of "wrong_voters e"] have "count_list (wrong_voters e) h' + c \<le> length (wrong_voters e)"
        by (simp add: h(2))
      then show ?thesis by (rule supermajority_beats [OF _ ge pos])
    qed
    then show ?thesis using d ge pos h wrong_voters_other [OF inv] by auto
  qed
qed

definition example_astray :: engine where
  "example_astray = peer_proposal_at example_adapter (example_engine 4) ((example_peer 1 100)\<lparr>prop_prev_ledger := 9\<rparr>) 100"

lemma example_astray_fields:
  "wrong_prev_ledger_votes example_astray = [(NodeId 1, 9)]" "en_unl example_astray = round_unl 4"
  "peer_positions example_astray = []" "en_validations example_astray = en_validations (example_engine 4)"
  "prev_ledger_seq example_astray = 0"
proof -
  let ?p = "(example_peer 1 100)\<lparr>prop_prev_ledger := 9\<rparr>" and ?e = "example_engine 4"
  have [simp]: "en_validations (note_peer e p) = en_validations e" "prev_ledger_seq (note_peer e p) = prev_ledger_seq e"
    "en_validations (hold_future_proposal e p) = en_validations e"
    "prev_ledger_seq (hold_future_proposal e p) = prev_ledger_seq e" for e p
    by (simp_all add: note_peer_def hold_future_proposal_def Let_def)
  have "unl_admits (note_peer ?e ?p) ?p"
    using example_trusted [of 1 4] by (simp add: unl_admits_def example_peer_def)
  moreover have "en_prev_ledger ?e = 0" "wrong_prev_ledger_votes ?e = []" "prev_ledger_seq ?e = 0"
    by (simp_all add: example_engine_def closing_def Let_def engine_new_with_unl_def emit_def)
  ultimately have eq: "example_astray = hold_future_proposal ((note_peer ?e ?p)\<lparr>wrong_prev_ledger_votes := [(NodeId 1, 9)],
      held_pending_total := wrap64 (held_pending_total (note_peer ?e ?p) + 1)\<rparr>) ?p"
    by (simp add: example_astray_def peer_proposal_at_def Let_def PROPOSAL_FRESHNESS_SECS_def abs_diff_def
        example_peer_def)
  show "wrong_prev_ledger_votes example_astray = [(NodeId 1, 9)]" "en_unl example_astray = round_unl 4"
    "peer_positions example_astray = []" "en_validations example_astray = en_validations ?e"
    "prev_ledger_seq example_astray = 0"
    unfolding eq using \<open>prev_ledger_seq ?e = 0\<close> by simp_all
qed

theorem wrong_parent_needs_supermajority_witness:
  "\<exists>e' d. check_wrong_prev_ledger example_astray = Some (e', Some d) \<and> preferred_ledger d \<noteq> en_prev_ledger example_astray"
proof -
  have reach: "engine_reachable (\<lambda>_. 0) example_astray"
    unfolding example_astray_def by (rule reach_step [OF example_engine_reachable step_peer])
  have vt: "en_validations (example_engine 4) = fold (\<lambda>n t. vt_add_trusted t n) (trusted (round_unl 4)) vt_new"
    by (simp add: example_engine_def closing_def Let_def engine_new_with_unl_def emit_def)
  have add: "vt_latest (fold (\<lambda>n t. vt_add_trusted t n) ns t) = vt_latest t \<and> vt_trie (fold (\<lambda>n t. vt_add_trusted t n) ns t) = vt_trie t
      \<and> length (vt_trusted (fold (\<lambda>n t. vt_add_trusted t n) ns t)) \<le> length (vt_trusted t) + length ns" for ns t
    by (induction ns rule: rev_induct) (auto simp: vt_add_trusted_def length_hs_insert)
  have len: "length (vt_trusted (en_validations example_astray)) \<le> u32_max"
    using add [of "trusted (round_unl 4)" vt_new]
    by (simp add: vt example_astray_fields u32_max_def vt_new_def round_unl_def)
  have "vt_latest (en_validations example_astray) = []" "vt_trie (en_validations example_astray) = trie_new"
    using add by (simp_all add: example_astray_fields vt vt_new_def)
  then have "vt_get_preferred (en_validations example_astray) s = Some (en_validations example_astray, None)" for s
    by (simp add: vt_get_preferred_def trie_new_def trie_get_preferred_def trie_is_empty_def node_new_def)
  then have "check_wrong_prev_ledger_from_validations example_astray = Some (example_astray, None)"
    by (simp add: check_wrong_prev_ledger_from_validations_def Let_def)
  moreover have "is_trusted (round_unl 4) (NodeId 1)" using example_trusted [of 1 4] by simp
  ultimately have "\<exists>d. check_wrong_prev_ledger example_astray = Some (example_astray, Some d)"
    by (simp add: check_wrong_prev_ledger_def example_astray_fields unl_is_empty_def round_unl_def ledger_counts_tally
        wrong_voters_def bump_def max_by_count_def Let_def percent_of_def wrap32_def wrap64_def WRONG_PREV_LEDGER_THRESHOLD_def)
  then obtain d where d: "check_wrong_prev_ledger example_astray = Some (example_astray, Some d)" by blast
  have "length (wrong_voters example_astray) + right_voters example_astray \<le> u32_max"
    by (simp add: wrong_voters_def right_voters_def example_astray_fields u32_max_def)
  from wrong_parent_needs_supermajority [OF reach d len this] d show ?thesis by blast
qed

subsection \<open>The negative list after a flag ledger\<close>

lemma fold_disable:
  "set (negative_unl (fold (\<lambda>n u. if is_in_negative_unl u n then u else add_to_negative_unl u n) ds u))
      = set ds \<union> set (negative_unl u)
   \<and> trusted (fold (\<lambda>n u. if is_in_negative_unl u n then u else add_to_negative_unl u n) ds u) = trusted u"
  by (induction ds arbitrary: u) (auto simp: is_in_negative_unl_def add_to_negative_unl_def)

lemma fold_enable:
  "set (negative_unl (fold (\<lambda>n u. if n \<in> set ds then u else remove_from_negative_unl u n) ns u))
      = {n \<in> set (negative_unl u). n \<in> set ds \<or> n \<notin> set ns}
   \<and> trusted (fold (\<lambda>n u. if n \<in> set ds then u else remove_from_negative_unl u n) ns u) = trusted u"
  by (induction ns arbitrary: u) (auto simp: remove_from_negative_unl_def)

lemma sync_negative:
  "set (negative_unl (sync_negative_unl ds u)) = set ds" "trusted (sync_negative_unl ds u) = trusted u"
  using fold_disable [of ds u] by (auto simp: sync_negative_unl_def Let_def fold_enable)

text \<open>The trusted validators that are disabled in the tracker.\<close>

definition disabled_trusted :: "engine \<Rightarrow> nat" where
  "disabled_trusted e = card (set (trusted (en_unl e)) \<inter> set (currently_disabled (en_nunl e)))"

lemma effective_size_minus:
  assumes "distinct (trusted u)"
  shows "effective_size u = length (trusted u) - card (set (trusted u) \<inter> set (negative_unl u))"
proof -
  have "effective_size u = card (set (trusted u) - set (negative_unl u))"
    using distinct_card [OF distinct_filter [OF assms]] by (simp add: effective_size_def set_diff_eq)
  then show ?thesis using distinct_card [OF assms] by (simp add: card_Diff_subset_Int)
qed

lemma evaluate_disabled_trusted:
  assumes "distinct (trusted (en_unl e))" and "distinct (currently_disabled (en_nunl e))"
  shows "card (set (trusted (en_unl e)) \<inter> set (currently_disabled (fst (nunl_evaluate (en_nunl e) (trusted (en_unl e)) s))))
    \<le> max (disabled_trusted e) (length (trusted (en_unl e)) div 4)"
proof -
  let ?T = "set (trusted (en_unl e))" and ?D = "set (currently_disabled (en_nunl e))"
  let ?D' = "set (currently_disabled (fst (nunl_evaluate (en_nunl e) (trusted (en_unl e)) s)))"
  have "?D' \<subseteq> ?D \<or> card ?D' \<le> length (trusted (en_unl e)) div 4"
    using evaluate_disabled [OF assms(2), of "trusted (en_unl e)" s] by simp
  moreover have "card (?T \<inter> ?D') \<le> card (?T \<inter> ?D)" if "?D' \<subseteq> ?D" using that by (intro card_mono) auto
  moreover have "card (?T \<inter> ?D') \<le> card ?D'" by (intro card_mono) auto
  ultimately show ?thesis unfolding disabled_trusted_def by linarith
qed

text \<open>C9: A flag ledger brings the negative list of the UNL in line with the tracker and leaves the
  trusted list as it is. It raises the number of disabled trusted validators at most to a quarter
  of the list, exactly the others count toward the quorum, and the quorum is at least eighty
  percent of them. So if at most a quarter of the list was disabled before, the quorum is at
  least sixty percent of the whole list afterwards. The engine does not re-establish that condition
  when a published list shrinks while validators are disabled. On any other ledger nothing
  changes.\<close>

theorem flag_ledger_keeps_quorum:
  assumes "distinct (trusted (en_unl e))" and "distinct (currently_disabled (en_nunl e))"
    and "evaluate_negative_unl e s = (e', changes)"
  defines "n \<equiv> length (trusted (en_unl e))"
  shows "(if is_flag_ledger s
          then set (negative_unl (en_unl e')) = set (currently_disabled (en_nunl e'))
             \<and> trusted (en_unl e') = trusted (en_unl e)
             \<and> disabled_trusted e' \<le> max (disabled_trusted e) (n div 4)
             \<and> effective_size (en_unl e') = n - disabled_trusted e'
             \<and> 80 * (n - disabled_trusted e') \<le> 100 * quorum_threshold (en_unl e')
             \<and> (4 * disabled_trusted e \<le> n \<longrightarrow> 60 * n \<le> 100 * quorum_threshold (en_unl e'))
          else e' = e \<and> changes = [])"
proof (cases "is_flag_ledger s")
  case True
  obtain t where t: "nunl_evaluate (en_nunl e) (trusted (en_unl e)) s = (t, changes)"
    and e': "e' = e\<lparr>en_nunl := t, en_unl := sync_negative_unl (currently_disabled t) (en_unl e)\<rparr>"
    using assms(3) True by (auto simp: evaluate_negative_unl_def split: prod.splits)
  have sync: "set (negative_unl (en_unl e')) = set (currently_disabled (en_nunl e'))"
    "trusted (en_unl e') = trusted (en_unl e)" by (simp_all add: e' sync_negative)
  have d: "disabled_trusted e' \<le> max (disabled_trusted e) (n div 4)"
    using evaluate_disabled_trusted [OF assms(1,2), of s]
    unfolding disabled_trusted_def [of e'] sync by (simp add: e' t n_def)
  have eff: "effective_size (en_unl e') = n - disabled_trusted e'"
    using effective_size_minus [of "en_unl e'"] assms(1) by (simp add: sync disabled_trusted_def n_def)
  then have q: "80 * (n - disabled_trusted e') \<le> 100 * quorum_threshold (en_unl e')"
    using quorum_threshold_ge [of "en_unl e'"] by simp
  then have "60 * n \<le> 100 * quorum_threshold (en_unl e')" if "4 * disabled_trusted e \<le> n"
    using d that by linarith
  with True sync d eff q show ?thesis by simp
qed (use assms(3) in \<open>simp add: evaluate_negative_unl_def\<close>)

definition example_flagged :: engine where
  "example_flagged = (example_engine 4)\<lparr>en_nunl := example_nunl\<rparr>"

theorem flag_ledger_keeps_quorum_witness:
  "(let e' = fst (evaluate_negative_unl example_flagged 256)
    in is_flag_ledger 256 \<and> disabled_trusted example_flagged = 0 \<and> negative_unl (en_unl e') \<noteq> []
     \<and> disabled_trusted e' \<le> 1 \<and> 240 \<le> 100 * quorum_threshold (en_unl e'))"
proof -
  have T: "trusted (en_unl example_flagged) = [NodeId 0, NodeId 1, NodeId 2, NodeId 3]"
    by (simp add: example_flagged_def round_unl_def upt_rec)
  have N: "en_nunl example_flagged = example_nunl" by (simp add: example_flagged_def)
  have flag: "is_flag_ledger 256" by (simp add: is_flag_ledger_def FLAG_LEDGER_INTERVAL_def)
  have D: "currently_disabled (fst (nunl_evaluate example_nunl [NodeId 0, NodeId 1, NodeId 2, NodeId 3] 256)) = [NodeId 1]"
    by (simp add: nunl_evaluate_def example_nunl_eq max_negative_unl_size_eq validation_ratio_def
        nunl_received_def RELIABILITY_THRESHOLD_def rotate_window_def)
  have "set (negative_unl (en_unl (fst (evaluate_negative_unl example_flagged 256)))) = {NodeId 1}"
    using D by (simp add: evaluate_negative_unl_def flag T N sync_negative case_prod_beta)
  moreover have "disabled_trusted example_flagged = 0" by (simp add: disabled_trusted_def N example_nunl_eq)
  moreover have "distinct (currently_disabled (en_nunl example_flagged))" by (simp add: N example_nunl_eq)
  ultimately show ?thesis
    using flag_ledger_keeps_quorum [OF _ _ surjective_pairing, of example_flagged 256] flag T
    by (auto simp: Let_def)
qed

end
