(* ===== verification/Tx_Queue.thy ===== *)
theory Tx_Queue
  imports Prelude
begin

text \<open>
  The transaction queue of \<^verbatim>\<open>crates/txq/src/{fee,queue,error}.rs\<close>: fee levels, fee escalation,
  the four indexes of the queue and every operation on them. The JSON of a transaction is opaque to
  the queue: it is the type parameter of an entry. A \<open>BTreeMap\<close> keyed by \<open>Reverse<FeeLevel>\<close> is an
  association list in descending key order, its iteration order. The theorems show that the indexes
  stay consistent, what a submission decides, which entries the two drains return, and that the fee
  index drops entries of equal fee level.
\<close>

subsection \<open>Fee levels\<close>

definition fee_level_new :: "nat \<Rightarrow> nat \<Rightarrow> nat" where
  "fee_level_new fee_drops base_fee =
     (if base_fee = 0 then fee_drops else wrap64 (fee_drops * 256) div base_fee)"

record fee_metrics =
  queue_size :: nat
  fm_max_size :: nat

definition BASE_FEE_LEVEL :: nat where
  "BASE_FEE_LEVEL = 256"

definition MAX_ACCOUNT_QUEUE_DEPTH :: nat where
  "MAX_ACCOUNT_QUEUE_DEPTH = 10"

definition fee_metrics_new :: "nat \<Rightarrow> fee_metrics" where
  "fee_metrics_new cap = \<lparr>queue_size = 0, fm_max_size = cap\<rparr>"

definition from_queue :: "nat \<Rightarrow> nat \<Rightarrow> fee_metrics" where
  "from_queue sz cap = \<lparr>queue_size = sz, fm_max_size = cap\<rparr>"

definition escalated_fee_level :: "fee_metrics \<Rightarrow> nat \<Rightarrow> nat" where
  "escalated_fee_level m base_fee_level =
     (if fm_max_size m = 0 \<or> queue_size m \<le> fm_max_size m div 2 then base_fee_level
      else
        (let ratio = wrap64 (queue_size m * 256) div fm_max_size m
         in wrap64 (base_fee_level * ratio) div 128))"

definition escalated_fee_drops :: "fee_metrics \<Rightarrow> nat \<Rightarrow> nat" where
  "escalated_fee_drops m base_fee = div_ceil (wrap64 (escalated_fee_level m BASE_FEE_LEVEL * base_fee)) 256"

subsection \<open>The queue\<close>

datatype txq_error =
    QueueFull
  | AccountQueueFull
  | FeeTooLow nat
  | FeeTooLowForReplacement
  | SequenceGap
  | Duplicate
  | Expired
  | EngineError string

record 'tx queue_entry =
  qe_hash :: hash256
  qe_tx :: 'tx
  qe_fee_level :: nat
  qe_account :: string
  qe_sequence :: nat
  qe_last_ledger_sequence :: "nat option"
  qe_preflight_passed :: bool

record queue_metrics =
  total_queued :: nat
  total_applied :: nat
  total_expired :: nat
  total_dropped :: nat
  total_replaced :: nat

record 'tx tx_queue =
  by_fee :: "(nat \<times> hash256) list"
  by_hash :: "(hash256, 'tx queue_entry) hmap"
  by_account :: "(string, hash256 list) hmap"
  by_account_seq :: "(string \<times> nat, hash256) hmap"
  q_max_size :: nat
  q_metrics :: queue_metrics

text \<open>\<open>BTreeMap::insert\<close> under the reversed order: an equal key is overwritten.\<close>

fun fee_insert :: "nat \<Rightarrow> 'v \<Rightarrow> (nat \<times> 'v) list \<Rightarrow> (nat \<times> 'v) list" where
  "fee_insert k v [] = [(k, v)]"
| "fee_insert k v ((k', v') # m) =
     (if k' < k then (k, v) # (k', v') # m
      else if k' = k then (k, v) # m
      else (k', v') # fee_insert k v m)"

definition txq_new :: "nat \<Rightarrow> 'tx tx_queue" where
  "txq_new cap =
     \<lparr>by_fee = [], by_hash = [], by_account = [], by_account_seq = [], q_max_size = cap,
      q_metrics = \<lparr>total_queued = 0, total_applied = 0, total_expired = 0, total_dropped = 0,
        total_replaced = 0\<rparr>\<rparr>"

definition txq_remove :: "hash256 \<Rightarrow> 'tx tx_queue \<Rightarrow> 'tx tx_queue \<times> 'tx queue_entry option" where
  "txq_remove h q =
     (case hm_get (by_hash q) h of None \<Rightarrow> (q, None)
      | Some entry \<Rightarrow>
          (let accounts = (case hm_get (by_account q) (qe_account entry) of None \<Rightarrow> by_account q
                 | Some hs \<Rightarrow>
                     (let hs = filter (\<lambda>x. x \<noteq> h) hs in
                      if hs = [] then hm_remove (qe_account entry) (by_account q)
                      else hm_insert (qe_account entry) hs (by_account q)))
           in (q\<lparr>by_hash := hm_remove h (by_hash q),
                 by_fee := filter (\<lambda>(_, x). x \<noteq> h) (by_fee q),
                 by_account := accounts,
                 by_account_seq := hm_remove (qe_account entry, qe_sequence entry) (by_account_seq q)\<rparr>,
               Some entry)))"

definition submit :: "'tx tx_queue \<Rightarrow> 'tx queue_entry \<Rightarrow> 'tx tx_queue \<times> (txq_error + unit)" where
  "submit q entry =
     (if hm_get (by_hash q) (qe_hash entry) \<noteq> None then (q, Inl Duplicate)
      else
        (let existing = (case hm_get (by_account_seq q) (qe_account entry, qe_sequence entry) of None \<Rightarrow> None
               | Some h \<Rightarrow> map_option (\<lambda>e. (h, e)) (hm_get (by_hash q) h)) in
         if (case existing of Some (_, e) \<Rightarrow> qe_fee_level entry \<le> qe_fee_level e | None \<Rightarrow> False)
         then (q, Inl FeeTooLowForReplacement)
         else
           (let q = (case existing of None \<Rightarrow> q
                  | Some (h, _) \<Rightarrow>
                      (fst (txq_remove h q))\<lparr>q_metrics :=
                         (q_metrics q)\<lparr>total_replaced := wrap64 (total_replaced (q_metrics q) + 1)\<rparr>\<rparr>) in
            if q_max_size q \<le> length (by_hash q) then (q, Inl QueueFull)
            else if MAX_ACCOUNT_QUEUE_DEPTH \<le>
                (case hm_get (by_account q) (qe_account entry) of Some hs \<Rightarrow> length hs | None \<Rightarrow> 0)
            then (q, Inl AccountQueueFull)
            else
              (q\<lparr>by_fee := fee_insert (qe_fee_level entry) (qe_hash entry) (by_fee q),
                 by_account := hm_insert (qe_account entry)
                   ((case hm_get (by_account q) (qe_account entry) of Some hs \<Rightarrow> hs | None \<Rightarrow> []) @ [qe_hash entry])
                   (by_account q),
                 by_account_seq := hm_insert (qe_account entry, qe_sequence entry) (qe_hash entry) (by_account_seq q),
                 by_hash := hm_insert (qe_hash entry) entry (by_hash q),
                 q_metrics := (q_metrics q)\<lparr>total_queued := wrap64 (total_queued (q_metrics q) + 1)\<rparr>\<rparr>,
               Inr ()))))"

definition remove_all :: "hash256 list \<Rightarrow> 'tx tx_queue \<Rightarrow> 'tx tx_queue" where
  "remove_all hs q = fold (\<lambda>h q. fst (txq_remove h q)) hs q"

definition remove_if :: "(hash256 \<Rightarrow> bool) \<Rightarrow> 'tx tx_queue \<Rightarrow> 'tx tx_queue" where
  "remove_if should_remove q = remove_all (filter should_remove (hm_keys (by_hash q))) q"

definition is_expired :: "nat \<Rightarrow> 'tx queue_entry \<Rightarrow> bool" where
  "is_expired current e = (case qe_last_ledger_sequence e of Some lls \<Rightarrow> lls < current | None \<Rightarrow> False)"

definition remove_expired :: "nat \<Rightarrow> 'tx tx_queue \<Rightarrow> 'tx tx_queue" where
  "remove_expired current q =
     (let expired = map fst (filter (\<lambda>(_, e). is_expired current e) (by_hash q));
          q = remove_all expired q
      in q\<lparr>q_metrics := (q_metrics q)\<lparr>total_expired := wrap64 (total_expired (q_metrics q) + length expired)\<rparr>\<rparr>)"

definition peek :: "'tx tx_queue \<Rightarrow> 'tx queue_entry option" where
  "peek q = (case by_fee q of [] \<Rightarrow> None | (_, h) # _ \<Rightarrow> hm_get (by_hash q) h)"

definition txq_len :: "'tx tx_queue \<Rightarrow> nat" where
  "txq_len q = length (by_hash q)"

definition txq_is_empty :: "'tx tx_queue \<Rightarrow> bool" where
  "txq_is_empty q = (by_hash q = [])"

definition account_txs :: "'tx tx_queue \<Rightarrow> string \<Rightarrow> hash256 list" where
  "account_txs q a = (case hm_get (by_account q) a of Some hs \<Rightarrow> hs | None \<Rightarrow> [])"

definition txq_get :: "'tx tx_queue \<Rightarrow> hash256 \<Rightarrow> 'tx queue_entry option" where
  "txq_get q h = hm_get (by_hash q) h"

definition txq_accounts :: "'tx tx_queue \<Rightarrow> string list" where
  "txq_accounts q = hm_keys (by_account q)"

definition clear_indexes :: "'tx tx_queue \<Rightarrow> 'tx tx_queue" where
  "clear_indexes q = q\<lparr>by_fee := [], by_hash := [], by_account := [], by_account_seq := []\<rparr>"

definition drain_for_retry :: "'tx tx_queue \<Rightarrow> 'tx tx_queue \<times> 'tx queue_entry list" where
  "drain_for_retry q = (clear_indexes q, List.map_filter (\<lambda>(_, h). hm_get (by_hash q) h) (by_fee q))"

text \<open>\<open>entry(account).or_default().push(entry)\<close> and the two stable sorts.\<close>

definition group_push :: "'tx queue_entry \<Rightarrow> (string, 'tx queue_entry list) hmap \<Rightarrow> (string, 'tx queue_entry list) hmap" where
  "group_push e m = hm_insert (qe_account e) ((case hm_get m (qe_account e) of Some es \<Rightarrow> es | None \<Rightarrow> []) @ [e]) m"

definition group_fee :: "'tx queue_entry list \<Rightarrow> nat" where
  "group_fee es = (if es = [] then fee_level_new 0 1 else Max (set (map qe_fee_level es)))"

definition drain_for_retry_ordered :: "'tx tx_queue \<Rightarrow> 'tx tx_queue \<times> (string \<times> 'tx queue_entry list) list" where
  "drain_for_retry_ordered q =
     (let groups = fold group_push (hm_values (by_hash q)) [];
          groups = map (\<lambda>(a, es). (a, sort_key qe_sequence es)) groups
      in (clear_indexes q, sort_key (\<lambda>(_, es). - int (group_fee es)) groups))"

definition record_drop :: "'tx tx_queue \<Rightarrow> 'tx tx_queue" where
  "record_drop q = q\<lparr>q_metrics := (q_metrics q)\<lparr>total_dropped := wrap64 (total_dropped (q_metrics q) + 1)\<rparr>\<rparr>"

definition record_applied :: "'tx tx_queue \<Rightarrow> 'tx tx_queue" where
  "record_applied q = q\<lparr>q_metrics := (q_metrics q)\<lparr>total_applied := wrap64 (total_applied (q_metrics q) + 1)\<rparr>\<rparr>"

subsection \<open>Fee escalation\<close>

lemma escalated_ge_base:
  assumes "queue_size m * 256 \<le> u64_max" and "b * (queue_size m * 256 div fm_max_size m) \<le> u64_max"
  shows "b \<le> escalated_fee_level m b"
proof (cases "fm_max_size m = 0 \<or> queue_size m \<le> fm_max_size m div 2")
  case False
  then have pos: "0 < fm_max_size m" and half: "fm_max_size m < 2 * queue_size m" by auto
  have "128 * fm_max_size m \<le> queue_size m * 256" using half by simp
  then have "128 \<le> queue_size m * 256 div fm_max_size m" using pos by (simp add: less_eq_div_iff_mult_less_eq)
  then have "b * 128 \<le> b * (queue_size m * 256 div fm_max_size m)" by simp
  then have "b \<le> b * (queue_size m * 256 div fm_max_size m) div 128" by (simp add: less_eq_div_iff_mult_less_eq)
  then show ?thesis using False assms by (simp add: escalated_fee_level_def Let_def wrap64_id)
qed (simp add: escalated_fee_level_def)

text \<open>The escalated fee always pays: converted to drops and back to a level it reaches the escalated
  level, which is never below the base level, whatever the fill of the queue, as long as the 64-bit
  products do not overflow.\<close>

theorem escalated_fee_pays:
  assumes "queue_size m * 256 \<le> u64_max" and "256 * (queue_size m * 256 div fm_max_size m) \<le> u64_max"
    and "0 < base_fee" and "escalated_fee_level m BASE_FEE_LEVEL * base_fee + 255 \<le> u64_max"
  shows "BASE_FEE_LEVEL \<le> escalated_fee_level m BASE_FEE_LEVEL
    \<and> escalated_fee_level m BASE_FEE_LEVEL \<le> fee_level_new (escalated_fee_drops m base_fee) base_fee"
proof
  show "BASE_FEE_LEVEL \<le> escalated_fee_level m BASE_FEE_LEVEL"
    by (rule escalated_ge_base) (use assms(1,2) in \<open>simp_all add: BASE_FEE_LEVEL_def\<close>)
  define lv where "lv = escalated_fee_level m BASE_FEE_LEVEL"
  define d where "d = escalated_fee_drops m base_fee"
  have d: "d = (lv * base_fee + 255) div 256"
    using assms(4) by (simp add: d_def escalated_fee_drops_def lv_def wrap64_id div_ceil_def)
  have "lv * base_fee \<le> d * 256" unfolding d by linarith
  moreover have "d * 256 \<le> lv * base_fee + 255" unfolding d by (rule div_times_less_eq_dividend)
  ultimately have "lv \<le> wrap64 (d * 256) div base_fee"
    using assms(3,4) by (simp add: wrap64_id lv_def less_eq_div_iff_mult_less_eq)
  then show "escalated_fee_level m BASE_FEE_LEVEL \<le> fee_level_new (escalated_fee_drops m base_fee) base_fee"
    using assms(3) by (simp add: fee_level_new_def lv_def d_def)
qed

theorem escalated_fee_pays_witness:
  "escalated_fee_level (from_queue 80 100) 256 \<le> fee_level_new (escalated_fee_drops (from_queue 80 100) 10) 10"
  using escalated_fee_pays [of "from_queue 80 100" 10]
  by (simp add: from_queue_def escalated_fee_level_def BASE_FEE_LEVEL_def wrap64_def u64_max_def Let_def)

subsection \<open>Invariant\<close>

definition hash_index_ok :: "'tx tx_queue \<Rightarrow> bool" where
  "hash_index_ok q \<longleftrightarrow> hm_wf (by_hash q) \<and> (\<forall>h e. hm_get (by_hash q) h = Some e \<longrightarrow> qe_hash e = h)"

definition seq_index_ok :: "'tx tx_queue \<Rightarrow> bool" where
  "seq_index_ok q \<longleftrightarrow> (\<forall>a s h. hm_get (by_account_seq q) (a, s) = Some h \<longleftrightarrow>
     (\<exists>e. hm_get (by_hash q) h = Some e \<and> qe_account e = a \<and> qe_sequence e = s))"

definition account_index_ok :: "'tx tx_queue \<Rightarrow> bool" where
  "account_index_ok q \<longleftrightarrow> (\<forall>a. distinct (account_txs q a) \<and> hm_get (by_account q) a \<noteq> Some []
     \<and> length (account_txs q a) \<le> MAX_ACCOUNT_QUEUE_DEPTH
     \<and> set (account_txs q a) = {h. \<exists>e. hm_get (by_hash q) h = Some e \<and> qe_account e = a})"

definition fee_index_ok :: "'tx tx_queue \<Rightarrow> bool" where
  "fee_index_ok q \<longleftrightarrow> sorted_wrt (>) (map fst (by_fee q))
     \<and> (\<forall>f h. (f, h) \<in> set (by_fee q) \<longrightarrow> (\<exists>e. hm_get (by_hash q) h = Some e \<and> qe_fee_level e = f))"

definition txq_wf :: "'tx tx_queue \<Rightarrow> bool" where
  "txq_wf q \<longleftrightarrow> hash_index_ok q \<and> seq_index_ok q \<and> account_index_ok q \<and> fee_index_ok q
     \<and> length (by_hash q) \<le> q_max_size q"

lemma txq_wf_new: "txq_wf (txq_new cap)"
  by (simp add: txq_wf_def txq_new_def hash_index_ok_def seq_index_ok_def account_index_ok_def
      fee_index_ok_def account_txs_def)

lemma txq_wf_metrics [simp]: "txq_wf (q\<lparr>q_metrics := m\<rparr>) \<longleftrightarrow> txq_wf q"
  by (simp add: txq_wf_def hash_index_ok_def seq_index_ok_def account_index_ok_def fee_index_ok_def account_txs_def)

lemma txq_wf_clear: "txq_wf (clear_indexes q)"
  by (simp add: txq_wf_def clear_indexes_def hash_index_ok_def seq_index_ok_def account_index_ok_def
      fee_index_ok_def account_txs_def)

lemma txq_wfD:
  assumes "txq_wf q"
  shows "hm_wf (by_hash q)" and "hm_get (by_hash q) h = Some e \<Longrightarrow> qe_hash e = h"
    and "length (by_hash q) \<le> q_max_size q" and "length (account_txs q a) \<le> MAX_ACCOUNT_QUEUE_DEPTH"
    and "set (account_txs q a) = {h. \<exists>e. hm_get (by_hash q) h = Some e \<and> qe_account e = a}"
  using assms unfolding txq_wf_def hash_index_ok_def account_index_ok_def by blast+

text \<open>At most one entry per account and sequence.\<close>

lemma seq_unique:
  assumes "txq_wf q" and "hm_get (by_hash q) h = Some e" and "hm_get (by_hash q) h' = Some e'"
    and "qe_account e = qe_account e'" and "qe_sequence e = qe_sequence e'"
  shows "h = h'"
proof -
  have "hm_get (by_account_seq q) (qe_account e, qe_sequence e) = Some h"
    "hm_get (by_account_seq q) (qe_account e, qe_sequence e) = Some h'"
    using assms by (auto simp: txq_wf_def seq_index_ok_def)
  then show ?thesis by simp
qed

subsubsection \<open>Removal\<close>

lemma remove_absent: "hm_get (by_hash q) h = None \<Longrightarrow> txq_remove h q = (q, None)"
  by (simp add: txq_remove_def)

lemma remove_by_hash [simp]: "by_hash (fst (txq_remove h q)) = hm_remove h (by_hash q)"
proof (cases "hm_get (by_hash q) h")
  case None
  then show ?thesis by (simp add: remove_absent map_of_eq_None_iff delete_id)
qed (simp add: txq_remove_def Let_def)

lemma remove_fields [simp]:
  "q_max_size (fst (txq_remove h q)) = q_max_size q" "q_metrics (fst (txq_remove h q)) = q_metrics q"
  by (simp_all add: txq_remove_def Let_def split: option.split)

lemma remove_account_txs:
  assumes "hm_get (by_hash q) h = Some e"
  shows "account_txs (fst (txq_remove h q)) a =
    (if a = qe_account e then filter (\<lambda>x. x \<noteq> h) (account_txs q a) else account_txs q a)"
  using assms by (auto simp: txq_remove_def account_txs_def Let_def hm_simps split: option.split)

lemma txq_wf_remove:
  assumes "txq_wf q"
  shows "txq_wf (fst (txq_remove h q))"
proof (cases "hm_get (by_hash q) h")
  case (Some e)
  let ?q = "fst (txq_remove h q)"
  have wf: "hash_index_ok q" "seq_index_ok q" "account_index_ok q" "fee_index_ok q" "length (by_hash q) \<le> q_max_size q"
    using assms by (simp_all add: txq_wf_def)
  have get: "hm_get (by_hash ?q) x = (if x = h then None else hm_get (by_hash q) x)" for x by (simp add: hm_simps)
  have "hash_index_ok ?q" using wf(1) by (simp add: hash_index_ok_def hm_simps)
  moreover have "seq_index_ok ?q"
  proof -
    have "by_account_seq ?q = hm_remove (qe_account e, qe_sequence e) (by_account_seq q)"
      using Some by (simp add: txq_remove_def Let_def)
    then have seq: "hm_get (by_account_seq ?q) (a, s) =
        (if a = qe_account e \<and> s = qe_sequence e then None else hm_get (by_account_seq q) (a, s))" for a s
      by (simp add: hm_simps)
    have "hm_get (by_account_seq ?q) (a, s) = Some x \<longleftrightarrow>
        (\<exists>e'. hm_get (by_hash ?q) x = Some e' \<and> qe_account e' = a \<and> qe_sequence e' = s)" for a s x
    proof (cases "a = qe_account e \<and> s = qe_sequence e")
      case True
      then show ?thesis using seq_unique [OF assms Some, of x] by (auto simp: seq hm_get_remove split: if_splits)
    next
      case False
      then show ?thesis using wf(2) Some by (auto simp: seq hm_get_remove seq_index_ok_def)
    qed
    then show ?thesis by (simp add: seq_index_ok_def)
  qed
  moreover have "account_index_ok ?q"
  proof -
    have "hm_get (by_account ?q) a \<noteq> Some []" for a
      using wf(3) Some by (auto simp: account_index_ok_def txq_remove_def Let_def hm_simps split: option.splits)
    moreover have "length (filter (\<lambda>x. x \<noteq> h) xs) \<le> MAX_ACCOUNT_QUEUE_DEPTH"
      if "length xs \<le> MAX_ACCOUNT_QUEUE_DEPTH" for xs :: "hash256 list"
      by (rule le_trans [OF length_filter_le that])
    moreover have "set (account_txs ?q a) = {x. \<exists>e'. hm_get (by_hash ?q) x = Some e' \<and> qe_account e' = a}" for a
    proof -
      have "set (account_txs q a) = {x. \<exists>e'. hm_get (by_hash q) x = Some e' \<and> qe_account e' = a}"
        using wf(3) by (simp add: account_index_ok_def)
      then show ?thesis using Some by (auto simp: remove_account_txs [OF Some] hm_get_remove)
    qed
    ultimately show ?thesis
      using wf(3) by (simp add: account_index_ok_def remove_account_txs [OF Some])
  qed
  moreover have "fee_index_ok ?q"
  proof -
    have "by_fee ?q = filter (\<lambda>(_, x). x \<noteq> h) (by_fee q)" using Some by (simp add: txq_remove_def Let_def)
    moreover have "sorted_wrt (>) (map fst (filter P (by_fee q)))" for P
      using wf(4) by (simp add: fee_index_ok_def sorted_wrt_map sorted_wrt_filter)
    ultimately show ?thesis using wf(4) by (auto simp: fee_index_ok_def get)
  qed
  moreover have "length (by_hash ?q) \<le> q_max_size ?q"
    using wf(5) le_trans [OF length_delete_le] by simp
  ultimately show ?thesis by (simp add: txq_wf_def)
qed (simp add: remove_absent assms)

subsubsection \<open>Submission\<close>

definition same_slot :: "'tx queue_entry \<Rightarrow> 'tx queue_entry \<Rightarrow> bool" where
  "same_slot e e' \<longleftrightarrow> qe_account e' = qe_account e \<and> qe_sequence e' = qe_sequence e"

definition rival :: "'tx tx_queue \<Rightarrow> 'tx queue_entry \<Rightarrow> 'tx queue_entry option" where
  "rival q e = List.find (same_slot e) (hm_values (by_hash q))"

definition enqueue :: "'tx tx_queue \<Rightarrow> 'tx queue_entry \<Rightarrow> 'tx tx_queue" where
  "enqueue q entry =
     q\<lparr>by_fee := fee_insert (qe_fee_level entry) (qe_hash entry) (by_fee q),
       by_account := hm_insert (qe_account entry) (account_txs q (qe_account entry) @ [qe_hash entry]) (by_account q),
       by_account_seq := hm_insert (qe_account entry, qe_sequence entry) (qe_hash entry) (by_account_seq q),
       by_hash := hm_insert (qe_hash entry) entry (by_hash q),
       q_metrics := (q_metrics q)\<lparr>total_queued := wrap64 (total_queued (q_metrics q) + 1)\<rparr>\<rparr>"

definition displace :: "hash256 \<Rightarrow> 'tx tx_queue \<Rightarrow> 'tx tx_queue" where
  "displace h q = (fst (txq_remove h q))\<lparr>q_metrics :=
     (q_metrics q)\<lparr>total_replaced := wrap64 (total_replaced (q_metrics q) + 1)\<rparr>\<rparr>"

lemma rival_None: "rival q e = None \<longleftrightarrow> (\<forall>h e'. hm_get (by_hash q) h = Some e' \<longrightarrow> \<not> same_slot e e')" if "hm_wf (by_hash q)"
  using that by (force simp: rival_def find_None_iff dest: map_of_SomeD)

lemma rival_Some:
  assumes "rival q e = Some e'" and "txq_wf q"
  shows "hm_get (by_hash q) (qe_hash e') = Some e'" and "same_slot e e'"
proof -
  have "e' \<in> set (hm_values (by_hash q))" "same_slot e e'"
    using assms(1) by (auto simp: rival_def find_Some_iff)
  then obtain h where "(h, e') \<in> set (by_hash q)" by force
  then have "hm_get (by_hash q) h = Some e'" using assms(2) by (simp add: txq_wf_def hash_index_ok_def)
  then show "hm_get (by_hash q) (qe_hash e') = Some e'" using assms(2) by (auto simp: txq_wf_def hash_index_ok_def)
  show "same_slot e e'" by fact
qed

lemma existing_rival:
  assumes "txq_wf q"
  shows "(case hm_get (by_account_seq q) (qe_account e, qe_sequence e) of None \<Rightarrow> None
     | Some h \<Rightarrow> map_option (\<lambda>e'. (h, e')) (hm_get (by_hash q) h)) = map_option (\<lambda>e'. (qe_hash e', e')) (rival q e)"
proof -
  have seq: "hm_get (by_account_seq q) (qe_account e, qe_sequence e) = Some h \<longleftrightarrow>
      (\<exists>e'. hm_get (by_hash q) h = Some e' \<and> same_slot e e')" for h
    using assms by (simp add: txq_wf_def seq_index_ok_def same_slot_def)
  have wf: "hm_wf (by_hash q)" using assms by (simp add: txq_wf_def hash_index_ok_def)
  show ?thesis
  proof (cases "rival q e")
    case None
    then have "hm_get (by_account_seq q) (qe_account e, qe_sequence e) \<noteq> Some h" for h
      using rival_None [OF wf, of e] by (auto simp: seq)
    then show ?thesis using None by (cases "hm_get (by_account_seq q) (qe_account e, qe_sequence e)") auto
  next
    case (Some e')
    note r = rival_Some [OF Some assms]
    then have "hm_get (by_account_seq q) (qe_account e, qe_sequence e) = Some (qe_hash e')" by (auto simp: seq)
    then show ?thesis using r(1) Some by simp
  qed
qed

lemma fee_insert_set: "sorted_wrt (>) (map fst m) \<Longrightarrow> set (fee_insert k v m) = insert (k, v) {p \<in> set m. fst p \<noteq> k}"
  by (induction k v m rule: fee_insert.induct) (auto simp: neq_iff)

lemma fee_insert_sorted: "sorted_wrt (>) (map fst m) \<Longrightarrow> sorted_wrt (>) (map fst (fee_insert k v m))"
  by (induction k v m rule: fee_insert.induct) (auto simp: fee_insert_set image_iff)

lemma account_txs_enqueue:
  "account_txs (enqueue q e) a = (if a = qe_account e then account_txs q a @ [qe_hash e] else account_txs q a)"
  by (simp add: account_txs_def enqueue_def hm_simps)

lemma txq_wf_enqueue:
  assumes "txq_wf q" and new: "hm_get (by_hash q) (qe_hash e) = None" and "rival q e = None"
    and "length (by_hash q) < q_max_size q" and "length (account_txs q (qe_account e)) < MAX_ACCOUNT_QUEUE_DEPTH"
  shows "txq_wf (enqueue q e)"
proof -
  let ?q = "enqueue q e"
  have wf: "hash_index_ok q" "seq_index_ok q" "account_index_ok q" "fee_index_ok q" "hm_wf (by_hash q)"
    using assms(1) by (simp_all add: txq_wf_def hash_index_ok_def)
  have get: "hm_get (by_hash ?q) x = (if x = qe_hash e then Some e else hm_get (by_hash q) x)" for x
    by (simp add: enqueue_def hm_simps)
  have slot: "\<not> same_slot e e'" if "hm_get (by_hash q) x = Some e'" for x e'
    using rival_None [OF wf(5)] assms(3) that by blast
  have "hash_index_ok ?q" using wf(1,5) by (auto simp: hash_index_ok_def enqueue_def hm_simps)
  moreover have "seq_index_ok ?q"
  proof -
    have seq: "hm_get (by_account_seq ?q) (a, s) = (if a = qe_account e \<and> s = qe_sequence e then Some (qe_hash e)
        else hm_get (by_account_seq q) (a, s))" for a s
      by (simp add: enqueue_def hm_simps)
    show ?thesis
      unfolding seq_index_ok_def seq get
      using wf(2) new slot by (auto simp: seq_index_ok_def same_slot_def)
  qed
  moreover have "account_index_ok ?q"
  proof -
    have set: "set (account_txs q a) = {x. \<exists>e'. hm_get (by_hash q) x = Some e' \<and> qe_account e' = a}" for a
      using wf(3) by (simp add: account_index_ok_def)
    then have "qe_hash e \<notin> set (account_txs q a)" for a using new by auto
    moreover have "hm_get (by_account ?q) a \<noteq> Some []" for a
      using wf(3) by (simp add: account_index_ok_def enqueue_def hm_simps)
    moreover have "set (account_txs ?q a) = {x. \<exists>e'. hm_get (by_hash ?q) x = Some e' \<and> qe_account e' = a}" for a
      using set [of a] new by (auto simp: account_txs_enqueue get)
    ultimately show ?thesis using wf(3) assms(5) by (simp add: account_index_ok_def account_txs_enqueue)
  qed
  moreover have "fee_index_ok ?q"
  proof -
    have fee: "by_fee ?q = fee_insert (qe_fee_level e) (qe_hash e) (by_fee q)" by (simp add: enqueue_def)
    have sorted: "sorted_wrt (>) (map fst (by_fee q))" using wf(4) by (simp add: fee_index_ok_def)
    have "\<exists>e'. hm_get (by_hash ?q) h = Some e' \<and> qe_fee_level e' = f" if "(f, h) \<in> set (by_fee ?q)" for f h
      using that wf(4) new unfolding fee fee_insert_set [OF sorted] by (fastforce simp: fee_index_ok_def get)
    then show ?thesis unfolding fee_index_ok_def fee using fee_insert_sorted [OF sorted] by blast
  qed
  moreover have "length (by_hash ?q) \<le> q_max_size ?q"
    using assms(4) new by (simp add: enqueue_def hm_len_insert)
  ultimately show ?thesis by (simp add: txq_wf_def)
qed

lemma displace_by_hash [simp]: "by_hash (displace h q) = hm_remove h (by_hash q)"
  by (simp add: displace_def)

lemma txq_wf_displace: "txq_wf q \<Longrightarrow> txq_wf (displace h q)"
  by (simp add: displace_def txq_wf_remove)

lemma displace_room:
  assumes "txq_wf q" and "rival q e = Some e'"
  shows "length (by_hash (displace (qe_hash e') q)) < q_max_size (displace (qe_hash e') q)"
    and "length (account_txs (displace (qe_hash e') q) (qe_account e)) < MAX_ACCOUNT_QUEUE_DEPTH"
    and "rival (displace (qe_hash e') q) e = None"
proof -
  note r = rival_Some [OF assms(2,1)]
  have in_keys: "qe_hash e' \<in> set (hm_keys (by_hash q))" using r(1) by (metis hm_get_None option.distinct(1))
  have "length (hm_remove (qe_hash e') (by_hash q)) < length (by_hash q)"
    by (rule hm_len_remove [OF in_keys])
  then show "length (by_hash (displace (qe_hash e') q)) < q_max_size (displace (qe_hash e') q)"
    using assms(1) by (simp add: displace_def txq_wf_def)
  have acc: "account_txs (displace (qe_hash e') q) (qe_account e) = filter (\<lambda>x. x \<noteq> qe_hash e') (account_txs q (qe_account e))"
    using remove_account_txs [OF r(1), of "qe_account e"] r(2) by (simp add: displace_def account_txs_def same_slot_def)
  have ok: "qe_hash e' \<in> set (account_txs q (qe_account e))"
    unfolding txq_wfD(5) [OF assms(1)] mem_Collect_eq using r(1) r(2) [unfolded same_slot_def] by blast
  have "length (filter (\<lambda>x. x \<noteq> qe_hash e') (account_txs q (qe_account e))) < length (account_txs q (qe_account e))"
    by (rule length_filter_less [OF ok]) simp
  then show "length (account_txs (displace (qe_hash e') q) (qe_account e)) < MAX_ACCOUNT_QUEUE_DEPTH"
    unfolding acc by (rule less_le_trans [OF _ txq_wfD(4) [OF assms(1)]])
  have wf: "hm_wf (by_hash (displace (qe_hash e') q))"
    by (rule txq_wfD(1) [OF txq_wf_displace [OF assms(1)]])
  have "\<not> same_slot e e''" if "hm_get (by_hash q) x = Some e''" "x \<noteq> qe_hash e'" for x e''
  proof
    assume "same_slot e e''"
    then have "x = qe_hash e'" using r(2) by (intro seq_unique [OF assms(1) that(1) r(1)]) (simp_all add: same_slot_def)
    with that(2) show False by blast
  qed
  then show "rival (displace (qe_hash e') q) e = None"
    unfolding rival_None [OF wf] by (auto simp: hm_get_remove)
qed

lemma submit_alt:
  assumes "txq_wf q"
  shows "submit q e =
    (if hm_get (by_hash q) (qe_hash e) \<noteq> None then (q, Inl Duplicate)
     else case rival q e of
       Some e' \<Rightarrow> if qe_fee_level e \<le> qe_fee_level e' then (q, Inl FeeTooLowForReplacement)
                  else (enqueue (displace (qe_hash e') q) e, Inr ())
     | None \<Rightarrow> if q_max_size q \<le> length (by_hash q) then (q, Inl QueueFull)
               else if MAX_ACCOUNT_QUEUE_DEPTH \<le> length (account_txs q (qe_account e)) then (q, Inl AccountQueueFull)
               else (enqueue q e, Inr ()))"
proof (cases "rival q e")
  case None
  have depth: "(case hm_get (by_account q) (qe_account e) of Some hs \<Rightarrow> length hs | None \<Rightarrow> 0)
      = length (account_txs q (qe_account e))" by (simp add: account_txs_def split: option.split)
  show ?thesis
    unfolding submit_def existing_rival [OF assms] Let_def None by (simp add: depth enqueue_def account_txs_def)
next
  case (Some e')
  let ?q = "displace (qe_hash e') q"
  have depth: "(case hm_get (by_account ?q) (qe_account e) of Some hs \<Rightarrow> length hs | None \<Rightarrow> 0)
      = length (account_txs ?q (qe_account e))" by (simp add: account_txs_def split: option.split)
  have room: "\<not> q_max_size ?q \<le> length (by_hash ?q)"
    "\<not> MAX_ACCOUNT_QUEUE_DEPTH \<le> length (account_txs ?q (qe_account e))"
    using displace_room [OF assms Some] by (simp_all only: not_le)
  show ?thesis
    unfolding submit_def existing_rival [OF assms] Let_def Some option.map option.case prod.case displace_def [symmetric]
    unfolding depth if_not_P [OF room(1)] if_not_P [OF room(2)]
    by (simp add: enqueue_def account_txs_def)
qed

lemma displace_new: "hm_get (by_hash q) h = None \<Longrightarrow> hm_get (by_hash (displace x q)) h = None"
  by (simp add: hm_get_remove)

lemma txq_wf_submit: "txq_wf q \<Longrightarrow> txq_wf (fst (submit q e))"
  by (auto simp: submit_alt not_le intro!: txq_wf_enqueue intro: txq_wf_displace displace_room displace_new
      split: option.split)

subsection \<open>Runs\<close>

datatype 'tx txq_op =
    Submit "'tx queue_entry"
  | Remove hash256
  | RemoveIf "hash256 \<Rightarrow> bool"
  | RemoveExpired nat
  | Drain
  | DrainOrdered
  | RecordDrop
  | RecordApplied

fun txq_step :: "'tx txq_op \<Rightarrow> 'tx tx_queue \<Rightarrow> 'tx tx_queue" where
  "txq_step (Submit e) q = fst (submit q e)"
| "txq_step (Remove h) q = fst (txq_remove h q)"
| "txq_step (RemoveIf P) q = remove_if P q"
| "txq_step (RemoveExpired s) q = remove_expired s q"
| "txq_step Drain q = fst (drain_for_retry q)"
| "txq_step DrainOrdered q = fst (drain_for_retry_ordered q)"
| "txq_step RecordDrop q = record_drop q"
| "txq_step RecordApplied q = record_applied q"

definition txq_run :: "nat \<Rightarrow> 'tx txq_op list \<Rightarrow> 'tx tx_queue" where
  "txq_run cap ops = fold txq_step ops (txq_new cap)"

lemma remove_all_preserves:
  assumes "\<And>h q. P q \<Longrightarrow> P (fst (txq_remove h q))" and "P q"
  shows "P (remove_all hs q)"
  using assms(2) unfolding remove_all_def by (induction hs arbitrary: q) (simp_all add: assms(1))

lemma txq_wf_remove_all: "txq_wf q \<Longrightarrow> txq_wf (remove_all hs q)"
  by (rule remove_all_preserves) (rule txq_wf_remove)

lemma remove_all_cap [simp]: "q_max_size (remove_all hs q) = q_max_size q"
  by (rule remove_all_preserves [where P = "\<lambda>x. q_max_size x = q_max_size q"]) simp_all

lemma remove_all_by_hash: "hm_get (by_hash (remove_all hs q)) h = (if h \<in> set hs then None else hm_get (by_hash q) h)"
  unfolding remove_all_def by (induction hs arbitrary: q) (auto simp: hm_get_remove)

lemma txq_wf_step: "txq_wf q \<Longrightarrow> txq_wf (txq_step op q)"
  by (cases op) (simp_all add: txq_wf_submit txq_wf_remove remove_if_def txq_wf_remove_all remove_expired_def Let_def
      drain_for_retry_def drain_for_retry_ordered_def txq_wf_clear record_drop_def record_applied_def)

lemma submit_cap [simp]: "txq_wf q \<Longrightarrow> q_max_size (fst (submit q e)) = q_max_size q"
  by (simp add: submit_alt enqueue_def displace_def split: option.split)

lemma txq_step_cap: "txq_wf q \<Longrightarrow> q_max_size (txq_step op q) = q_max_size q"
  by (cases op) (simp_all add: remove_if_def remove_expired_def Let_def drain_for_retry_def
      drain_for_retry_ordered_def clear_indexes_def record_drop_def record_applied_def)

lemma txq_run_wf: "txq_wf (txq_run cap ops)" and txq_run_cap: "q_max_size (txq_run cap ops) = cap"
proof -
  have "txq_wf (fold txq_step ops (txq_new cap)) \<and> q_max_size (fold txq_step ops (txq_new cap)) = cap"
    by (induction ops rule: rev_induct) (simp_all add: txq_wf_new txq_wf_step txq_step_cap, simp add: txq_new_def)
  then show "txq_wf (txq_run cap ops)" "q_max_size (txq_run cap ops) = cap" by (simp_all add: txq_run_def)
qed

text \<open>What a submission decides, in every reachable queue: a known hash is a duplicate; an entry for
  an occupied account and sequence replaces it exactly when it pays a strictly higher fee level, and
  a replacement is never refused for lack of room; any other entry needs room in the queue and in
  its account. A refused submission leaves the queue as it was, an accepted one adds the entry and
  removes only the one it replaces.\<close>

theorem txq_submission:
  "(let q = txq_run cap ops in
     snd (submit q e) = (if txq_get q (qe_hash e) \<noteq> None then Inl Duplicate
        else case rival q e of
          Some e' \<Rightarrow> if qe_fee_level e \<le> qe_fee_level e' then Inl FeeTooLowForReplacement else Inr ()
        | None \<Rightarrow> if cap \<le> txq_len q then Inl QueueFull
                  else if 10 \<le> length (account_txs q (qe_account e)) then Inl AccountQueueFull else Inr ())
     \<and> (if snd (submit q e) = Inr ()
        then \<forall>h. txq_get (fst (submit q e)) h = (if h = qe_hash e then Some e
           else if Some h = map_option qe_hash (rival q e) then None else txq_get q h)
        else fst (submit q e) = q))"
proof -
  define q where "q = txq_run cap ops"
  have wf: "txq_wf q" unfolding q_def by (rule txq_run_wf)
  have "q_max_size q = cap" unfolding q_def by (rule txq_run_cap)
  then show ?thesis
    unfolding q_def [symmetric] Let_def submit_alt [OF wf]
    by (auto simp: txq_get_def txq_len_def MAX_ACCOUNT_QUEUE_DEPTH_def enqueue_def hm_simps split: option.split)
qed

subsection \<open>Draining\<close>

text \<open>Grouping keeps every entry, in its account's group and in order.\<close>

lemma group_get: "hm_get (fold group_push es m) a =
    (if filter (\<lambda>e. qe_account e = a) es = [] then hm_get m a
     else Some ((case hm_get m a of Some xs \<Rightarrow> xs | None \<Rightarrow> []) @ filter (\<lambda>e. qe_account e = a) es))"
  by (induction es arbitrary: m) (auto simp: group_push_def hm_get_insert split: option.split)

lemma group_wf: "hm_wf m \<Longrightarrow> hm_wf (fold group_push es m)"
  by (induction es arbitrary: m) (auto simp: group_push_def hm_wf_insert)

lemma distinct_map_sort: "distinct (map f (sort_key k xs)) \<longleftrightarrow> distinct (map f xs)"
  by (rule mset_eq_imp_distinct_iff) simp

lemma push_mset:
  "hm_wf m \<Longrightarrow> mset (concat (hm_values (hm_insert k ((case hm_get m k of Some xs \<Rightarrow> xs | None \<Rightarrow> []) @ [e]) m)))
     = add_mset e (mset (concat (hm_values m)))"
proof (induction m)
  case (Cons p m)
  then show ?case by (cases p; cases "fst p = k") simp_all
qed simp

lemma group_mset: "hm_wf m \<Longrightarrow> mset (concat (hm_values (fold group_push es m))) = mset (concat (hm_values m)) + mset es"
proof (induction es arbitrary: m)
  case (Cons e es)
  have "mset (concat (hm_values (group_push e m))) = mset (concat (hm_values m)) + {#e#}"
    using push_mset [OF Cons.prems] by (simp add: group_push_def)
  moreover have "hm_wf (group_push e m)" using group_wf [OF Cons.prems, of "[e]"] by simp
  ultimately show ?case using Cons.IH by simp
qed simp

lemma concat_sorted_groups:
  fixes gs :: "('a \<times> 'b list) list"
  shows "mset (concat (map snd (sort_key f gs))) = mset (concat (map snd gs))"
proof -
  have eq: "mset (concat (map snd gs)) = sum_mset (image_mset (\<lambda>g. mset (snd g)) (mset gs))" for gs :: "('a \<times> 'b list) list"
    by (induction gs) simp_all
  show ?thesis unfolding eq by simp
qed

lemma sorted_groups: "sorted_wrt (\<lambda>g g'. group_fee (snd g') \<le> group_fee (snd g))
    (sort_key (\<lambda>(_, es). - int (group_fee es)) gs)"
proof -
  let ?gs = "sort_key (\<lambda>(_, es). - int (group_fee es)) gs"
  have "sorted (map (\<lambda>(_, es). - int (group_fee es)) ?gs)" by simp
  then show ?thesis unfolding sorted_map by (rule sorted_wrt_mono_rel [rotated]) auto
qed

lemma values_distinct:
  assumes "txq_wf q"
  shows "distinct (hm_values (by_hash q))"
proof -
  have wf: "hm_wf (by_hash q)" by (rule txq_wfD(1) [OF assms])
  have keys: "map qe_hash (hm_values (by_hash q)) = hm_keys (by_hash q)"
    using txq_wfD(2) [OF assms] wf by (auto intro: map_of_is_SomeI)
  have "distinct (map qe_hash (hm_values (by_hash q)))" unfolding keys by (rule wf)
  then show ?thesis unfolding distinct_map by (rule conjunct1)
qed

lemma sequences_distinct:
  assumes "txq_wf q"
  shows "distinct (map qe_sequence (filter (\<lambda>e. qe_account e = a) (hm_values (by_hash q))))"
proof -
  have wf: "hm_wf (by_hash q)" by (rule txq_wfD(1) [OF assms])
  have "distinct (hm_values (by_hash q))" by (rule values_distinct [OF assms])
  moreover have "e = e'" if mem: "e \<in> set (hm_values (by_hash q))" "e' \<in> set (hm_values (by_hash q))"
    and slot: "qe_account e = qe_account e'" "qe_sequence e = qe_sequence e'" for e e'
  proof -
    have "\<exists>h. hm_get (by_hash q) h = Some x" if "x \<in> set (hm_values (by_hash q))" for x
      using that wf by (auto intro: map_of_is_SomeI)
    then obtain h h' where h: "hm_get (by_hash q) h = Some e" "hm_get (by_hash q) h' = Some e'" using mem by blast
    then have "h = h'" by (rule seq_unique [OF assms _ _ slot])
    then show ?thesis using h by simp
  qed
  ultimately show ?thesis by (auto simp: distinct_map inj_on_def)
qed

text \<open>C27: The ordered drain loses nothing: its groups hold exactly the queued entries, one group per
  account, each in strictly ascending sequence order, the groups by descending highest fee; and it
  empties the queue.\<close>

theorem drain_ordered_complete:
  "(let q = txq_run cap ops; (q', groups) = drain_for_retry_ordered q in
     txq_is_empty q' \<and> mset (concat (map snd groups)) = mset (hm_values (by_hash q))
     \<and> distinct (map fst groups)
     \<and> sorted_wrt (\<lambda>g g'. group_fee (snd g') \<le> group_fee (snd g)) groups
     \<and> list_all (\<lambda>(a, es). es \<noteq> [] \<and> list_all (\<lambda>e. qe_account e = a) es
          \<and> sorted_wrt (<) (map qe_sequence es)) groups)"
proof -
  define q where "q = txq_run cap ops"
  have wf: "txq_wf q" unfolding q_def by (rule txq_run_wf)
  define gs where "gs = fold group_push (hm_values (by_hash q)) []"
  have group: "es = filter (\<lambda>e. qe_account e = a) (hm_values (by_hash q)) \<and> es \<noteq> []" if "(a, es) \<in> set gs" for a es
  proof -
    have "hm_get gs a = Some es" using that group_wf [of "[]"] by (intro map_of_is_SomeI) (simp_all add: gs_def)
    then show ?thesis by (auto simp: gs_def group_get split: if_splits)
  qed
  have ok: "sort_key qe_sequence es \<noteq> [] \<and> list_all (\<lambda>e. qe_account e = a) (sort_key qe_sequence es)
      \<and> sorted_wrt (<) (map qe_sequence (sort_key qe_sequence es))" if "(a, es) \<in> set gs" for a es
  proof -
    have "distinct (map qe_sequence es)" using group [OF that] sequences_distinct [OF wf, of a] by simp
    then have "distinct (map qe_sequence (sort_key qe_sequence es))" by (simp only: distinct_map_sort)
    then have "sorted_wrt (<) (map qe_sequence (sort_key qe_sequence es))"
      by (simp add: strict_sorted_iff)
    moreover have "sort_key qe_sequence es \<noteq> []" using group [OF that] by (metis length_0_conv length_sort)
    ultimately show ?thesis using group [OF that] by (auto simp: list_all_iff)
  qed
  let ?gs = "map (\<lambda>(a, es). (a, sort_key qe_sequence es)) gs"
  have "mset (concat (map snd ?gs)) = mset (concat (map snd gs))" by (induction gs) auto
  moreover have "mset (concat (map snd gs)) = mset (hm_values (by_hash q))" by (simp add: gs_def group_mset)
  moreover have "distinct (map fst (sort_key f ?gs))" for f :: "_ \<Rightarrow> int"
  proof -
    have "distinct (map fst ?gs)" using group_wf [of "[]" "hm_values (by_hash q)"] by (simp add: gs_def comp_def case_prod_unfold)
    then show ?thesis by (simp only: distinct_map_sort)
  qed
  moreover have "list_all (\<lambda>(a, es). es \<noteq> [] \<and> list_all (\<lambda>e. qe_account e = a) es
      \<and> sorted_wrt (<) (map qe_sequence es)) (sort_key f ?gs)" for f :: "_ \<Rightarrow> int"
    using ok by (auto simp: list_all_iff)
  ultimately show ?thesis
    unfolding q_def [symmetric] Let_def drain_for_retry_ordered_def
    by (simp add: gs_def [symmetric] concat_sorted_groups sorted_groups txq_is_empty_def clear_indexes_def)
qed

text \<open>C28: The fee index has one slot per fee level: of two queued transactions that pay the same fee level
  only the second stays in it. Draining for retry then returns the second alone and discards the
  first, and once the second is removed the highest-fee lookup finds nothing in a non-empty queue.\<close>

theorem equal_fee_entry_lost:
  assumes "qe_fee_level a = qe_fee_level b" and "qe_hash a \<noteq> qe_hash b" and "\<not> same_slot a b" and "2 \<le> cap"
  shows "(let q = fst (submit (fst (submit (txq_new cap) a)) b); r = fst (txq_remove (qe_hash b) q) in
    txq_len q = 2 \<and> drain_for_retry q = (clear_indexes q, [b]) \<and> txq_get (clear_indexes q) (qe_hash a) = None
    \<and> txq_len r = 1 \<and> peek r = None)"
proof -
  let ?q0 = "txq_new cap :: 'a tx_queue"
  have "rival ?q0 a = None" "by_hash ?q0 = []" "q_max_size ?q0 = cap" "account_txs ?q0 (qe_account a) = []"
    by (simp_all add: rival_def txq_new_def account_txs_def)
  then have q1: "fst (submit ?q0 a) = enqueue ?q0 a"
    using assms(4) by (simp add: submit_alt [OF txq_wf_new] MAX_ACCOUNT_QUEUE_DEPTH_def)
  have wf1: "txq_wf (enqueue ?q0 a)" using txq_wf_submit [OF txq_wf_new, of cap a] by (simp add: q1)
  have acc: "length (account_txs (enqueue ?q0 a) x) \<le> 1" for x
    by (simp add: account_txs_enqueue) (simp add: account_txs_def txq_new_def)
  have "rival (enqueue ?q0 a) b = None"
    using assms(3) by (simp add: rival_def enqueue_def txq_new_def same_slot_def) auto
  moreover have "\<not> MAX_ACCOUNT_QUEUE_DEPTH \<le> length (account_txs (enqueue ?q0 a) (qe_account b))"
    using acc [of "qe_account b"] by (simp add: MAX_ACCOUNT_QUEUE_DEPTH_def)
  moreover have "by_hash (enqueue ?q0 a) = [(qe_hash a, a)]" "q_max_size (enqueue ?q0 a) = cap"
    by (simp_all add: enqueue_def txq_new_def)
  ultimately have q2: "fst (submit (enqueue ?q0 a) b) = enqueue (enqueue ?q0 a) b"
    using assms(2,4) by (simp add: submit_alt [OF wf1])
  have q: "by_hash (enqueue (enqueue ?q0 a) b) = [(qe_hash a, a), (qe_hash b, b)]"
    "by_fee (enqueue (enqueue ?q0 a) b) = [(qe_fee_level b, qe_hash b)]"
    using assms(1,2) by (simp_all add: enqueue_def txq_new_def)
  have r: "by_hash (fst (txq_remove (qe_hash b) (enqueue (enqueue ?q0 a) b))) = [(qe_hash a, a)]"
    "by_fee (fst (txq_remove (qe_hash b) (enqueue (enqueue ?q0 a) b))) = []"
    using assms(2) by (simp_all add: q, simp add: txq_remove_def q Let_def)
  show ?thesis
    unfolding q1 q2 Let_def drain_for_retry_def
    using assms(2) by (simp add: q r txq_len_def txq_get_def peek_def clear_indexes_def List.map_filter_simps)
qed

definition example_entry :: "hash256 \<Rightarrow> nat \<Rightarrow> unit queue_entry" where
  "example_entry h s = \<lparr>qe_hash = h, qe_tx = (), qe_fee_level = 256, qe_account = ''alice'', qe_sequence = s,
     qe_last_ledger_sequence = None, qe_preflight_passed = True\<rparr>"

theorem equal_fee_entry_lost_witness:
  "(let q = fst (submit (fst (submit (txq_new 10) (example_entry 1 5))) (example_entry 2 6))
    in txq_len q = 2 \<and> snd (drain_for_retry q) = [example_entry 2 6])"
  using equal_fee_entry_lost [of "example_entry 1 5" "example_entry 2 6" 10]
  by (simp add: example_entry_def same_slot_def Let_def)

text \<open>Entries the fee index still holds.\<close>

definition fee_complete :: "'tx tx_queue \<Rightarrow> bool" where
  "fee_complete q \<longleftrightarrow> (\<forall>h e. hm_get (by_hash q) h = Some e \<longrightarrow> (qe_fee_level e, h) \<in> set (by_fee q))"

lemma fee_complete_remove: "fee_complete q \<Longrightarrow> fee_complete (fst (txq_remove h q))"
proof (cases "hm_get (by_hash q) h")
  case (Some e)
  assume "fee_complete q"
  moreover have "by_fee (fst (txq_remove h q)) = filter (\<lambda>(_, x). x \<noteq> h) (by_fee q)"
    using Some by (simp add: txq_remove_def Let_def)
  ultimately show ?thesis by (auto simp: fee_complete_def hm_get_remove)
qed (simp add: remove_absent)

lemma fee_complete_enqueue:
  assumes "fee_complete q" and "sorted_wrt (>) (map fst (by_fee q))"
    and "\<And>h e'. hm_get (by_hash q) h = Some e' \<Longrightarrow> qe_fee_level e' \<noteq> qe_fee_level e"
  shows "fee_complete (enqueue q e)"
  using assms(1,3) unfolding fee_complete_def
  by (auto simp: enqueue_def hm_get_insert fee_insert_set [OF assms(2)])

fun submitted :: "'tx txq_op list \<Rightarrow> 'tx queue_entry list" where
  "submitted [] = []"
| "submitted (Submit e # ops) = e # submitted ops"
| "submitted (op # ops) = submitted ops"

lemma submitted_append: "submitted (ops @ [op]) = submitted ops @ (case op of Submit e \<Rightarrow> [e] | _ \<Rightarrow> [])"
  by (induction ops rule: submitted.induct) (auto split: txq_op.split)

definition entries_in :: "'tx queue_entry set \<Rightarrow> 'tx tx_queue \<Rightarrow> bool" where
  "entries_in S q \<longleftrightarrow> (\<forall>h e. hm_get (by_hash q) h = Some e \<longrightarrow> e \<in> S)"

lemma entries_in_remove: "entries_in S q \<Longrightarrow> entries_in S (fst (txq_remove h q))"
  by (simp add: entries_in_def hm_get_remove)

lemma fee_complete_submit:
  assumes "txq_wf q" and "fee_complete q" and "entries_in S q" and "qe_fee_level e \<notin> qe_fee_level ` S"
  shows "fee_complete (fst (submit q e)) \<and> entries_in (insert e S) (fst (submit q e))"
proof -
  have enq: "fee_complete (enqueue x e) \<and> entries_in (insert e S) (enqueue x e)"
    if x: "txq_wf x" "fee_complete x" "entries_in S x" for x
  proof
    have "sorted_wrt (>) (map fst (by_fee x))" using x(1) by (simp add: txq_wf_def fee_index_ok_def)
    then show "fee_complete (enqueue x e)"
      using x(2,3) assms(4) by (intro fee_complete_enqueue) (simp_all add: entries_in_def, metis image_eqI)
    show "entries_in (insert e S) (enqueue x e)" using x(3) by (simp add: entries_in_def enqueue_def hm_get_insert)
  qed
  have "fee_complete (displace h q) \<and> entries_in S (displace h q)" for h
    using fee_complete_remove [OF assms(2)] entries_in_remove [OF assms(3)]
    by (simp add: displace_def fee_complete_def entries_in_def)
  then have "fee_complete (enqueue (displace h q) e) \<and> entries_in (insert e S) (enqueue (displace h q) e)" for h
    using txq_wf_displace [OF assms(1)] by (intro enq) blast+
  moreover have "entries_in (insert e S) q" using assms(3) by (simp add: entries_in_def)
  ultimately show ?thesis
    using enq [OF assms(1-3)] assms(2) by (simp add: submit_alt [OF assms(1)] split: option.split)
qed

lemma fee_complete_run:
  "distinct (map qe_fee_level (submitted ops)) \<Longrightarrow>
     fee_complete (txq_run cap ops) \<and> entries_in (set (submitted ops)) (txq_run cap ops)"
proof (induction ops rule: rev_induct)
  case Nil
  show ?case by (simp add: txq_run_def txq_new_def fee_complete_def entries_in_def)
next
  case (snoc op ops)
  let ?q = "txq_run cap ops" and ?S = "set (submitted ops)"
  have run: "txq_run cap (ops @ [x]) = txq_step x ?q" for x by (simp add: txq_run_def)
  have IH: "fee_complete ?q" "entries_in ?S ?q" using snoc by (simp_all add: submitted_append)
  have all: "fee_complete (remove_all hs ?q) \<and> entries_in ?S (remove_all hs ?q)" for hs
    by (rule remove_all_preserves) (simp_all add: IH fee_complete_remove entries_in_remove)
  show ?case
  proof (cases op)
    case (Submit e)
    have "qe_fee_level e \<notin> qe_fee_level ` ?S" using snoc.prems Submit by (simp add: submitted_append)
    then show ?thesis using fee_complete_submit [OF txq_run_wf IH, of e] by (simp add: run Submit submitted_append)
  next
    case (Remove h)
    then show ?thesis using IH by (simp add: run submitted_append fee_complete_remove entries_in_remove)
  next
    case (RemoveIf P)
    then show ?thesis using all by (simp add: run submitted_append remove_if_def)
  next
    case (RemoveExpired n)
    then show ?thesis using all by (simp add: run submitted_append remove_expired_def Let_def fee_complete_def entries_in_def)
  qed (use IH in \<open>simp_all add: run submitted_append drain_for_retry_def drain_for_retry_ordered_def clear_indexes_def
        record_drop_def record_applied_def fee_complete_def entries_in_def\<close>)
qed

text \<open>C26: In every queue a run of operations can reach, the account index and the account-and-sequence
  index agree with the entries by hash in both directions, and the queue stays within its bounds:
  at most the capacity in all and ten per account, an account's list is exactly its queued hashes,
  and an account and a sequence name at most one entry. The fee index is strictly descending and
  points only at queued entries of its fee level. The converse, that every queued entry is in
  the fee index, needs that no two submissions of the run pay the same fee level; then the fee index
  is exactly the queued entries.\<close>

theorem txq_indexes_consistent:
  "(let q = txq_run cap ops in
     txq_len q \<le> cap \<and> distinct (hm_keys (by_hash q)) \<and> sorted_wrt (>) (map fst (by_fee q))
     \<and> list_all (\<lambda>(f, h). map_option qe_fee_level (txq_get q h) = Some f) (by_fee q)
     \<and> (distinct (map qe_fee_level (submitted ops)) \<longrightarrow>
          set (by_fee q) = {(qe_fee_level e, h) |h e. txq_get q h = Some e})
     \<and> list_all (\<lambda>(h, e). qe_hash e = h) (by_hash q)
     \<and> (\<forall>a s h. hm_get (by_account_seq q) (a, s) = Some h \<longleftrightarrow>
          (\<exists>e. txq_get q h = Some e \<and> qe_account e = a \<and> qe_sequence e = s))
     \<and> (\<forall>a. distinct (account_txs q a) \<and> length (account_txs q a) \<le> 10
          \<and> set (account_txs q a) = {h. \<exists>e. txq_get q h = Some e \<and> qe_account e = a}))"
proof -
  define q where "q = txq_run cap ops"
  have wf: "txq_wf q" unfolding q_def by (rule txq_run_wf)
  note d = txq_wfD [OF wf]
  have "list_all (\<lambda>(f, h). map_option qe_fee_level (txq_get q h) = Some f) (by_fee q)" "sorted_wrt (>) (map fst (by_fee q))"
    using wf by (fastforce simp: txq_wf_def fee_index_ok_def list_all_iff txq_get_def)+
  moreover have "set (by_fee q) = {(qe_fee_level e, h) |h e. txq_get q h = Some e}"
    if "distinct (map qe_fee_level (submitted ops))"
    using fee_complete_run [OF that, of cap] wf unfolding q_def [symmetric]
    by (fastforce simp: fee_complete_def txq_wf_def fee_index_ok_def txq_get_def)
  moreover have "list_all (\<lambda>(h, e). qe_hash e = h) (by_hash q)"
    using d(1) d(2) by (auto simp: list_all_iff intro: map_of_is_SomeI)
  moreover have "hm_get (by_account_seq q) (a, s) = Some h \<longleftrightarrow>
      (\<exists>e. txq_get q h = Some e \<and> qe_account e = a \<and> qe_sequence e = s)" for a s h
    using wf by (simp add: txq_wf_def seq_index_ok_def txq_get_def)
  moreover have "distinct (account_txs q a)" for a using wf by (simp add: txq_wf_def account_index_ok_def)
  moreover have "txq_len q \<le> cap" using d(3) txq_run_cap [of cap ops] by (simp add: txq_len_def q_def)
  ultimately show ?thesis
    unfolding q_def [symmetric] Let_def using d(1) d(4) d(5) by (simp add: txq_get_def MAX_ACCOUNT_QUEUE_DEPTH_def)
qed

definition example_rich :: "unit queue_entry" where
  "example_rich = (example_entry 2 6)\<lparr>qe_fee_level := 512\<rparr>"

theorem txq_indexes_consistent_witness:
  "(let ops = [Submit (example_entry 1 5), Submit example_rich]; q = txq_run 10 ops in
     distinct (map qe_fee_level (submitted ops)) \<and> txq_get q 2 = Some example_rich
     \<and> set (by_fee q) = {(qe_fee_level e, h) |h e. txq_get q h = Some e} \<and> (512, 2) \<in> set (by_fee q))"
proof -
  let ?ops = "[Submit (example_entry 1 5), Submit example_rich]"
  have fees: "distinct (map qe_fee_level (submitted ?ops))" by (simp add: example_entry_def example_rich_def)
  have get: "txq_get (txq_run 10 ?ops) 2 = Some example_rich"
    by (simp add: txq_run_def txq_new_def submit_def txq_remove_def example_entry_def example_rich_def txq_get_def Let_def
        MAX_ACCOUNT_QUEUE_DEPTH_def)
  have "set (by_fee (txq_run 10 ?ops)) = {(qe_fee_level e, h) |h e. txq_get (txq_run 10 ?ops) h = Some e}"
    using txq_indexes_consistent [of 10 ?ops] fees by (simp only: Let_def)
  moreover have "(512, 2) \<in> {(qe_fee_level e, h) |h e. txq_get (txq_run 10 ?ops) h = Some e}"
    using get by (simp add: example_entry_def example_rich_def)
  ultimately show ?thesis using fees get by (simp only: Let_def)
qed

text \<open>As long as no two submissions of a run pay the same fee level, draining for retry returns every
  queued entry, the highest fee first.\<close>

theorem drain_complete_with_distinct_fees:
  assumes "distinct (map qe_fee_level (submitted ops))"
  shows "mset (snd (drain_for_retry (txq_run cap ops))) = mset (hm_values (by_hash (txq_run cap ops)))
    \<and> sorted_wrt (>) (map qe_fee_level (snd (drain_for_retry (txq_run cap ops))))"
proof -
  define q where "q = txq_run cap ops"
  have wf: "txq_wf q" and complete: "fee_complete q"
    using txq_run_wf fee_complete_run [OF assms] by (simp_all add: q_def)
  have fee: "\<exists>e. hm_get (by_hash q) h = Some e \<and> qe_fee_level e = f" if "(f, h) \<in> set (by_fee q)" for f h
    using wf that by (simp add: txq_wf_def fee_index_ok_def)
  define es where "es = map (\<lambda>(f, h). the (hm_get (by_hash q) h)) (by_fee q)"
  have drain: "snd (drain_for_retry q) = es"
  proof -
    have "filter (\<lambda>x. (\<lambda>(_, h). hm_get (by_hash q) h) x \<noteq> None) (by_fee q) = by_fee q"
      by (rule filter_True) (use fee in force)
    then show ?thesis by (simp add: drain_for_retry_def es_def map_filter_def comp_def case_prod_unfold)
  qed
  have levels: "map qe_fee_level es = map fst (by_fee q)" unfolding es_def using fee by (auto dest!: fee)
  have sorted: "sorted_wrt (>) (map qe_fee_level es)"
    using wf by (simp add: levels txq_wf_def fee_index_ok_def)
  have "distinct (map qe_fee_level es)"
    using sorted strict_sorted_iff [of "rev (map qe_fee_level es)"] by (simp add: sorted_wrt_rev)
  then have "distinct es" unfolding distinct_map by (rule conjunct1)
  moreover have "distinct (hm_values (by_hash q))" by (rule values_distinct [OF wf])
  moreover have "set es = set (hm_values (by_hash q))"
  proof
    show "set es \<subseteq> set (hm_values (by_hash q))"
      unfolding es_def by (force dest!: fee dest: map_of_SomeD)
    show "set (hm_values (by_hash q)) \<subseteq> set es"
    proof
      fix e assume "e \<in> set (hm_values (by_hash q))"
      then obtain h where h: "hm_get (by_hash q) h = Some e"
        using txq_wfD(1) [OF wf] by (auto intro: map_of_is_SomeI)
      then have "(qe_fee_level e, h) \<in> set (by_fee q)" using complete by (simp add: fee_complete_def)
      then show "e \<in> set es" unfolding es_def using h by force
    qed
  qed
  ultimately have "mset es = mset (hm_values (by_hash q))" by (simp only: set_eq_iff_mset_eq_distinct)
  then show ?thesis using sorted by (simp add: drain q_def [symmetric])
qed

theorem drain_complete_with_distinct_fees_witness:
  "mset (snd (drain_for_retry (txq_run 10 [Submit (example_entry 1 5), RemoveExpired 3])))
     = mset (hm_values (by_hash (txq_run 10 [Submit (example_entry 1 5), RemoveExpired 3])))"
  using drain_complete_with_distinct_fees [of "[Submit (example_entry 1 5), RemoveExpired 3]" 10] by simp

end
