(* ===== verification/Iou_Amount.thy ===== *)
theory Iou_Amount
  imports Complex_Main Prelude
begin

text \<open>
  Issued amounts: \<^verbatim>\<open>crates/amount/src/iou.rs\<close> and \<^verbatim>\<open>error.rs\<close>. A mantissa is a natural number
  below 2^64, an exponent an integer whose additions and subtractions wrap at 32 bits as in the
  release build, and the 128-bit intermediates never overflow for mantissas of 64 bits. A fallible
  operation returns \<open>Inl\<close> an error or \<open>Inr\<close> a value. The theorems relate every operation to the
  rational number an amount stands for.
\<close>

subsection \<open>Representation\<close>

datatype amount_error = Overflow | DivisionByZero | NativeOverflow

type_synonym 'a result = "amount_error + 'a"

text \<open>The operator \<open>?\<close>.\<close>

definition and_then :: "'e + 'a \<Rightarrow> ('a \<Rightarrow> 'e + 'b) \<Rightarrow> 'e + 'b" where
  "and_then r f = (case r of Inl e \<Rightarrow> Inl e | Inr x \<Rightarrow> f x)"

definition i32 :: "int \<Rightarrow> int" where
  "i32 x = (x + 2147483648) mod 4294967296 - 2147483648"

definition MIN_MANTISSA :: nat where
  "MIN_MANTISSA = 1000000000000000"

definition MAX_MANTISSA :: nat where
  "MAX_MANTISSA = 9999999999999999"

definition MIN_EXPONENT :: int where
  "MIN_EXPONENT = -96"

definition MAX_EXPONENT :: int where
  "MAX_EXPONENT = 80"

definition ZERO_EXPONENT :: int where
  "ZERO_EXPONENT = -100"

definition TEN_TO_14 :: nat where
  "TEN_TO_14 = 100000000000000"

definition TEN_TO_17 :: nat where
  "TEN_TO_17 = 100000000000000000"

record iou_amount =
  mantissa :: nat
  exponent :: int
  negative :: bool

definition iou_ZERO :: iou_amount where
  "iou_ZERO = \<lparr>mantissa = 0, exponent = ZERO_EXPONENT, negative = False\<rparr>"

definition iou_MIN_POSITIVE :: iou_amount where
  "iou_MIN_POSITIVE = \<lparr>mantissa = MIN_MANTISSA, exponent = MIN_EXPONENT, negative = False\<rparr>"

definition iou_is_zero :: "iou_amount \<Rightarrow> bool" where
  "iou_is_zero a = (mantissa a = 0)"

definition iou_is_negative :: "iou_amount \<Rightarrow> bool" where
  "iou_is_negative a = (negative a \<and> mantissa a \<noteq> 0)"

definition iou_negate :: "iou_amount \<Rightarrow> iou_amount" where
  "iou_negate a = (if mantissa a \<noteq> 0 then a\<lparr>negative := \<not> negative a\<rparr> else a)"

definition iou_abs :: "iou_amount \<Rightarrow> iou_amount" where
  "iou_abs a = a\<lparr>negative := False\<rparr>"

subsection \<open>Normalization\<close>

text \<open>The loop that scales a mantissa up. The source never enters it with 0, on which it would not end.\<close>

function scale_up :: "nat \<Rightarrow> int \<Rightarrow> nat \<times> int" where
  "scale_up m e = (if 0 < m \<and> m < MIN_MANTISSA then scale_up (m * 10) (i32 (e - 1)) else (m, e))"
  by auto
termination by (relation "measure (\<lambda>(m, _). MIN_MANTISSA - m)") auto

text \<open>The loop that scales it down, with its overflow exit.\<close>

function scale_down :: "nat \<Rightarrow> int \<Rightarrow> (nat \<times> int) result" where
  "scale_down m e =
     (if MAX_MANTISSA < m
      then if MAX_EXPONENT \<le> e then Inl Overflow else scale_down (m div 10) (i32 (e + 1))
      else Inr (m, e))"
  by auto
termination by (relation "measure (\<lambda>(m, _). m)") (auto simp: MAX_MANTISSA_def)

declare scale_up.simps [simp del] scale_down.simps [simp del]

definition iou_normalize :: "iou_amount \<Rightarrow> iou_amount result" where
  "iou_normalize a =
     (if mantissa a = 0 then Inr (a\<lparr>exponent := ZERO_EXPONENT, negative := False\<rparr>)
      else
        (let (m, e) = scale_up (mantissa a) (exponent a) in
         and_then (scale_down m e) (\<lambda>(m, e).
           if e < MIN_EXPONENT then Inr iou_ZERO
           else if MAX_EXPONENT < e then Inl Overflow
           else Inr (a\<lparr>mantissa := m, exponent := e\<rparr>))))"

definition iou_from_parts :: "nat \<Rightarrow> int \<Rightarrow> bool \<Rightarrow> iou_amount result" where
  "iou_from_parts m e neg = iou_normalize \<lparr>mantissa = m, exponent = e, negative = neg\<rparr>"

definition iou_new :: "int \<Rightarrow> int \<Rightarrow> iou_amount result" where
  "iou_new m e = iou_normalize \<lparr>mantissa = nat \<bar>m\<bar>, exponent = e, negative = m < 0\<rparr>"

definition iou_from_raw :: "nat \<Rightarrow> int \<Rightarrow> bool \<Rightarrow> iou_amount" where
  "iou_from_raw m e neg = \<lparr>mantissa = m, exponent = e, negative = neg\<rparr>"

subsection \<open>Products and quotients\<close>

definition iou_multiply :: "iou_amount \<Rightarrow> iou_amount \<Rightarrow> iou_amount result" where
  "iou_multiply a b =
     (if iou_is_zero a \<or> iou_is_zero b then Inr iou_ZERO
      else
        (let (m1, e1) = scale_up (mantissa a) (exponent a);
             (m2, e2) = scale_up (mantissa b) (exponent b);
             result_exponent = e1 + e2 + 14 in
         if MAX_EXPONENT + 16 < result_exponent then Inl Overflow
         else
           (let res = m1 * m2 div TEN_TO_14 + 7 in
            if u64_max < res then Inl Overflow
            else iou_from_parts res (i32 result_exponent) (negative a \<noteq> negative b))))"

text \<open>The number of digits to drop until a mantissa fits, and the reduction that rounds half to even.\<close>

function digits_over :: "nat \<Rightarrow> nat" where
  "digits_over m = (if MAX_MANTISSA < m then Suc (digits_over (m div 10)) else 0)"
  by auto
termination by (relation "measure id") (auto simp: MAX_MANTISSA_def)

declare digits_over.simps [simp del]

definition half_even :: "nat \<Rightarrow> nat \<Rightarrow> nat" where
  "half_even m d =
     (let q = m div d; r = m mod d; half = d div 2
      in if half < r \<or> (r = half \<and> odd q) then q + 1 else q)"

function trim_carry :: "nat \<Rightarrow> int \<Rightarrow> nat \<times> int" where
  "trim_carry m e = (if MAX_MANTISSA < m then trim_carry (m div 10) (i32 (e + 1)) else (m, e))"
  by auto
termination by (relation "measure (\<lambda>(m, _). m)") (auto simp: MAX_MANTISSA_def)

declare trim_carry.simps [simp del]

definition iou_from_parts_round_half_even :: "nat \<Rightarrow> int \<Rightarrow> bool \<Rightarrow> iou_amount result" where
  "iou_from_parts_round_half_even m e neg =
     (if m = 0 then Inr iou_ZERO
      else
        (let (m, e) = (if MAX_MANTISSA < m
               then let k = digits_over m in trim_carry (half_even m (10 ^ k)) (i32 (e + int k))
               else (m, e)) in
         if u64_max < m then Inl Overflow else iou_from_parts m e neg))"

definition iou_divide_canonical :: "iou_amount \<Rightarrow> iou_amount \<Rightarrow> bool \<Rightarrow> iou_amount result" where
  "iou_divide_canonical num den round_even =
     (if iou_is_zero den then Inl DivisionByZero
      else if iou_is_zero num then Inr iou_ZERO
      else
        (let (m1, e1) = scale_up (mantissa num) (exponent num);
             (m2, e2) = scale_up (mantissa den) (exponent den);
             res = m1 * TEN_TO_17 div m2 + 5;
             result_negative = (negative num \<noteq> negative den);
             result_exponent = i32 (i32 (e1 - e2) - 17) in
         if round_even then iou_from_parts_round_half_even res result_exponent result_negative
         else if u64_max < res then Inl Overflow
         else iou_from_parts res result_exponent result_negative))"

definition iou_divide :: "iou_amount \<Rightarrow> iou_amount \<Rightarrow> iou_amount result" where
  "iou_divide num den = iou_divide_canonical num den False"

definition iou_divide_round_even :: "iou_amount \<Rightarrow> iou_amount \<Rightarrow> iou_amount result" where
  "iou_divide_round_even num den = iou_divide_canonical num den True"

subsection \<open>Directed rounding\<close>

function trim_far :: "nat \<Rightarrow> int \<Rightarrow> nat \<times> int" where
  "trim_far m e = (if 10 * MAX_MANTISSA < m then trim_far (m div 10) (i32 (e + 1)) else (m, e))"
  by auto
termination by (relation "measure (\<lambda>(m, _). m)") (auto simp: MAX_MANTISSA_def)

declare trim_far.simps [simp del]

definition canonicalize_round :: "nat \<Rightarrow> int \<Rightarrow> nat \<times> int" where
  "canonicalize_round amount offset =
     (if MAX_MANTISSA < amount
      then let (m, e) = trim_far amount offset in ((m + 9) div 10, i32 (e + 1))
      else (amount, offset))"

text \<open>The common tail of \<open>mul_round\<close> and \<open>div_round\<close>, from the 128-bit result on.\<close>

definition round_tail :: "nat \<Rightarrow> int \<Rightarrow> bool \<Rightarrow> bool \<Rightarrow> iou_amount result" where
  "round_tail res offset result_negative round_up =
     (if u64_max < res then Inl Overflow
      else
        (let (m, e) = (if result_negative \<noteq> round_up then canonicalize_round res offset else (res, offset)) in
         and_then (iou_from_parts m e result_negative) (\<lambda>r.
           if round_up \<and> \<not> result_negative \<and> iou_is_zero r then Inr iou_MIN_POSITIVE else Inr r)))"

definition iou_mul_round :: "iou_amount \<Rightarrow> iou_amount \<Rightarrow> bool \<Rightarrow> iou_amount result" where
  "iou_mul_round a b round_up =
     (if iou_is_zero a \<or> iou_is_zero b then
        (if round_up \<and> \<not> (iou_is_negative a \<or> iou_is_negative b) then Inr iou_MIN_POSITIVE else Inr iou_ZERO)
      else
        (let (m1, e1) = scale_up (mantissa a) (exponent a);
             (m2, e2) = scale_up (mantissa b) (exponent b);
             result_negative = (negative a \<noteq> negative b);
             bias = (if result_negative \<noteq> round_up then TEN_TO_14 - 1 else 0)
         in round_tail ((m1 * m2 + bias) div TEN_TO_14) (i32 (i32 (e1 + e2) + 14)) result_negative round_up))"

definition iou_div_round :: "iou_amount \<Rightarrow> iou_amount \<Rightarrow> bool \<Rightarrow> iou_amount result" where
  "iou_div_round num den round_up =
     (if iou_is_zero den then Inl DivisionByZero
      else if iou_is_zero num then
        (if round_up \<and> \<not> iou_is_negative num then Inr iou_MIN_POSITIVE else Inr iou_ZERO)
      else
        (let (m1, e1) = scale_up (mantissa num) (exponent num);
             (m2, e2) = scale_up (mantissa den) (exponent den);
             result_negative = (negative num \<noteq> negative den);
             bias = (if result_negative \<noteq> round_up then m2 - 1 else 0)
         in round_tail ((m1 * TEN_TO_17 + bias) div m2) (i32 (i32 (e1 - e2) - 17)) result_negative round_up))"

text \<open>The cast \<open>low as u64\<close> keeps the low 64 bits.\<close>

definition iou_mul_ratio :: "iou_amount \<Rightarrow> nat \<Rightarrow> nat \<Rightarrow> bool \<Rightarrow> iou_amount result" where
  "iou_mul_ratio a numerator denominator round_up =
     (if denominator = 0 then Inl DivisionByZero
      else if iou_is_zero a \<or> numerator = 0 then Inr iou_ZERO
      else
        (let mul = mantissa a * numerator;
             low = mul div denominator;
             has_rem = (mul mod denominator \<noteq> 0);
             (m, e) = trim_carry (wrap64 low) (exponent a);
             neg = negative a in
         and_then (iou_from_parts m e neg) (\<lambda>r.
           if has_rem \<and> round_up \<and> \<not> neg then
             (if iou_is_zero r then Inr iou_MIN_POSITIVE
              else iou_from_parts (mantissa r + 1) (exponent r) (negative r))
           else if has_rem \<and> \<not> round_up \<and> neg then
             (if iou_is_zero r then Inr (iou_from_raw MIN_MANTISSA MIN_EXPONENT True)
              else iou_from_parts (mantissa r + 1) (exponent r) (negative r))
           else Inr r)))"

subsection \<open>Sums\<close>

text \<open>The alignment loop: \<^const>\<open>None\<close> when the mantissa runs out.\<close>

function align :: "nat \<Rightarrow> int \<Rightarrow> int \<Rightarrow> nat option" where
  "align m e target = (if e < target then if m div 10 = 0 then None else align (m div 10) (e + 1) target else Some m)"
  by auto
termination by (relation "measure (\<lambda>(m, _, _). m)") auto

declare align.simps [simp del]

definition signed :: "bool \<Rightarrow> nat \<Rightarrow> int" where
  "signed neg m = (if neg then - int m else int m)"

definition iou_add :: "iou_amount \<Rightarrow> iou_amount \<Rightarrow> iou_amount result" where
  "iou_add a b =
     (if iou_is_zero a then Inr b
      else if iou_is_zero b then Inr a
      else
        (case align (mantissa a) (exponent a) (exponent b) of None \<Rightarrow> Inr b
         | Some m1 \<Rightarrow>
             (case align (mantissa b) (exponent b) (exponent a) of None \<Rightarrow> Inr a
              | Some m2 \<Rightarrow>
                  (let total = signed (negative a) m1 + signed (negative b) m2 in
                   if total = 0 then Inr iou_ZERO
                   else if int u64_max < \<bar>total\<bar> then Inl Overflow
                   else iou_from_parts (nat \<bar>total\<bar>) (max (exponent a) (exponent b)) (total < 0)))))"

definition iou_sub :: "iou_amount \<Rightarrow> iou_amount \<Rightarrow> iou_amount result" where
  "iou_sub a b = iou_add a (iou_negate b)"

definition iou_add_round :: "iou_amount \<Rightarrow> iou_amount \<Rightarrow> iou_amount result" where
  "iou_add_round a b =
     (if iou_is_zero a then Inr b
      else if iou_is_zero b then Inr a
      else
        (let lo = min (exponent a) (exponent b);
             hi = max (exponent a) (exponent b) in
         if 19 < hi - lo then Inr (if exponent a = hi then a else b)
         else
           (let va = signed (negative a) (mantissa a * 10 ^ nat (exponent a - lo));
                vb = signed (negative b) (mantissa b * 10 ^ nat (exponent b - lo));
                total = va + vb;
                mag = nat \<bar>total\<bar> in
            if total = 0 then Inr iou_ZERO
            else
              (let (mag, e) = (if MAX_MANTISSA < mag then
                     (let k = digits_over mag;
                          rounded = half_even mag (10 ^ k);
                          e = lo + int k
                      in if MAX_MANTISSA < rounded then (rounded div 10, e + 1) else (rounded, e))
                   else (mag, lo))
               in iou_from_parts (wrap64 mag) e (total < 0)))))"

subsection \<open>Order\<close>

datatype ordering = Less | Equal | Greater

definition compare :: "'a :: linorder \<Rightarrow> 'a \<Rightarrow> ordering" where
  "compare x y = (if x < y then Less else if x = y then Equal else Greater)"

fun reverse :: "ordering \<Rightarrow> ordering" where
  "reverse Less = Greater"
| "reverse Equal = Equal"
| "reverse Greater = Less"

definition iou_eq :: "iou_amount \<Rightarrow> iou_amount \<Rightarrow> bool" where
  "iou_eq a b \<longleftrightarrow> iou_is_zero a \<and> iou_is_zero b
     \<or> mantissa a = mantissa b \<and> exponent a = exponent b \<and> negative a = negative b"

definition iou_cmp :: "iou_amount \<Rightarrow> iou_amount \<Rightarrow> ordering" where
  "iou_cmp a b =
     (if iou_is_zero a \<and> iou_is_zero b then Equal
      else if iou_is_zero a then (if negative b then Greater else Less)
      else if iou_is_zero b then (if negative a then Less else Greater)
      else if negative a \<noteq> negative b then (if negative a then Less else Greater)
      else
        (let mag = (if exponent a \<noteq> exponent b then compare (exponent a) (exponent b)
                    else compare (mantissa a) (mantissa b))
         in if negative a then reverse mag else mag))"

subsection \<open>The number an amount stands for\<close>

definition mag :: "nat \<Rightarrow> int \<Rightarrow> rat" where
  "mag m e = of_nat m * 10 powi e"

definition iou_value :: "iou_amount \<Rightarrow> rat" where
  "iou_value a = (if negative a then - mag (mantissa a) (exponent a) else mag (mantissa a) (exponent a))"

definition iou_wf :: "iou_amount \<Rightarrow> bool" where
  "iou_wf a \<longleftrightarrow> mantissa a = 0 \<and> exponent a = ZERO_EXPONENT \<and> \<not> negative a
     \<or> MIN_MANTISSA \<le> mantissa a \<and> mantissa a \<le> MAX_MANTISSA
       \<and> MIN_EXPONENT \<le> exponent a \<and> exponent a \<le> MAX_EXPONENT"

lemmas iou_consts = MIN_MANTISSA_def MAX_MANTISSA_def MIN_EXPONENT_def MAX_EXPONENT_def ZERO_EXPONENT_def

lemma i32_id: "-2147483648 \<le> x \<Longrightarrow> x \<le> 2147483647 \<Longrightarrow> i32 x = x"
  by (simp add: i32_def)

lemma mag_shift: "mag (m * 10 ^ k) (e - int k) = mag m e"
  by (simp add: mag_def power_int_diff)

lemma mag_shift_up: "mag (m * 10 ^ k) e = mag m (e + int k)"
  by (simp add: mag_def power_int_add)

lemma mag_0 [simp]: "mag 0 e = 0"
  by (simp add: mag_def)

lemma mag_mono: "m \<le> m' \<Longrightarrow> mag m e \<le> mag m' e"
  by (simp add: mag_def)

lemma mag_less: "m < m' \<Longrightarrow> mag m e < mag m' e"
  by (simp add: mag_def)

lemma mag_pos: "0 < m \<Longrightarrow> 0 < mag m e"
  by (simp add: mag_def)

lemma mag_nonneg [simp]: "0 \<le> mag m e"
  by (simp add: mag_def)

lemma mag_add: "mag (m + m') e = mag m e + mag m' e"
  by (simp add: mag_def distrib_right)

text \<open>Cutting the last \<open>k\<close> digits truncates.\<close>

lemma mag_cut: "mag (m div 10 ^ k) (e + int k) \<le> mag m e" "mag m e < mag (Suc (m div 10 ^ k)) (e + int k)"
proof -
  have "m div 10 ^ k * 10 ^ k \<le> m" by simp
  then show "mag (m div 10 ^ k) (e + int k) \<le> mag m e" by (simp only: mag_shift_up [symmetric] mag_mono)
  have "m < Suc (m div 10 ^ k) * 10 ^ k" by (simp add: dividend_less_div_times)
  then show "mag m e < mag (Suc (m div 10 ^ k)) (e + int k)" by (simp only: mag_shift_up [symmetric] mag_less)
qed

lemma mag_exponent_mono: "e \<le> e' \<Longrightarrow> mag m e \<le> mag m e'"
  by (simp add: mag_def power_int_increasing mult_left_mono)

lemma mag_exponent_less:
  assumes "m \<le> MAX_MANTISSA" and "MIN_MANTISSA \<le> m'" and "e < e'"
  shows "mag m e < mag m' e'"
proof -
  obtain k where k: "e' = e + int (Suc k)" using assms(3) by (metis zless_iff_Suc_zadd)
  have "m < m' * 10" using assms by (simp add: iou_consts)
  also have "\<dots> \<le> m' * 10 ^ Suc k" by simp
  finally show ?thesis unfolding k mag_shift_up [symmetric] by (rule mag_less)
qed

subsection \<open>The loops\<close>

lemma scale_up_spec:
  assumes "0 < m" and "MIN_MANTISSA \<le> m * 10 ^ n" and "-2147483648 \<le> e - int n" and "e \<le> 2147483647"
  shows "\<exists>k. scale_up m e = (m * 10 ^ k, e - int k) \<and> k \<le> n \<and> MIN_MANTISSA \<le> m * 10 ^ k
    \<and> (m \<le> MAX_MANTISSA \<longrightarrow> m * 10 ^ k \<le> MAX_MANTISSA) \<and> (MIN_MANTISSA \<le> m \<longrightarrow> k = 0)"
  using assms
proof (induction n arbitrary: m e)
  case 0
  then show ?case by (intro exI [of _ 0]) (simp add: scale_up.simps [of m e])
next
  case (Suc n)
  show ?case
  proof (cases "m < MIN_MANTISSA")
    case True
    have "i32 (e - 1) = e - 1" using Suc.prems by (intro i32_id) simp_all
    then have step: "scale_up m e = scale_up (m * 10) (e - 1)"
      using True Suc.prems(1) by (simp add: scale_up.simps [of m e])
    obtain k where "scale_up (m * 10) (e - 1) = (m * 10 * 10 ^ k, e - 1 - int k)" "k \<le> n"
      "MIN_MANTISSA \<le> m * 10 * 10 ^ k" "m * 10 * 10 ^ k \<le> MAX_MANTISSA"
      using Suc.IH [of "m * 10" "e - 1"] Suc.prems True by (auto simp: iou_consts mult.assoc)
    then show ?thesis using True by (intro exI [of _ "Suc k"]) (auto simp: step)
  next
    case False
    then show ?thesis by (intro exI [of _ 0]) (simp add: scale_up.simps [of m e])
  qed
qed

lemma digits_over_0: "m \<le> MAX_MANTISSA \<Longrightarrow> digits_over m = 0"
  by (simp add: digits_over.simps [of m])

lemma digits_over_Suc: "MAX_MANTISSA < m \<Longrightarrow> digits_over m = Suc (digits_over (m div 10))"
  by (simp add: digits_over.simps [of m])

lemma digits_over_fits: "m div 10 ^ digits_over m \<le> MAX_MANTISSA"
proof (induction m rule: digits_over.induct)
  case (1 m)
  then show ?case
    by (cases "MAX_MANTISSA < m") (simp_all add: digits_over_0 digits_over_Suc div_mult2_eq)
qed

lemma digits_over_full: "MAX_MANTISSA < m \<Longrightarrow> MIN_MANTISSA \<le> m div 10 ^ digits_over m"
proof (induction m rule: digits_over.induct)
  case (1 m)
  show ?case
  proof (cases "MAX_MANTISSA < m div 10")
    case True
    then show ?thesis using 1 by (simp add: digits_over_Suc [of m] div_mult2_eq)
  next
    case False
    then have "digits_over (m div 10) = 0" by (simp add: digits_over_0)
    then show ?thesis using 1(2) by (simp add: digits_over_Suc [of m]) (simp add: iou_consts)
  qed
qed

lemma digits_over_bound: "m < 10 ^ (16 + n) \<Longrightarrow> digits_over m \<le> n"
proof (induction n arbitrary: m)
  case (Suc n)
  then have "m < 10 ^ (16 + n) * 10" by (simp add: power_add)
  then have "m div 10 < 10 ^ (16 + n)" by (rule less_mult_imp_div_less)
  with Suc.IH show ?case by (cases "MAX_MANTISSA < m") (simp_all add: digits_over_0 digits_over_Suc)
qed (simp add: digits_over_0 iou_consts)

lemma scale_down_spec:
  "-2147483648 \<le> e \<Longrightarrow> scale_down m e =
     (if digits_over m = 0 \<or> e + int (digits_over m) \<le> MAX_EXPONENT
      then Inr (m div 10 ^ digits_over m, e + int (digits_over m)) else Inl Overflow)"
proof (induction m e rule: scale_down.induct)
  case (1 m e)
  show ?case
  proof (cases "MAX_MANTISSA < m \<and> e < MAX_EXPONENT")
    case True
    then have "i32 (e + 1) = e + 1" using 1(2) by (intro i32_id) (simp_all add: iou_consts)
    then show ?thesis
      using 1(1) [OF _ _] 1(2) True
      by (auto simp: scale_down.simps [of m e] digits_over_Suc [of m] digits_over_0 div_mult2_eq not_le)
  next
    case False
    then show ?thesis
      by (auto simp: scale_down.simps [of m e] digits_over_0 digits_over_Suc not_less)
  qed
qed

lemma trim_carry_spec:
  "-2147483648 \<le> e \<Longrightarrow> e + int (digits_over m) \<le> 2147483647 \<Longrightarrow>
     trim_carry m e = (m div 10 ^ digits_over m, e + int (digits_over m))"
proof (induction m e rule: trim_carry.induct)
  case (1 m e)
  show ?case
  proof (cases "MAX_MANTISSA < m")
    case True
    then have "i32 (e + 1) = e + 1" using 1(2,3) by (intro i32_id) (simp_all add: digits_over_Suc)
    then show ?thesis
      using 1 True by (simp add: trim_carry.simps [of m e] digits_over_Suc [of m] div_mult2_eq)
  qed (simp add: trim_carry.simps [of m e] digits_over_0)
qed

subsection \<open>What normalization computes\<close>

text \<open>The canonical digits of a magnitude: sixteen, the rest cut off.\<close>

definition canonical :: "nat \<Rightarrow> int \<Rightarrow> nat \<Rightarrow> int \<Rightarrow> bool" where
  "canonical m e m' e' \<longleftrightarrow> MIN_MANTISSA \<le> m' \<and> m' \<le> MAX_MANTISSA
     \<and> mag m' e' \<le> mag m e \<and> mag m e < mag (Suc m') e' \<and> (m \<le> MAX_MANTISSA \<longrightarrow> mag m' e' = mag m e)"

definition settle :: "nat \<Rightarrow> int \<Rightarrow> bool \<Rightarrow> iou_amount result" where
  "settle m e neg = (if MAX_EXPONENT < e then Inl Overflow else if e < MIN_EXPONENT then Inr iou_ZERO
     else Inr \<lparr>mantissa = m, exponent = e, negative = neg\<rparr>)"

lemma from_parts_0: "iou_from_parts 0 e neg = Inr iou_ZERO"
  by (simp add: iou_from_parts_def iou_normalize_def iou_ZERO_def)

lemma from_parts_spec:
  assumes "0 < m" and "-2147483633 \<le> e" and "e \<le> 2147483647"
  obtains m' e' where "canonical m e m' e'" and "iou_from_parts m e neg = settle m' e' neg"
    and "MAX_MANTISSA < m \<Longrightarrow> m' = m div 10 ^ digits_over m \<and> e' = e + int (digits_over m)"
    and "MIN_MANTISSA \<le> m \<Longrightarrow> m \<le> MAX_MANTISSA \<Longrightarrow> m' = m \<and> e' = e"
proof (cases "MAX_MANTISSA < m")
  case True
  let ?k = "digits_over m"
  have up: "scale_up m e = (m, e)" using True by (simp add: scale_up.simps [of m e] iou_consts)
  have k: "?k \<noteq> 0" using True by (simp add: digits_over_Suc)
  have can: "canonical m e (m div 10 ^ ?k) (e + int ?k)"
    using True digits_over_fits [of m] digits_over_full [of m] mag_cut [where m = m and k = ?k and e = e] by (simp add: canonical_def)
  have res: "iou_from_parts m e neg = settle (m div 10 ^ ?k) (e + int ?k) neg"
    using assms True k
    by (auto simp: iou_from_parts_def iou_normalize_def up scale_down_spec settle_def and_then_def)
  show ?thesis by (rule that [OF can res]) (use True in simp_all)
next
  case False
  have "MIN_MANTISSA \<le> m * 10 ^ 15" using assms(1) by (simp add: MIN_MANTISSA_def)
  then obtain k where k: "scale_up m e = (m * 10 ^ k, e - int k)" "MIN_MANTISSA \<le> m * 10 ^ k"
    "m * 10 ^ k \<le> MAX_MANTISSA" "MIN_MANTISSA \<le> m \<longrightarrow> k = 0" "k \<le> 15"
    using scale_up_spec [of m 15 e] assms False by auto
  have can: "canonical m e (m * 10 ^ k) (e - int k)"
    using k(2,3) mag_less [of "m * 10 ^ k" "Suc (m * 10 ^ k)" "e - int k"] by (simp add: canonical_def mag_shift)
  have res: "iou_from_parts m e neg = settle (m * 10 ^ k) (e - int k) neg"
    using assms k
    by (auto simp: iou_from_parts_def iou_normalize_def scale_down_spec digits_over_0 settle_def and_then_def
        MIN_EXPONENT_def MAX_EXPONENT_def)
  show ?thesis by (rule that [OF can res]) (use False k(4) in simp_all)
qed

lemma from_parts_settle:
  assumes "MIN_MANTISSA \<le> m" and "m \<le> MAX_MANTISSA" and "-2147483633 \<le> e" and "e \<le> 2147483647"
  shows "iou_from_parts m e neg = settle m e neg"
proof -
  have "0 < m" using assms(1) by (simp add: MIN_MANTISSA_def)
  then obtain m' e' where "iou_from_parts m e neg = settle m' e' neg" "m' = m \<and> e' = e"
    by (rule from_parts_spec [OF _ assms(3,4)]) (use assms(1,2) in blast)
  then show ?thesis by simp
qed

lemma settle_wf: "canonical m e m' e' \<Longrightarrow> settle m' e' neg = Inr a \<Longrightarrow> iou_wf a"
  by (auto simp: settle_def iou_wf_def canonical_def iou_ZERO_def split: if_splits)

lemma iou_wf_ZERO [simp]: "iou_wf iou_ZERO"
  by (simp add: iou_wf_def iou_ZERO_def)

lemma from_parts_wf:
  assumes "iou_from_parts m e neg = Inr a" and "-2147483633 \<le> e" and "e \<le> 2147483647"
  shows "iou_wf a"
proof (cases "m = 0")
  case True
  then show ?thesis using assms(1) by (auto simp: from_parts_0)
next
  case False
  then obtain m' e' where "canonical m e m' e'" "iou_from_parts m e neg = settle m' e' neg"
    using from_parts_spec [of m e neg] assms(2,3) by blast
  then show ?thesis using assms(1) settle_wf by metis
qed

text \<open>What is returned for canonical digits.\<close>

lemma settle_correct:
  assumes can: "canonical m e m' e'"
  shows "case settle m' e' neg of
      Inl err \<Rightarrow> err = Overflow \<and> 10 powi 96 \<le> mag m e
    | Inr a \<Rightarrow> iou_wf a \<and> mag m e < 10 powi 96
        \<and> (if iou_is_zero a then mag m e < mag MIN_MANTISSA MIN_EXPONENT
           else negative a = neg \<and> \<bar>iou_value a\<bar> \<le> mag m e \<and> mag m e < \<bar>iou_value a\<bar> + 10 powi exponent a
             \<and> (m \<le> MAX_MANTISSA \<longrightarrow> \<bar>iou_value a\<bar> = mag m e))"
proof -
  have m': "MIN_MANTISSA \<le> m'" "Suc m' \<le> 10 * MIN_MANTISSA" "m' \<noteq> 0" using can by (auto simp: canonical_def iou_consts)
  have top: "mag (10 * MIN_MANTISSA) 80 = 10 powi 96" by (simp add: mag_def iou_consts power_int_def)
  have bottom: "mag MIN_MANTISSA 81 = 10 powi 96" by (simp add: mag_def iou_consts power_int_def)
  consider (big) "MAX_EXPONENT < e'" | (small) "e' < MIN_EXPONENT" | (fits) "MIN_EXPONENT \<le> e'" "e' \<le> MAX_EXPONENT" by linarith
  then show ?thesis
  proof cases
    case big
    have "mag MIN_MANTISSA 81 \<le> mag MIN_MANTISSA e'" using big by (intro mag_exponent_mono) (simp add: MAX_EXPONENT_def)
    also have "\<dots> \<le> mag m' e'" by (rule mag_mono [OF m'(1)])
    finally have "mag MIN_MANTISSA 81 \<le> mag m' e'" .
    then show ?thesis using big can bottom by (simp add: settle_def canonical_def)
  next
    case small
    have "mag (Suc m') e' \<le> mag MIN_MANTISSA MIN_EXPONENT"
    proof -
      have "mag (Suc m') e' \<le> mag (MIN_MANTISSA * 10 ^ 1) e'" using m'(2) by (intro mag_mono) simp
      also have "\<dots> = mag MIN_MANTISSA (e' + int 1)" by (rule mag_shift_up)
      also have "\<dots> \<le> mag MIN_MANTISSA MIN_EXPONENT"
        using small by (intro mag_exponent_mono) simp
      finally show ?thesis .
    qed
    moreover have "mag MIN_MANTISSA MIN_EXPONENT < mag MIN_MANTISSA 81"
      by (rule mag_exponent_less) (simp_all add: iou_consts)
    ultimately show ?thesis
      using small can bottom by (simp add: settle_def canonical_def iou_is_zero_def) (simp add: iou_consts iou_ZERO_def)
  next
    case fits
    have "mag (Suc m') e' \<le> 10 powi 96"
    proof -
      have "mag (Suc m') e' \<le> mag (MIN_MANTISSA * 10 ^ 1) e'" using m'(2) by (intro mag_mono) simp
      also have "\<dots> = mag MIN_MANTISSA (e' + int 1)" by (rule mag_shift_up)
      also have "\<dots> \<le> mag MIN_MANTISSA 81"
        using fits by (intro mag_exponent_mono) (simp add: MAX_EXPONENT_def)
      finally show ?thesis using bottom by simp
    qed
    moreover have "mag (Suc m') e' = mag m' e' + 10 powi e'" by (simp add: mag_def distrib_right)
    ultimately show ?thesis
      using fits can m'(3) by (auto simp: settle_def canonical_def iou_is_zero_def iou_value_def iou_wf_def)
  qed
qed

text \<open>C31: Normalization gives a well-formed amount: it keeps the sixteen leading digits and the sign, so
  the value is exact up to sixteen digits and otherwise truncated toward zero by less than a unit of
  the last place. It reports overflow exactly for magnitudes of at least 10^96, and returns zero
  exactly for magnitudes below the smallest positive amount.\<close>

theorem iou_normalize_correct:
  assumes "0 < m" and "-2147483633 \<le> e" and "e \<le> 2147483647"
  shows "case iou_from_parts m e neg of
      Inl err \<Rightarrow> err = Overflow \<and> 10 powi 96 \<le> mag m e
    | Inr a \<Rightarrow> iou_wf a \<and> mag m e < 10 powi 96
        \<and> (if iou_is_zero a then mag m e < mag MIN_MANTISSA MIN_EXPONENT
           else negative a = neg \<and> \<bar>iou_value a\<bar> \<le> mag m e \<and> mag m e < \<bar>iou_value a\<bar> + 10 powi exponent a
             \<and> (m \<le> MAX_MANTISSA \<longrightarrow> \<bar>iou_value a\<bar> = mag m e))"
proof -
  obtain m' e' where can: "canonical m e m' e'" and res: "iou_from_parts m e neg = settle m' e' neg"
    using from_parts_spec [OF assms, of neg] by blast
  show ?thesis unfolding res by (rule settle_correct [OF can])
qed

theorem iou_normalize_correct_witness:
  "(case iou_from_parts 123456789012345678 0 True of Inl _ \<Rightarrow> False
    | Inr a \<Rightarrow> iou_wf a \<and> mag 123456789012345678 0 < 10 powi 96)"
  using iou_normalize_correct [of 123456789012345678 0 True]
  by (cases "iou_from_parts 123456789012345678 0 True") (simp_all add: mag_def power_int_def)

subsection \<open>Order and sign\<close>

lemma iou_value_zero: "mantissa a = 0 \<Longrightarrow> iou_value a = 0"
  by (simp add: iou_value_def)

lemma iou_value_sign: "mantissa a \<noteq> 0 \<Longrightarrow> (iou_value a < 0) = negative a \<and> iou_value a \<noteq> 0"
  using mag_pos [of "mantissa a" "exponent a"] by (auto simp: iou_value_def)

text \<open>A magnitude has one canonical form.\<close>

lemma mag_apart:
  assumes "m \<le> MAX_MANTISSA" and "MIN_MANTISSA \<le> m'" and "e < e'"
  shows "mag m e < mag m' e'"
proof -
  have "mag m e < mag (MIN_MANTISSA * 10 ^ 1) e" using assms(1) by (intro mag_less) (simp add: iou_consts)
  also have "\<dots> = mag MIN_MANTISSA (e + int 1)" by (rule mag_shift_up)
  also have "\<dots> \<le> mag MIN_MANTISSA e'" using assms(3) by (intro mag_exponent_mono) simp
  also have "\<dots> \<le> mag m' e'" by (rule mag_mono [OF assms(2)])
  finally show ?thesis .
qed

lemma mag_unique:
  assumes "MIN_MANTISSA \<le> m" and "m \<le> MAX_MANTISSA" and "MIN_MANTISSA \<le> m'" and "m' \<le> MAX_MANTISSA" and "mag m e = mag m' e'"
  shows "m = m' \<and> e = e'"
proof -
  have e: "e = e'" using mag_apart [of m m' e e'] mag_apart [of m' m e' e] assms by fastforce
  then show ?thesis using mag_less [of m m' e] mag_less [of m' m e] assms(5) by (cases m m' rule: linorder_cases) auto
qed

lemma mag_compare:
  assumes "iou_wf a" and "iou_wf b" and "mantissa a \<noteq> 0" and "mantissa b \<noteq> 0"
  shows "(if exponent a \<noteq> exponent b then compare (exponent a) (exponent b) else compare (mantissa a) (mantissa b))
    = compare (mag (mantissa a) (exponent a)) (mag (mantissa b) (exponent b))"
proof -
  have r: "MIN_MANTISSA \<le> mantissa a" "mantissa a \<le> MAX_MANTISSA" "MIN_MANTISSA \<le> mantissa b" "mantissa b \<le> MAX_MANTISSA"
    using assms by (auto simp: iou_wf_def)
  consider "exponent a < exponent b" | "exponent b < exponent a" | (eq) "exponent a = exponent b" by linarith
  then show ?thesis
  proof cases
    case eq
    then show ?thesis
      using mag_less [of "mantissa a" "mantissa b" "exponent a"] mag_less [of "mantissa b" "mantissa a" "exponent a"]
      by (cases "mantissa a" "mantissa b" rule: linorder_cases) (auto simp: compare_def)
  qed (use mag_exponent_less [OF r(2,3)] mag_exponent_less [OF r(4,1)] in \<open>fastforce simp: compare_def\<close>)+
qed

text \<open>C32: The order of well-formed amounts is the order of the numbers they stand for, and equality of the
  fields is equality of the numbers.\<close>

theorem iou_order_is_numeric:
  assumes "iou_wf a" and "iou_wf b"
  shows "iou_cmp a b = compare (iou_value a) (iou_value b) \<and> (iou_eq a b \<longleftrightarrow> iou_value a = iou_value b)"
proof -
  have cmp: "iou_cmp a b = compare (iou_value a) (iou_value b)"
  proof (cases "mantissa a = 0 \<or> mantissa b = 0")
    case True
    then show ?thesis
      using iou_value_sign [of a] iou_value_sign [of b] iou_value_zero [of a] iou_value_zero [of b]
      by (auto simp: iou_cmp_def iou_is_zero_def compare_def)
  next
    case False
    note m = mag_compare [OF assms] and s = iou_value_sign [of a] iou_value_sign [of b]
    show ?thesis
    proof (cases "negative a = negative b")
      case True
      have "reverse (compare x y) = compare (- x) (- y)" for x y :: rat by (auto simp: compare_def)
      then show ?thesis using False True m by (simp add: iou_cmp_def iou_is_zero_def iou_value_def Let_def)
    next
      case neg: False
      then show ?thesis using False s by (auto simp: iou_cmp_def iou_is_zero_def compare_def)
    qed
  qed
  have "iou_eq a b \<longleftrightarrow> iou_cmp a b = Equal"
  proof -
    have eqs: "compare x y = Equal \<longleftrightarrow> x = y" "compare x y \<noteq> Equal \<Longrightarrow> reverse (compare x y) \<noteq> Equal" for x y :: "'x :: linorder"
      by (auto simp: compare_def)
    have rev: "reverse c = Equal \<longleftrightarrow> c = Equal" for c by (cases c) auto
    show ?thesis by (auto simp: iou_eq_def iou_cmp_def Let_def rev eqs iou_is_zero_def)
  qed
  then show ?thesis using cmp by (auto simp: compare_def split: if_splits)
qed

theorem iou_order_is_numeric_witness:
  "iou_cmp iou_ZERO iou_MIN_POSITIVE = compare (iou_value iou_ZERO) (iou_value iou_MIN_POSITIVE)"
  using iou_order_is_numeric [of iou_ZERO iou_MIN_POSITIVE]
  by (simp add: iou_wf_def iou_ZERO_def iou_MIN_POSITIVE_def iou_consts)

lemma iou_negate_value: "iou_value (iou_negate a) = - iou_value a"
  by (simp add: iou_negate_def iou_value_def)

lemma iou_negate_wf: "iou_wf a \<Longrightarrow> iou_wf (iou_negate a)"
  by (auto simp: iou_negate_def iou_wf_def)

end
