(* ===== verification/Iou_Arithmetic.thy ===== *)
theory Iou_Arithmetic
  imports Iou_Amount
begin

text \<open>
  Accuracy of the arithmetic of issued-currency amounts: every product, quotient and sum of
  canonical amounts is canonical, and is within the stated distance of the exact rational result.
\<close>

subsection \<open>Accuracy of products and quotients\<close>

text \<open>A rounded result of the exact value \<open>x\<close>: to within \<open>u\<close> units of the last place, zero only below
  the smallest positive amount, an overflow only from the largest amount on.\<close>

definition accurate :: "rat \<Rightarrow> iou_amount result \<Rightarrow> rat \<Rightarrow> bool" where
  "accurate u r x \<longleftrightarrow> (case r of Inl err \<Rightarrow> err = Overflow \<and> mag MAX_MANTISSA MAX_EXPONENT \<le> \<bar>x\<bar>
     | Inr c \<Rightarrow> iou_wf c \<and> (if iou_is_zero c then \<bar>x\<bar> < 10 powi (-81)
         else \<bar>iou_value c - x\<bar> \<le> u * 10 powi exponent c))"

lemma settle_accurate:
  assumes "MIN_MANTISSA \<le> q" and "q \<le> MAX_MANTISSA" and "0 \<le> v"
    and "mag q e - v \<le> 10 powi e" and "v - mag q e < 10 powi e" and "\<bar>mag q e - v\<bar> \<le> u * 10 powi e"
    and "q = MIN_MANTISSA \<longrightarrow> mag q e - v \<le> 10 powi (e - 1)"
  shows "accurate u (settle q e neg) (if neg then - v else v)"
proof -
  have q: "mag (Suc q) e = mag q e + 10 powi e" "mag q e = mag (q - 1) e + 10 powi e"
    using assms(1) by (simp_all add: mag_def iou_consts distrib_right of_nat_diff left_diff_distrib)
  consider (big) "MAX_EXPONENT < e" | (small) "e < MIN_EXPONENT" | (fits) "MIN_EXPONENT \<le> e" "e \<le> MAX_EXPONENT" by linarith
  then show ?thesis
  proof cases
    case big
    have "mag MAX_MANTISSA MAX_EXPONENT \<le> v"
    proof (cases "q = MIN_MANTISSA")
      case True
      have "mag MAX_MANTISSA MAX_EXPONENT \<le> mag MAX_MANTISSA (e - 1)" using big by (intro mag_exponent_mono) simp
      also have "\<dots> = mag MIN_MANTISSA e - 10 powi (e - 1)"
        by (simp add: mag_def iou_consts power_int_diff left_diff_distrib [symmetric])
      finally show ?thesis using assms(7) True by simp
    next
      case False
      have "mag MAX_MANTISSA MAX_EXPONENT \<le> mag MIN_MANTISSA (MAX_EXPONENT + 1)"
        by (simp add: mag_def iou_consts MAX_EXPONENT_def power_int_def)
      also have "\<dots> \<le> mag MIN_MANTISSA e" using big by (intro mag_exponent_mono) simp
      also have "\<dots> \<le> mag (q - 1) e" using assms(1) False by (intro mag_mono) simp
      also have "\<dots> \<le> v" using assms(4) q(2) by simp
      finally show ?thesis .
    qed
    then show ?thesis using big by (simp add: accurate_def settle_def)
  next
    case small
    have "v < mag (Suc q) e" using assms(5) q(1) by simp
    also have "\<dots> \<le> mag (10 ^ 16) e" using assms(2) by (intro mag_mono) (simp add: MAX_MANTISSA_def)
    also have "\<dots> \<le> mag (10 ^ 16) (-97)" using small by (intro mag_exponent_mono) (simp add: MIN_EXPONENT_def)
    also have "\<dots> = 10 powi (-81)" by (simp add: mag_def power_int_def power_one_over)
    finally have "\<bar>if neg then - v else v\<bar> < 10 powi (-81)" using assms(3) by simp
    then show ?thesis using small by (simp add: accurate_def settle_def iou_is_zero_def MIN_EXPONENT_def MAX_EXPONENT_def)
        (simp add: iou_ZERO_def)
  next
    case fits
    have "q \<noteq> 0" using assms(1) by (simp add: MIN_MANTISSA_def)
    then show ?thesis
      using fits assms(1,2,6) by (auto simp: accurate_def settle_def iou_is_zero_def iou_value_def iou_wf_def abs_minus_commute)
  qed
qed

lemma accurate_zero: "accurate u (Inr iou_ZERO) 0"
  by (simp add: accurate_def iou_is_zero_def) (simp add: iou_ZERO_def)

text \<open>Cutting a quotient that carries a bias of one to nine.\<close>

lemma biased_cut:
  fixes p t c k :: nat
  assumes "0 < t" and "1 \<le> c" and "c \<le> 9" and "1 \<le> k"
  defines "q \<equiv> (p div t + c) div 10 ^ k"
  shows "q * 10 ^ k * t < p + 10 ^ k * t" and "p < q * 10 ^ k * t + 10 ^ k * t"
proof -
  have ten: "10 \<le> (10 :: nat) ^ k" using assms(4) by (metis One_nat_def self_le_power zero_less_numeral one_le_numeral less_eq_Suc_le)
  have "q * 10 ^ k \<le> p div t + c" unfolding q_def by simp
  then have "q * 10 ^ k * t \<le> (p div t + c) * t" by (rule mult_right_mono) simp
  also have "\<dots> \<le> p + c * t" by (simp add: distrib_right)
  also have "\<dots> < p + 10 ^ k * t" using ten assms(1,3) by simp
  finally show "q * 10 ^ k * t < p + 10 ^ k * t" .
  have "p < (p div t + 1) * t" using assms(1) by (simp add: distrib_right dividend_less_div_times)
  also have "\<dots> \<le> (p div t + c) * t" using assms(2) by (intro mult_right_mono) simp_all
  also have "\<dots> \<le> (10 ^ k + q * 10 ^ k) * t"
    unfolding q_def by (intro mult_right_mono less_imp_le [OF dividend_less_div_times]) simp_all
  finally show "p < q * 10 ^ k * t + 10 ^ k * t" by (simp add: distrib_right add.commute)
qed

text \<open>The same as a statement about magnitudes: \<open>v\<close> is the exact quotient \<open>p / t\<close> in units of \<open>10^e\<close>.\<close>

lemma excess_of_nat:
  fixes p t q k j :: nat
  assumes "0 < t" and "q * 10 ^ k * t \<le> p + 10 ^ j * t"
  shows "mag q (e + int k) - of_nat p / of_nat t * 10 powi e \<le> 10 powi (e + int j)"
proof -
  define x :: rat where "x = of_nat p / of_nat t"
  have t: "(0 :: rat) < of_nat t" using assms(1) by simp
  have "of_nat (q * 10 ^ k * t) \<le> (of_nat (p + 10 ^ j * t) :: rat)" using assms(2) by (simp only: of_nat_le_iff)
  then have "of_nat q * 10 ^ k - x \<le> 10 ^ j" using t by (simp add: x_def field_simps)
  then have "(of_nat q * 10 ^ k - x) * 10 powi e \<le> 10 ^ j * 10 powi e" by (rule mult_right_mono) simp
  then show ?thesis by (simp add: mag_def power_int_add x_def [symmetric] algebra_simps)
qed

lemma close_of_nat:
  fixes p t q k :: nat
  assumes "0 < t" and "q * 10 ^ k * t \<le> p + 10 ^ k * t" and "p < q * 10 ^ k * t + 10 ^ k * t"
  shows "mag q (e + int k) - of_nat p / of_nat t * 10 powi e \<le> 10 powi (e + int k)"
    and "of_nat p / of_nat t * 10 powi e - mag q (e + int k) < 10 powi (e + int k)"
proof -
  show "mag q (e + int k) - of_nat p / of_nat t * 10 powi e \<le> 10 powi (e + int k)"
    by (rule excess_of_nat [OF assms(1,2)])
  define x :: rat where "x = of_nat p / of_nat t"
  have t: "(0 :: rat) < of_nat t" using assms(1) by simp
  have "of_nat p < (of_nat (q * 10 ^ k * t + 10 ^ k * t) :: rat)" using assms(3) by (simp only: of_nat_less_iff)
  then have "x - of_nat q * 10 ^ k < 10 ^ k" using t by (simp add: x_def field_simps)
  then have "(x - of_nat q * 10 ^ k) * 10 powi e < 10 ^ k * 10 powi e" by (rule mult_strict_right_mono) simp
  then show "of_nat p / of_nat t * 10 powi e - mag q (e + int k) < 10 powi (e + int k)"
    by (simp add: mag_def power_int_add x_def [symmetric] algebra_simps)
qed

text \<open>A mantissa that rounding carries up to the smallest one is off by at most a tenth of its unit.\<close>

lemma carry_excess:
  fixes p t q k :: nat
  assumes "0 < t" and "1 \<le> k" and "q * 10 ^ k \<le> p div t + 10 ^ (k - 1)"
  shows "mag q (e + int k) - of_nat p / of_nat t * 10 powi e \<le> 10 powi (e + int k - 1)"
proof -
  have "q * 10 ^ k * t \<le> (p div t + 10 ^ (k - 1)) * t" using assms(3) by (rule mult_right_mono) simp
  also have "\<dots> \<le> p + 10 ^ (k - 1) * t" by (simp add: distrib_right)
  finally have "mag q (e + int k) - of_nat p / of_nat t * 10 powi e \<le> 10 powi (e + int (k - 1))"
    by (rule excess_of_nat [OF assms(1)])
  moreover have "e + int (k - 1) = e + int k - 1" using assms(2) by simp
  ultimately show ?thesis by (simp only:)
qed

lemma ten_steps: "k = 1 \<or> k = 2 \<or> 3 \<le> k \<and> (100 :: nat) \<le> 10 ^ (k - 1)" if "1 \<le> k"
proof -
  have "(10 :: nat) ^ 2 \<le> 10 ^ (k - 1)" if "3 \<le> k" using that by (intro power_increasing) simp_all
  then show ?thesis using that by (cases "3 \<le> k") auto
qed

lemma from_parts_accurate:
  fixes p t c :: nat
  assumes "0 < t" and "1 \<le> c" and "c \<le> 9" and "10 ^ 16 \<le> p div t" and "\<bar>e\<bar> \<le> 1000"
  defines "v \<equiv> of_nat p / of_nat t * 10 powi e :: rat"
  shows "accurate 1 (iou_from_parts (p div t + c) e neg) (if neg then - v else v)"
proof -
  let ?res = "p div t + c"
  let ?k = "digits_over ?res"
  have r: "0 < ?res" "-2147483633 \<le> e" "e \<le> 2147483647" using assms(2,5) by auto
  have full: "MAX_MANTISSA < ?res" using assms(4) by (simp add: MAX_MANTISSA_def)
  obtain m' e' where "canonical ?res e m' e'" and s: "iou_from_parts ?res e neg = settle m' e' neg"
    and q: "m' = ?res div 10 ^ ?k" "e' = e + int ?k"
    using from_parts_spec [OF r, of neg] full by blast
  have k: "1 \<le> ?k" using full by (simp add: digits_over_Suc)
  note cut = biased_cut [OF assms(1-3) k, of p]
  note close = close_of_nat [OF assms(1) less_imp_le [OF cut(1)] cut(2), of e]
  have "MIN_MANTISSA \<le> m'" "m' \<le> MAX_MANTISSA" unfolding q by (rule digits_over_full [OF full], rule digits_over_fits)
  moreover have "mag m' e' - v \<le> 10 powi (e' - 1)" if "m' = MIN_MANTISSA"
    unfolding q(2) v_def
  proof (rule carry_excess [OF assms(1) k])
    have "m' * 10 ^ ?k \<le> ?res" unfolding q by simp
    then show "m' * 10 ^ ?k \<le> p div t + 10 ^ (?k - 1)"
      using ten_steps [OF k] assms(3,4) that by (auto simp: MIN_MANTISSA_def)
  qed
  ultimately show ?thesis unfolding s using close by (intro settle_accurate) (simp_all add: v_def q)
qed

text \<open>The same for the reduction that rounds half to even.\<close>

lemma half_even_close:
  assumes "even d" and "0 < d"
  shows "2 * (half_even m d * d) \<le> 2 * m + d" and "2 * m \<le> 2 * (half_even m d * d) + d"
proof -
  define q where "q = m div d"
  define r where "r = m mod d"
  obtain h where d: "d = 2 * h" using assms(1) by blast
  have m: "m = q * d + r" "r < d" using assms(2) by (simp_all add: q_def r_def)
  have "half_even m d * d = (if h < r \<or> (r = h \<and> odd q) then q * d + d else q * d)"
    unfolding half_even_def q_def [symmetric] r_def [symmetric] Let_def by (simp add: d distrib_right)
  then show "2 * (half_even m d * d) \<le> 2 * m + d" "2 * m \<le> 2 * (half_even m d * d) + d"
    using m d by (auto split: if_splits)
qed

lemma half_even_range: "half_even m d \<le> m div d + 1" "m div d \<le> half_even m d"
  by (simp_all add: half_even_def Let_def)

text \<open>Where the rounded mantissa ends up: a carry into a seventeenth digit costs one more power of ten.\<close>

lemma round_half_even_spec:
  assumes "MAX_MANTISSA < m" and "m < 10 ^ 36" and "\<bar>e\<bar> \<le> 1000"
  obtains q k where "iou_from_parts_round_half_even m e neg = settle q (e + int k) neg"
    and "MIN_MANTISSA \<le> q" and "q \<le> MAX_MANTISSA" and "1 \<le> k"
    and "2 * (q * 10 ^ k) \<le> 2 * m + 10 ^ k" and "2 * m \<le> 2 * (q * 10 ^ k) + 10 ^ k"
    and "q = MIN_MANTISSA \<longrightarrow> 2 * (q * 10 ^ k) \<le> 2 * m + (if k = 1 then 0 else 10 ^ (k - 1))"
proof -
  define j where "j = digits_over m"
  define h where "h = half_even m (10 ^ j)"
  define c where "c = digits_over h"
  have j: "1 \<le> j" "j \<le> 20" using assms(1,2) digits_over_bound [of m 20] by (simp_all add: j_def digits_over_Suc)
  have div: "MIN_MANTISSA \<le> m div 10 ^ j" "m div 10 ^ j \<le> MAX_MANTISSA"
    unfolding j_def by (rule digits_over_full [OF assms(1)], rule digits_over_fits)
  have h: "MIN_MANTISSA \<le> h" "h \<le> 10 ^ 16"
    using half_even_range [of m "10 ^ j"] div by (simp_all add: h_def MAX_MANTISSA_def)
  have even: "even ((10 :: nat) ^ j)" "0 < (10 :: nat) ^ j" using j(1) by simp_all
  note close = half_even_close [OF even, of m, folded h_def]
  consider (fits) "h \<le> MAX_MANTISSA" "c = 0" | (carry) "h = 10 ^ 16" "c = 1"
    using h(2) by (cases "h \<le> MAX_MANTISSA") (auto simp: c_def digits_over_0 digits_over_Suc MAX_MANTISSA_def)
  then have c: "c \<le> 1" "h div 10 ^ c * 10 ^ (j + c) = h * 10 ^ j" "MIN_MANTISSA \<le> h div 10 ^ c" "h div 10 ^ c \<le> MAX_MANTISSA"
    using h(1) by (cases; simp add: MIN_MANTISSA_def MAX_MANTISSA_def)+
  have "trim_carry h (i32 (e + int j)) = (h div 10 ^ c, e + int (j + c))"
    using trim_carry_spec [of "e + int j" h] assms(3) j(2) c(1) by (simp add: i32_id c_def [symmetric])
  then have "iou_from_parts_round_half_even m e neg = iou_from_parts (h div 10 ^ c) (e + int (j + c)) neg"
    using assms(1) c(4) by (simp add: iou_from_parts_round_half_even_def Let_def j_def [symmetric] h_def [symmetric] u64_max_def MAX_MANTISSA_def)
  moreover have "iou_from_parts (h div 10 ^ c) (e + int (j + c)) neg = settle (h div 10 ^ c) (e + int (j + c)) neg"
    using assms(3) j(2) c(1) by (intro from_parts_settle c) auto
  moreover have "(10 :: nat) ^ j \<le> 10 ^ (j + c)" by (rule power_increasing) simp_all
  then have "2 * (h div 10 ^ c * 10 ^ (j + c)) \<le> 2 * m + 10 ^ (j + c)" "2 * m \<le> 2 * (h div 10 ^ c * 10 ^ (j + c)) + 10 ^ (j + c)"
    unfolding c(2) using close by linarith+
  moreover have "2 * (h div 10 ^ c * 10 ^ (j + c)) \<le> 2 * m + (if j + c = 1 then 0 else 10 ^ (j + c - 1))"
    if "h div 10 ^ c = MIN_MANTISSA"
  proof (cases "c = 0")
    case True
    then have "h = m div 10 ^ j" using that div(1) half_even_range(2) [of m "10 ^ j"] by (simp add: h_def)
    then have "h * 10 ^ j \<le> m" by simp
    then show ?thesis unfolding c(2) by simp
  next
    case False
    then have "c = 1" using c(1) by simp
    then show ?thesis unfolding c(2) using close(1) j(1) by simp
  qed
  ultimately show thesis using c(3,4) j(1) by (intro that [of "h div 10 ^ c" "j + c"]) simp_all
qed

lemma round_half_even_accurate:
  fixes p t :: nat
  assumes "0 < t" and "10 ^ 16 \<le> p div t" and "p div t + 5 < 10 ^ 36" and "\<bar>e\<bar> \<le> 1000"
  defines "v \<equiv> of_nat p / of_nat t * 10 powi e :: rat"
  shows "accurate 1 (iou_from_parts_round_half_even (p div t + 5) e neg) (if neg then - v else v)"
proof -
  let ?res = "p div t + 5"
  obtain q k where s: "iou_from_parts_round_half_even ?res e neg = settle q (e + int k) neg"
    and q: "MIN_MANTISSA \<le> q" "q \<le> MAX_MANTISSA" and k: "1 \<le> k"
    and close: "2 * (q * 10 ^ k) \<le> 2 * ?res + 10 ^ k" "2 * ?res \<le> 2 * (q * 10 ^ k) + 10 ^ k"
    and carry: "q = MIN_MANTISSA \<longrightarrow> 2 * (q * 10 ^ k) \<le> 2 * ?res + (if k = 1 then 0 else 10 ^ (k - 1))"
    by (rule round_half_even_spec [OF _ assms(3,4)]) (use assms(2) in \<open>simp add: MAX_MANTISSA_def\<close>)
  have "(10 :: nat) ^ 1 \<le> 10 ^ k" using k by (intro power_increasing) simp_all
  then have "q * 10 ^ k \<le> p div t + 10 ^ k" "p div t + 1 \<le> q * 10 ^ k + 10 ^ k" using close by simp_all
  then have "q * 10 ^ k * t \<le> (p div t + 10 ^ k) * t" "(p div t + 1) * t \<le> (q * 10 ^ k + 10 ^ k) * t"
    by (intro mult_right_mono; simp)+
  moreover have "p div t * t \<le> p" by simp
  moreover have "p < t + p div t * t" using assms(1) by (rule dividend_less_div_times)
  ultimately have "q * 10 ^ k * t \<le> p + 10 ^ k * t" "p < q * 10 ^ k * t + 10 ^ k * t"
    unfolding distrib_right by linarith+
  note close = close_of_nat [OF assms(1) this, of e]
  have "mag q (e + int k) - v \<le> 10 powi (e + int k - 1)" if "q = MIN_MANTISSA"
    unfolding v_def
  proof (rule carry_excess [OF assms(1) k])
    show "q * 10 ^ k \<le> p div t + 10 ^ (k - 1)"
      using ten_steps [OF k] carry that assms(2) that by (auto simp: MIN_MANTISSA_def)
  qed
  then show ?thesis unfolding s using close by (intro settle_accurate [OF q]) (simp_all add: v_def)
qed

lemma iou_wf_cases:
  assumes "iou_wf a"
  obtains (zero) "iou_is_zero a" "a = iou_ZERO" "iou_value a = 0"
    | (full) "\<not> iou_is_zero a" "MIN_MANTISSA \<le> mantissa a" "mantissa a \<le> MAX_MANTISSA"
        "scale_up (mantissa a) (exponent a) = (mantissa a, exponent a)" "-96 \<le> exponent a" "exponent a \<le> 80"
proof (cases "iou_is_zero a")
  case True
  then show thesis using assms by (intro zero) (auto simp: iou_wf_def iou_is_zero_def iou_value_zero iou_ZERO_def iou_consts)
next
  case False
  then show thesis
    using assms by (intro full) (auto simp: iou_wf_def iou_is_zero_def scale_up.simps [of "mantissa a"] MIN_EXPONENT_def MAX_EXPONENT_def)
qed

lemma product_range:
  assumes "MIN_MANTISSA \<le> m" "m \<le> MAX_MANTISSA" "MIN_MANTISSA \<le> n" "n \<le> MAX_MANTISSA"
  shows "10 ^ 16 \<le> m * n div TEN_TO_14" and "m * n div TEN_TO_14 < 10 ^ 18"
proof -
  have "MIN_MANTISSA * MIN_MANTISSA \<le> m * n" "m * n \<le> MAX_MANTISSA * MAX_MANTISSA" using assms by (simp_all add: mult_le_mono)
  then show "10 ^ 16 \<le> m * n div TEN_TO_14" "m * n div TEN_TO_14 < 10 ^ 18"
    by (simp_all add: less_eq_div_iff_mult_less_eq div_less_iff_less_mult iou_consts TEN_TO_14_def)
qed

lemma value_product:
  "iou_value a * iou_value b = (let v = of_nat (mantissa a * mantissa b) / of_nat TEN_TO_14 * 10 powi (exponent a + exponent b + 14)
     in if negative a \<noteq> negative b then - v else v)"
  by (auto simp: iou_value_def mag_def Let_def TEN_TO_14_def power_int_add)

lemma multiply_accurate:
  assumes "iou_wf a" and "iou_wf b"
  shows "accurate 1 (iou_multiply a b) (iou_value a * iou_value b)"
proof (cases "iou_is_zero a \<or> iou_is_zero b")
  case True
  then show ?thesis using assms by (auto elim!: iou_wf_cases simp: iou_multiply_def accurate_zero iou_is_zero_def iou_value_zero)
next
  case False
  let ?p = "mantissa a * mantissa b" and ?e = "exponent a + exponent b + 14"
  define v :: rat where "v = of_nat ?p / of_nat TEN_TO_14 * 10 powi ?e"
  have a: "MIN_MANTISSA \<le> mantissa a" "mantissa a \<le> MAX_MANTISSA" "scale_up (mantissa a) (exponent a) = (mantissa a, exponent a)"
    "-96 \<le> exponent a" "exponent a \<le> 80" using assms(1) False by (auto elim: iou_wf_cases)
  have b: "MIN_MANTISSA \<le> mantissa b" "mantissa b \<le> MAX_MANTISSA" "scale_up (mantissa b) (exponent b) = (mantissa b, exponent b)"
    "-96 \<le> exponent b" "exponent b \<le> 80" using assms(2) False by (auto elim: iou_wf_cases)
  note range = product_range [OF a(1,2) b(1,2)]
  have x: "iou_value a * iou_value b = (if negative a \<noteq> negative b then - v else v)"
    by (simp add: value_product Let_def v_def)
  have e: "\<bar>?e\<bar> \<le> 1000" "i32 ?e = ?e" using a(4,5) b(4,5) by (auto intro: i32_id)
  have "accurate 1 (iou_from_parts (?p div TEN_TO_14 + 7) ?e (negative a \<noteq> negative b)) (iou_value a * iou_value b)"
    unfolding x v_def using range(1) e(1) by (intro from_parts_accurate) (simp_all add: TEN_TO_14_def MAX_MANTISSA_def)
  moreover have "mag MAX_MANTISSA MAX_EXPONENT \<le> \<bar>iou_value a * iou_value b\<bar>" if "96 < ?e"
  proof -
    have "of_nat (10 ^ 16 * TEN_TO_14) \<le> (of_nat ?p :: rat)" using range(1)
      by (simp only: of_nat_le_iff less_eq_div_iff_mult_less_eq [of TEN_TO_14, simplified TEN_TO_14_def, simplified] TEN_TO_14_def)
    then have "10 ^ 16 \<le> of_nat ?p / (of_nat TEN_TO_14 :: rat)" by (simp add: TEN_TO_14_def)
    moreover have "(10 :: rat) powi 97 \<le> 10 powi ?e" using that by (intro power_int_increasing) simp_all
    ultimately have "10 ^ 16 * 10 powi 97 \<le> v" unfolding v_def by (intro mult_mono) simp_all
    then show ?thesis unfolding x by (simp add: power_int_def mag_def iou_consts MAX_EXPONENT_def)
  qed
  ultimately show ?thesis
    using False range(2) by (simp add: iou_multiply_def a(3) b(3) Let_def e(2) u64_max_def MAX_EXPONENT_def) (simp add: accurate_def MAX_EXPONENT_def)
qed

text \<open>C34: The product of two amounts is within one unit of the last place of the exact product, it is
  zero only if the exact product is below the smallest positive amount, and it is an overflow only if
  the exact product is at least the largest amount.\<close>

theorem iou_multiply_accurate:
  assumes "iou_wf a" and "iou_wf b"
  shows "accurate 1 (iou_multiply a b) (iou_value a * iou_value b)"
  by (rule multiply_accurate [OF assms])

definition two_fifths :: iou_amount where
  "two_fifths = \<lparr>mantissa = 4 * 10 ^ 15, exponent = -16, negative = False\<rparr>"

definition minus_seven :: iou_amount where
  "minus_seven = \<lparr>mantissa = 7 * 10 ^ 15, exponent = -15, negative = True\<rparr>"

lemma example_amounts_wf [simp]: "iou_wf two_fifths" "iou_wf minus_seven"
  by (simp_all add: iou_wf_def two_fifths_def minus_seven_def iou_consts)

theorem iou_multiply_accurate_witness:
  "iou_wf two_fifths \<and> iou_wf minus_seven
     \<and> accurate 1 (iou_multiply two_fifths minus_seven) (iou_value two_fifths * iou_value minus_seven)"
  using iou_multiply_accurate [of two_fifths minus_seven] by simp

lemma quotient_range:
  assumes "MIN_MANTISSA \<le> m" "m \<le> MAX_MANTISSA" "MIN_MANTISSA \<le> n" "n \<le> MAX_MANTISSA"
  shows "10 ^ 16 \<le> m * TEN_TO_17 div n" and "m * TEN_TO_17 div n < 10 ^ 18"
proof -
  have "0 < n" "10 ^ 16 * n \<le> m * TEN_TO_17" "m * TEN_TO_17 < 10 ^ 18 * n" using assms by (simp_all add: iou_consts TEN_TO_17_def)
  then show "10 ^ 16 \<le> m * TEN_TO_17 div n" "m * TEN_TO_17 div n < 10 ^ 18"
    by (simp_all add: less_eq_div_iff_mult_less_eq div_less_iff_less_mult)
qed

lemma value_quotient:
  assumes "\<not> iou_is_zero b"
  shows "iou_value a / iou_value b = (let v = of_nat (mantissa a * TEN_TO_17) / of_nat (mantissa b) * 10 powi (exponent a - exponent b - 17)
     in if negative a \<noteq> negative b then - v else v)"
  using assms by (auto simp: iou_value_def mag_def Let_def TEN_TO_17_def power_int_diff iou_is_zero_def)

lemma divide_canonical_accurate:
  assumes "iou_wf a" and "iou_wf b" and "\<not> iou_is_zero b"
  shows "accurate 1 (iou_divide_canonical a b round_even) (iou_value a / iou_value b)"
proof (cases "iou_is_zero a")
  case True
  then show ?thesis using assms by (auto simp: iou_divide_canonical_def accurate_zero iou_is_zero_def iou_value_zero)
next
  case False
  let ?p = "mantissa a * TEN_TO_17" and ?t = "mantissa b" and ?e = "exponent a - exponent b - 17"
  define v :: rat where "v = of_nat ?p / of_nat ?t * 10 powi ?e"
  have a: "MIN_MANTISSA \<le> mantissa a" "mantissa a \<le> MAX_MANTISSA" "scale_up (mantissa a) (exponent a) = (mantissa a, exponent a)"
    "-96 \<le> exponent a" "exponent a \<le> 80" using assms(1) False by (auto elim: iou_wf_cases)
  have b: "MIN_MANTISSA \<le> ?t" "?t \<le> MAX_MANTISSA" "scale_up ?t (exponent b) = (?t, exponent b)"
    "-96 \<le> exponent b" "exponent b \<le> 80" using assms(2,3) by (auto elim: iou_wf_cases)
  note range = quotient_range [OF a(1,2) b(1,2)]
  have t: "0 < ?t" using b(1) by (simp add: MIN_MANTISSA_def)
  have x: "iou_value a / iou_value b = (if negative a \<noteq> negative b then - v else v)"
    using assms(3) by (simp add: value_quotient Let_def v_def)
  have e: "\<bar>?e\<bar> \<le> 1000" "i32 (i32 (exponent a - exponent b) - 17) = ?e" using a(4,5) b(4,5) by (auto simp: i32_id)
  have res: "MAX_MANTISSA < ?p div ?t + 5" "?p div ?t + 5 < 10 ^ 36" "\<not> u64_max < ?p div ?t + 5"
    using range by (simp_all add: MAX_MANTISSA_def u64_max_def)
  have "accurate 1 (iou_from_parts (?p div ?t + 5) ?e (negative a \<noteq> negative b)) (iou_value a / iou_value b)"
    unfolding x v_def using t range(1) e(1) by (intro from_parts_accurate) simp_all
  moreover have "accurate 1 (iou_from_parts_round_half_even (?p div ?t + 5) ?e (negative a \<noteq> negative b)) (iou_value a / iou_value b)"
    unfolding x v_def using t range(1) res(2) e(1) by (intro round_half_even_accurate)
  ultimately show ?thesis
    using False assms(3) res(3) by (simp add: iou_divide_canonical_def a(3) b(3) Let_def e(2))
qed

text \<open>The quotient, truncated or rounded half to even, is within one unit of the last place of the exact quotient.\<close>

theorem iou_divide_accurate:
  assumes "iou_wf a" and "iou_wf b"
  shows "if iou_is_zero b then iou_divide a b = Inl DivisionByZero \<and> iou_divide_round_even a b = Inl DivisionByZero
    else accurate 1 (iou_divide a b) (iou_value a / iou_value b) \<and> accurate 1 (iou_divide_round_even a b) (iou_value a / iou_value b)"
  using divide_canonical_accurate [OF assms]
  by (simp add: iou_divide_def iou_divide_round_even_def) (simp add: iou_divide_canonical_def)

theorem iou_divide_accurate_witness:
  "\<not> iou_is_zero minus_seven \<and> accurate 1 (iou_divide two_fifths minus_seven) (iou_value two_fifths / iou_value minus_seven)
     \<and> accurate 1 (iou_divide_round_even two_fifths minus_seven) (iou_value two_fifths / iou_value minus_seven)"
proof -
  have "\<not> iou_is_zero minus_seven" by (simp add: iou_is_zero_def minus_seven_def)
  then show ?thesis using iou_divide_accurate [of two_fifths minus_seven] by simp
qed

subsection \<open>Accuracy of sums\<close>

lemma signed_value: "of_int (signed neg m) * 10 powi e = (if neg then - mag m e else mag m e)"
  by (simp add: signed_def mag_def)

lemma abs_value: "\<bar>iou_value a\<bar> = mag (mantissa a) (exponent a)"
  by (simp add: iou_value_def)

lemma from_parts_exact:
  assumes "0 < m" and "m \<le> MAX_MANTISSA" and "\<bar>e\<bar> \<le> 1000" and "0 \<le> u"
  shows "accurate u (iou_from_parts m e neg) (if neg then - mag m e else mag m e)"
proof -
  have e: "-2147483633 \<le> e" "e \<le> 2147483647" using assms(3) by auto
  obtain m' e' where can: "canonical m e m' e'" and res: "iou_from_parts m e neg = settle m' e' neg"
    using from_parts_spec [OF assms(1) e, of neg] by blast
  then have "MIN_MANTISSA \<le> m'" "m' \<le> MAX_MANTISSA" "mag m e = mag m' e'" using assms(2) by (auto simp: canonical_def)
  then show ?thesis unfolding res using assms(4) by (intro settle_accurate) simp_all
qed

lemma round_half_even_nearest:
  assumes "MAX_MANTISSA < m" and "m < 10 ^ 36" and "\<bar>e\<bar> \<le> 1000"
  shows "accurate (1 / 2) (iou_from_parts_round_half_even m e neg) (if neg then - mag m e else mag m e)"
proof -
  obtain q k where s: "iou_from_parts_round_half_even m e neg = settle q (e + int k) neg"
    and q: "MIN_MANTISSA \<le> q" "q \<le> MAX_MANTISSA"
    and close: "2 * (q * 10 ^ k) \<le> 2 * m + 10 ^ k" "2 * m \<le> 2 * (q * 10 ^ k) + 10 ^ k" and k: "1 \<le> k"
    and carry: "q = MIN_MANTISSA \<longrightarrow> 2 * (q * 10 ^ k) \<le> 2 * m + (if k = 1 then 0 else 10 ^ (k - 1))"
    by (rule round_half_even_spec [OF assms])
  have "of_nat (2 * (q * 10 ^ k)) \<le> (of_nat (2 * m + 10 ^ k) :: rat)" "of_nat (2 * m) \<le> (of_nat (2 * (q * 10 ^ k) + 10 ^ k) :: rat)"
    using close by (simp_all only: of_nat_le_iff)
  then have "\<bar>of_nat q * 10 ^ k - of_nat m\<bar> \<le> (1 / 2 * 10 ^ k :: rat)" by (intro abs_leI; simp)
  then have "\<bar>of_nat q * 10 ^ k - of_nat m\<bar> * 10 powi e \<le> (1 / 2 * 10 ^ k :: rat) * 10 powi e" by (rule mult_right_mono) simp
  moreover have "(of_nat q * 10 ^ k - of_nat m) * (10 :: rat) powi e = mag q (e + int k) - mag m e"
    by (simp add: mag_def power_int_add algebra_simps)
  then have "\<bar>of_nat q * 10 ^ k - of_nat m\<bar> * (10 :: rat) powi e = \<bar>mag q (e + int k) - mag m e\<bar>"
    by (metis abs_mult abs_of_pos zero_less_power_int zero_less_numeral)
  ultimately have half: "\<bar>mag q (e + int k) - mag m e\<bar> \<le> 1 / 2 * 10 powi (e + int k)"
    by (simp add: power_int_add mult.commute [of "10 powi e"])
  have "(0 :: rat) < 10 powi (e + int k)" by simp
  then have "mag q (e + int k) - mag m e \<le> 10 powi (e + int k)" "mag m e - mag q (e + int k) < 10 powi (e + int k)"
    using half [unfolded abs_le_iff] by linarith+
  moreover have "mag q (e + int k) - mag m e \<le> 10 powi (e + int k - 1)" if "q = MIN_MANTISSA"
    using carry_excess [OF _ k, of 1 q m e] carry that by (simp add: mag_def split: if_splits)
  ultimately show ?thesis unfolding s using half by (intro settle_accurate [OF q]) simp_all
qed

text \<open>The reduction written out in \<open>add_round\<close> is the one of \<open>from_parts_round_half_even\<close>.\<close>

lemma add_round_reduces:
  assumes "MAX_MANTISSA < m" and "m < 10 ^ 36" and "\<bar>e\<bar> \<le> 1000"
    and k_def: "k = digits_over m" and h_def: "h = half_even m (10 ^ k)"
  shows "(case if MAX_MANTISSA < h then (h div 10, e + int k + 1) else (h, e + int k) of (m', e') \<Rightarrow> iou_from_parts (wrap64 m') e' neg)
    = iou_from_parts_round_half_even m e neg"
proof -
  have k: "k \<le> 20" using assms(2) digits_over_bound [of m 20] by (simp add: k_def)
  have h: "h \<le> 10 ^ 16"
    using half_even_range(1) [of m "10 ^ k"] digits_over_fits [of m] by (simp add: h_def k_def MAX_MANTISSA_def)
  have i: "i32 (e + int k) = e + int k" "i32 (e + int k + 1) = e + int k + 1" using assms(3) k by (auto simp: i32_id)
  have "trim_carry h (i32 (e + int k)) = (if MAX_MANTISSA < h then (h div 10, e + int k + 1) else (h, e + int k))"
    using h i by (auto simp: trim_carry.simps [of h] trim_carry.simps [of "h div 10"] MAX_MANTISSA_def)
  then show ?thesis
    using assms(1) h by (simp add: iou_from_parts_round_half_even_def k_def [symmetric] h_def [symmetric] Let_def)
      (auto simp: u64_max_def MAX_MANTISSA_def wrap64_id)
qed

lemma accurate_self: "iou_wf a \<Longrightarrow> 0 \<le> u \<Longrightarrow> accurate u (Inr a) (iou_value a)"
  by (simp add: accurate_def iou_is_zero_def iou_value_zero)

lemma far_term:
  assumes "m \<le> MAX_MANTISSA" and "lo + 20 \<le> hi"
  shows "mag m lo \<le> 1 / 2 * 10 powi hi"
proof -
  have "mag m lo \<le> mag (10 ^ 16) lo" using assms(1) by (intro mag_mono) (simp add: MAX_MANTISSA_def)
  also have "\<dots> \<le> mag (10 ^ 16) (hi - 20)" using assms(2) by (intro mag_exponent_mono) simp
  also have "\<dots> \<le> 1 / 2 * 10 powi hi" by (simp add: mag_def power_int_diff)
  finally show ?thesis .
qed

text \<open>Two terms written at the lower exponent: the exact sum as one signed mantissa.\<close>

lemma value_at_lower:
  assumes "lo \<le> exponent a"
  shows "iou_value a = of_int (signed (negative a) (mantissa a * 10 ^ nat (exponent a - lo))) * 10 powi lo"
  using mag_shift_up [of "mantissa a" "nat (exponent a - lo)" lo] assms by (simp add: signed_value iou_value_def)

lemma signed_abs: "\<bar>signed neg m\<bar> = int m"
  by (simp add: signed_def)

lemma total_bound: "\<bar>z\<bar> \<le> int x + int y \<Longrightarrow> x < 10 ^ 35 \<Longrightarrow> y < 10 ^ 35 \<Longrightarrow> nat \<bar>z\<bar> < 10 ^ 36"
  by (simp add: nat_less_iff)

lemma aligned_bound:
  assumes "m \<le> MAX_MANTISSA" and "d \<le> 19"
  shows "m * 10 ^ nat d < 10 ^ 35"
proof -
  have "(10 :: nat) ^ nat d \<le> 10 ^ 19" using assms(2) by (intro power_increasing) simp_all
  then have "m * 10 ^ nat d \<le> MAX_MANTISSA * 10 ^ 19" using assms(1) by (rule mult_le_mono [rotated])
  then show ?thesis by (simp add: MAX_MANTISSA_def)
qed

lemma add_round_nearest:
  assumes "iou_wf a" and "iou_wf b"
  shows "accurate (1 / 2) (iou_add_round a b) (iou_value a + iou_value b)"
proof (cases "iou_is_zero a \<or> iou_is_zero b")
  case True
  then show ?thesis using accurate_self [OF assms(1)] accurate_self [OF assms(2)]
    by (auto simp: iou_add_round_def iou_is_zero_def iou_value_zero)
next
  case False
  let ?lo = "min (exponent a) (exponent b)" and ?hi = "max (exponent a) (exponent b)"
  have a: "mantissa a \<le> MAX_MANTISSA" "-96 \<le> exponent a" "exponent a \<le> 80" "iou_wf a" using assms(1) False by (auto elim: iou_wf_cases)
  have b: "mantissa b \<le> MAX_MANTISSA" "-96 \<le> exponent b" "exponent b \<le> 80" "iou_wf b" using assms(2) False by (auto elim: iou_wf_cases)
  show ?thesis
  proof (cases "19 < ?hi - ?lo")
    case True
    consider "exponent a = ?hi" "exponent b + 20 \<le> exponent a" | "exponent a \<noteq> ?hi" "exponent a + 20 \<le> exponent b" using True by linarith
    then show ?thesis
      using True False a b far_term [of "mantissa b" "exponent b" "exponent a"] far_term [of "mantissa a" "exponent a" "exponent b"]
      by cases (simp_all add: iou_add_round_def Let_def accurate_def abs_value)
  next
    case near: False
    define total where "total = signed (negative a) (mantissa a * 10 ^ nat (exponent a - ?lo)) + signed (negative b) (mantissa b * 10 ^ nat (exponent b - ?lo))"
    define m where "m = nat \<bar>total\<bar>"
    have "iou_value a + iou_value b = of_int total * 10 powi ?lo"
      unfolding total_def of_int_add distrib_right by (intro arg_cong2 [where f = "(+)"] value_at_lower) simp_all
    then have x: "iou_value a + iou_value b = (if total < 0 then - mag m ?lo else mag m ?lo)" by (simp add: m_def mag_def)
    have tot: "\<bar>total\<bar> \<le> int (mantissa a * 10 ^ nat (exponent a - ?lo)) + int (mantissa b * 10 ^ nat (exponent b - ?lo))"
      unfolding total_def using abs_triangle_ineq signed_abs by metis
    have d: "exponent a - ?lo \<le> 19" "exponent b - ?lo \<le> 19" using near by linarith+
    have "mantissa a * 10 ^ nat (exponent a - ?lo) < 10 ^ 35" "mantissa b * 10 ^ nat (exponent b - ?lo) < 10 ^ 35"
      by (rule aligned_bound [OF a(1) d(1)], rule aligned_bound [OF b(1) d(2)])
    with tot have m: "m < 10 ^ 36" unfolding m_def by (rule total_bound)
    have lo: "\<bar>?lo\<bar> \<le> 1000" using a(2,3) b(2,3) by auto
    have eq: "iou_add_round a b = (if total = 0 then Inr iou_ZERO
        else if MAX_MANTISSA < m then iou_from_parts_round_half_even m ?lo (total < 0) else iou_from_parts m ?lo (total < 0))"
      using False near add_round_reduces [OF _ m lo refl refl, of "total < 0"] m
      by (auto simp: iou_add_round_def Let_def total_def [symmetric] m_def [symmetric] wrap64_id u64_max_def MAX_MANTISSA_def not_less)
    have "total = 0 \<longleftrightarrow> m = 0" by (simp add: m_def)
    then show ?thesis unfolding eq x
      using round_half_even_nearest [OF _ m lo, of "total < 0"] from_parts_exact [of m ?lo "1 / 2" "total < 0"] lo
      by (cases "total < 0"; cases "MAX_MANTISSA < m") (simp_all add: accurate_zero not_less)
  qed
qed

text \<open>Sums are rounded to the nearest amount: within half a unit of the last place of the exact sum.\<close>

theorem iou_add_round_nearest:
  assumes "iou_wf a" and "iou_wf b"
  shows "accurate (1 / 2) (iou_add_round a b) (iou_value a + iou_value b)"
  by (rule add_round_nearest [OF assms])

theorem iou_add_round_nearest_witness:
  "iou_wf two_fifths \<and> iou_wf minus_seven
     \<and> accurate (1 / 2) (iou_add_round two_fifths minus_seven) (iou_value two_fifths + iou_value minus_seven)"
  using iou_add_round_nearest [of two_fifths minus_seven] by simp

text \<open>The aligned mantissa of the truncating sum is at the larger exponent and cut by less than one.\<close>

lemma align_cut: "0 < m \<Longrightarrow> align m e (e + int n) = (if m div 10 ^ n = 0 then None else Some (m div 10 ^ n))"
proof (induction n arbitrary: m e)
  case (Suc n)
  have "align m e (e + int (Suc n)) = (if m div 10 = 0 then None else align (m div 10) (e + 1) (e + 1 + int n))"
    by (simp add: align.simps [of m] algebra_simps)
  also have "\<dots> = (if m div 10 ^ Suc n = 0 then None else Some (m div 10 ^ Suc n))"
    using Suc.IH [of "m div 10" "e + 1"] by (cases "m div 10 = 0") (simp_all add: div_mult2_eq)
  finally show ?case .
qed (simp add: align.simps)

lemma align_close:
  assumes "0 < m"
  shows "case align m e target of None \<Rightarrow> e < target \<and> mag m e < 10 powi target
    | Some q \<Rightarrow> mag q (max e target) \<le> mag m e \<and> mag m e < mag (Suc q) (max e target) \<and> (target \<le> e \<longrightarrow> q = m)"
proof (cases "e < target")
  case True
  define n where "n = nat (target - e)"
  have n: "target = e + int n" "max e target = e + int n" "0 < n" using True by (simp_all add: n_def)
  have "mag (m div 10 ^ n) (e + int n) \<le> mag m e \<and> mag m e < mag (Suc (m div 10 ^ n)) (e + int n)"
    by (simp add: mag_cut)
  moreover have "mag (Suc 0) (e + int n) = 10 powi (e + int n)" by (simp add: mag_def)
  ultimately show ?thesis using n(3) by (auto simp: n(1,2) align_cut [OF assms])
next
  case False
  then show ?thesis by (simp add: align.simps [of m] mag_less)
qed

definition sum_close :: "int \<Rightarrow> iou_amount result \<Rightarrow> rat \<Rightarrow> bool" where
  "sum_close h r x \<longleftrightarrow> (case r of Inl err \<Rightarrow> err = Overflow \<and> mag MAX_MANTISSA MAX_EXPONENT < \<bar>x\<bar>
     | Inr c \<Rightarrow> iou_wf c \<and> \<bar>iou_value c - x\<bar> < 10 powi (if iou_is_zero c then -81 else exponent c) + 10 powi h)"

lemma sum_close_Inr:
  assumes "iou_wf c" and "\<bar>iou_value c - x\<bar> < 10 powi h"
  shows "sum_close h (Inr c) x"
proof -
  have "(0 :: rat) < 10 powi (if iou_is_zero c then -81 else exponent c)" by simp
  with assms(2) have "\<bar>iou_value c - x\<bar> < 10 powi (if iou_is_zero c then -81 else exponent c) + 10 powi h" by linarith
  then show ?thesis using assms(1) by (simp add: sum_close_def)
qed

lemma from_parts_near:
  assumes "0 < m" and "\<bar>e\<bar> \<le> 1000" and "h \<le> 80" and near: "\<bar>(if neg then - mag m e else mag m e) - x\<bar> < 10 powi h"
  shows "sum_close h (iou_from_parts m e neg) x"
proof -
  have e: "-2147483633 \<le> e" "e \<le> 2147483647" using assms(2) by auto
  obtain m' e' where can: "canonical m e m' e'" and res: "iou_from_parts m e neg = settle m' e' neg"
    using from_parts_spec [OF assms(1) e, of neg] by blast
  note spec = settle_correct [OF can, of neg, folded res]
  have h: "(10 :: rat) powi h \<le> 10 powi 80" using assms(3) by (intro power_int_increasing) simp_all
  have min: "mag MIN_MANTISSA MIN_EXPONENT = 10 powi (-81)" by (simp add: mag_def iou_consts power_int_def power_one_over)
  show ?thesis
  proof (cases "iou_from_parts m e neg")
    case (Inl err)
    have "mag MAX_MANTISSA MAX_EXPONENT = (10 :: rat) powi 96 - 10 powi 80"
      by (simp add: mag_def iou_consts MAX_EXPONENT_def power_int_def)
    then show ?thesis using spec near h Inl by (auto simp: sum_close_def split: if_splits)
  next
    case (Inr c)
    have wf: "iou_wf c" using spec Inr by simp
    have "\<bar>iou_value c - (if neg then - mag m e else mag m e)\<bar> < 10 powi (if iou_is_zero c then -81 else exponent c)"
    proof (cases "iou_is_zero c")
      case True
      then show ?thesis using spec Inr min by (simp add: iou_is_zero_def iou_value_zero)
    next
      case False
      then have "negative c = neg" "mag (mantissa c) (exponent c) \<le> mag m e" "mag m e < mag (mantissa c) (exponent c) + 10 powi exponent c"
        using spec Inr by (simp_all add: abs_value)
      then show ?thesis using False by (simp add: iou_value_def abs_less_iff)
    qed
    then have "\<bar>iou_value c - x\<bar> < 10 powi (if iou_is_zero c then -81 else exponent c) + 10 powi h" using near by linarith
    with wf show ?thesis by (simp add: sum_close_def Inr)
  qed
qed

lemma align_le: "align m e t = Some q \<Longrightarrow> q \<le> m"
proof (induction m e t rule: align.induct)
  case (1 m e t)
  then show ?case by (fastforce simp: align.simps [of m] split: if_splits)
qed

lemma align_value:
  assumes "0 < mantissa a" and "align (mantissa a) (exponent a) h = Some q"
  shows "\<bar>of_int (signed (negative a) q) * 10 powi max (exponent a) h - iou_value a\<bar> < 10 powi max (exponent a) h"
    and "h \<le> exponent a \<Longrightarrow> of_int (signed (negative a) q) * 10 powi max (exponent a) h = iou_value a"
proof -
  let ?h = "max (exponent a) h"
  have q: "mag q ?h \<le> mag (mantissa a) (exponent a)" "mag (mantissa a) (exponent a) < mag (Suc q) ?h" "h \<le> exponent a \<Longrightarrow> q = mantissa a"
    using align_close [OF assms(1), of "exponent a" h] assms(2) by simp_all
  have "mag (Suc q) ?h = mag q ?h + 10 powi ?h" by (simp add: mag_def distrib_right)
  then show "\<bar>of_int (signed (negative a) q) * 10 powi ?h - iou_value a\<bar> < 10 powi ?h"
    using q(1,2) by (simp add: signed_value iou_value_def abs_less_iff)
  show "h \<le> exponent a \<Longrightarrow> of_int (signed (negative a) q) * 10 powi ?h = iou_value a"
    using q(3) by (simp add: signed_value iou_value_def)
qed

lemma iou_add_sum_close:
  assumes "iou_wf a" and "iou_wf b"
  shows "sum_close (max (exponent a) (exponent b)) (iou_add a b) (iou_value a + iou_value b)"
proof (cases "iou_is_zero a \<or> iou_is_zero b")
  case True
  then show ?thesis using assms by (auto simp: iou_add_def iou_is_zero_def iou_value_zero intro!: sum_close_Inr)
next
  case False
  let ?h = "max (exponent a) (exponent b)" and ?x = "iou_value a + iou_value b"
  have pos: "0 < mantissa a" "0 < mantissa b" using False by (simp_all add: iou_is_zero_def)
  have h: "\<bar>?h\<bar> \<le> 1000" "?h \<le> 80" using assms False by (auto elim!: iou_wf_cases)
  note ca = align_close [OF pos(1), of "exponent a" "exponent b"] and cb = align_close [OF pos(2), of "exponent b" "exponent a"]
  show ?thesis
  proof (cases "align (mantissa a) (exponent a) (exponent b)")
    case None
    then show ?thesis using ca False assms(2) by (auto simp: iou_add_def abs_value intro!: sum_close_Inr)
  next
    case a: (Some m1)
    show ?thesis
    proof (cases "align (mantissa b) (exponent b) (exponent a)")
      case None
      then show ?thesis using cb a False assms(1) by (auto simp: iou_add_def abs_value intro!: sum_close_Inr)
    next
      case b: (Some m2)
      define total where "total = signed (negative a) m1 + signed (negative b) m2"
      have near: "\<bar>of_int total * 10 powi ?h - ?x\<bar> < 10 powi ?h"
        using align_value [OF pos(1) a] align_value [OF pos(2) b] unfolding total_def of_int_add distrib_right max.commute [of "exponent b"] by (cases "exponent a \<le> exponent b") simp_all
      have eq: "iou_add a b = (if total = 0 then Inr iou_ZERO else if int u64_max < \<bar>total\<bar> then Inl Overflow
          else iou_from_parts (nat \<bar>total\<bar>) ?h (total < 0))"
        using False by (simp add: iou_add_def a b Let_def total_def [symmetric])
      have "m1 \<le> MAX_MANTISSA" "m2 \<le> MAX_MANTISSA"
        using align_le [OF a] align_le [OF b] assms False by (auto elim!: iou_wf_cases)
      then have "\<not> int u64_max < \<bar>total\<bar>" by (auto simp: total_def signed_def u64_max_def MAX_MANTISSA_def)
      moreover have "of_int total * 10 powi ?h = (if total < 0 then - mag (nat \<bar>total\<bar>) ?h else mag (nat \<bar>total\<bar>) ?h)" by (simp add: mag_def)
      ultimately show ?thesis unfolding eq using near from_parts_near [of "nat \<bar>total\<bar>" ?h ?h "total < 0" ?x] h
        by (auto intro!: sum_close_Inr iou_wf_ZERO [unfolded iou_ZERO_def] simp: iou_value_zero iou_ZERO_def)
    qed
  qed
qed

text \<open>The truncating sum and difference: within one unit of the result's last place and one of the
  larger operand's.\<close>

theorem iou_add_sub_close:
  assumes "iou_wf a" and "iou_wf b"
  shows "sum_close (max (exponent a) (exponent b)) (iou_add a b) (iou_value a + iou_value b)
    \<and> sum_close (max (exponent a) (exponent b)) (iou_sub a b) (iou_value a - iou_value b)"
proof -
  have "exponent (iou_negate b) = exponent b" by (simp add: iou_negate_def)
  then show ?thesis using iou_add_sum_close [OF assms] iou_add_sum_close [OF assms(1) iou_negate_wf [OF assms(2)]]
    by (simp add: iou_sub_def iou_negate_value)
qed

theorem iou_add_sub_close_witness:
  "iou_wf two_fifths \<and> iou_wf minus_seven
     \<and> sum_close (-15) (iou_sub two_fifths minus_seven) (iou_value two_fifths - iou_value minus_seven)"
proof -
  have "max (exponent two_fifths) (exponent minus_seven) = -15" by (simp add: two_fifths_def minus_seven_def)
  then show ?thesis using iou_add_sub_close [of two_fifths minus_seven] by simp
qed

subsection \<open>Where the directed roundings go the other way\<close>

definition nearly_ten :: iou_amount where
  "nearly_ten = \<lparr>mantissa = 9999999999999999, exponent = -15, negative = False\<rparr>"

definition nine_and_half :: iou_amount where
  "nine_and_half = \<lparr>mantissa = 9500000000000000, exponent = -15, negative = False\<rparr>"

text \<open>C36: Asked to round up, the product of 9.999999999999999 and 9.5 is 94.99999999999999, below the exact
  94.9999999999999905: the digit cut by \<open>canonicalize_round\<close> before its last step is not counted.\<close>

theorem mul_round_up_below_product:
  "\<exists>c. iou_mul_round nearly_ten nine_and_half True = Inr c
     \<and> iou_value c < iou_value nearly_ten * iou_value nine_and_half"
proof -
  have up: "scale_up (mantissa nearly_ten) (exponent nearly_ten) = (9999999999999999, -15)"
    "scale_up (mantissa nine_and_half) (exponent nine_and_half) = (9500000000000000, -15)"
    by (simp_all add: nearly_ten_def nine_and_half_def scale_up.simps MIN_MANTISSA_def)
  have can: "canonicalize_round 949999999999999905 (-16) = (9499999999999999, -14)"
    by (simp add: canonicalize_round_def trim_far.simps [of 949999999999999905] trim_far.simps [of 94999999999999990] MAX_MANTISSA_def i32_def)
  have fp: "iou_from_parts 9499999999999999 (-14) False = Inr \<lparr>mantissa = 9499999999999999, exponent = -14, negative = False\<rparr>"
    by (simp add: from_parts_settle settle_def iou_consts)
  have "iou_mul_round nearly_ten nine_and_half True = Inr \<lparr>mantissa = 9499999999999999, exponent = -14, negative = False\<rparr>"
    unfolding iou_mul_round_def up by (simp add: nearly_ten_def nine_and_half_def iou_is_zero_def round_tail_def TEN_TO_14_def i32_def u64_max_def can fp and_then_def)
  then show ?thesis by (simp add: nearly_ten_def nine_and_half_def iou_value_def mag_def power_int_def power_one_over)
qed

definition one :: iou_amount where
  "one = \<lparr>mantissa = 10 ^ 15, exponent = -15, negative = False\<rparr>"

subsection \<open>Every operation returns a canonical amount\<close>

lemma from_parts_wf': "iou_from_parts m e neg = Inr a \<Longrightarrow> \<bar>e\<bar> \<le> 2000 \<Longrightarrow> iou_wf a"
  by (rule from_parts_wf) auto

lemma trim_far_exponent:
  assumes "m < 10 ^ (16 + n)" and "\<bar>e\<bar> + int n \<le> 1500"
  shows "\<bar>snd (trim_far m e)\<bar> \<le> \<bar>e\<bar> + int n"
  using assms
proof (induction n arbitrary: m e)
  case 0
  then show ?case by (simp add: trim_far.simps [of m] MAX_MANTISSA_def)
next
  case (Suc n)
  have "i32 (e + 1) = e + 1" using Suc.prems(2) by (intro i32_id) auto
  moreover have m: "m div 10 < 10 ^ (16 + n)" using Suc.prems(1) by (simp add: div_less_iff_less_mult power_add)
  moreover have "\<bar>snd (trim_far (m div 10) (e + 1))\<bar> \<le> \<bar>e\<bar> + int (Suc n)" using Suc.IH [OF m, of "e + 1"] Suc.prems(2) by linarith
  ultimately show ?case by (simp add: trim_far.simps [of m])
qed

lemma canonicalize_round_exponent:
  assumes "m \<le> u64_max" and "\<bar>e\<bar> \<le> 1000"
  shows "\<bar>snd (canonicalize_round m e)\<bar> \<le> 2000"
proof -
  have "\<bar>snd (trim_far m e)\<bar> \<le> 1004" using trim_far_exponent [of m 4 e] assms by (simp add: u64_max_def)
  moreover from this have "i32 (snd (trim_far m e) + 1) = snd (trim_far m e) + 1" by (intro i32_id) auto
  ultimately show ?thesis using assms(2) by (auto simp: canonicalize_round_def Let_def case_prod_beta)
qed

lemma min_positive_wf: "iou_wf iou_MIN_POSITIVE" "iou_wf (iou_from_raw MIN_MANTISSA MIN_EXPONENT neg)"
  by (simp_all add: iou_MIN_POSITIVE_def iou_from_raw_def iou_wf_def iou_consts)

lemma round_tail_wf:
  assumes "round_tail res offset neg round_up = Inr c" and "\<bar>offset\<bar> \<le> 1000"
  shows "iou_wf c"
proof -
  obtain m e where me: "(if neg \<noteq> round_up then canonicalize_round res offset else (res, offset)) = (m, e)" by (rule prod.exhaust)
  have "res \<le> u64_max" using assms(1) by (auto simp: round_tail_def split: if_splits)
  then have e: "\<bar>e\<bar> \<le> 2000" using canonicalize_round_exponent [of res offset] assms(2) me by (cases "neg \<noteq> round_up") auto
  obtain r where r: "iou_from_parts m e neg = Inr r" "c = r \<or> c = iou_MIN_POSITIVE"
    using assms(1) \<open>res \<le> u64_max\<close> unfolding round_tail_def me Let_def prod.case by (auto simp: and_then_def split: sum.splits if_splits)
  then show ?thesis using from_parts_wf' [OF r(1) e] min_positive_wf(1) by auto
qed

lemma directed_wf:
  assumes "iou_wf a" and "iou_wf b"
  shows "iou_mul_round a b round_up = Inr c \<Longrightarrow> iou_wf c" and "iou_div_round a b round_up = Inr c \<Longrightarrow> iou_wf c"
proof -
  have e: "\<bar>i32 (i32 (exponent a + exponent b) + 14)\<bar> \<le> 1000" "\<bar>i32 (i32 (exponent a - exponent b) - 17)\<bar> \<le> 1000"
    if "\<not> iou_is_zero a" "\<not> iou_is_zero b"
  proof -
    have "-96 \<le> exponent a" "exponent a \<le> 80" "-96 \<le> exponent b" "exponent b \<le> 80" using assms that by (auto elim: iou_wf_cases)
    then show "\<bar>i32 (i32 (exponent a + exponent b) + 14)\<bar> \<le> 1000" "\<bar>i32 (i32 (exponent a - exponent b) - 17)\<bar> \<le> 1000"
      by (simp_all add: i32_id)
  qed
  have up: "\<not> iou_is_zero x \<Longrightarrow> iou_wf x \<Longrightarrow> scale_up (mantissa x) (exponent x) = (mantissa x, exponent x)" for x by (auto elim: iou_wf_cases)
  show "iou_mul_round a b round_up = Inr c \<Longrightarrow> iou_wf c"
    using e(1) up assms min_positive_wf(1) round_tail_wf by (auto simp: iou_mul_round_def Let_def split: if_splits)
  show "iou_div_round a b round_up = Inr c \<Longrightarrow> iou_wf c"
    using e(2) up assms min_positive_wf(1) round_tail_wf by (auto simp: iou_div_round_def Let_def split: if_splits)
qed

text \<open>The mantissa \<open>mul_ratio\<close> starts from, and the amount it makes of it before rounding away from zero.\<close>

lemma from_parts_trim:
  assumes "low < 10 ^ 20" and "\<bar>e\<bar> \<le> 1000"
  shows "trim_carry low e = (low div 10 ^ digits_over low, e + int (digits_over low))"
    and "iou_from_parts (low div 10 ^ digits_over low) (e + int (digits_over low)) neg = iou_from_parts low e neg"
proof -
  have k: "digits_over low \<le> 4" using digits_over_bound [of low 4] assms(1) by simp
  then show "trim_carry low e = (low div 10 ^ digits_over low, e + int (digits_over low))"
    using assms(2) by (intro trim_carry_spec) auto
  show "iou_from_parts (low div 10 ^ digits_over low) (e + int (digits_over low)) neg = iou_from_parts low e neg"
  proof (cases "MAX_MANTISSA < low")
    case True
    then have pos: "0 < low" by simp
    obtain m' e' where "iou_from_parts low e neg = settle m' e' neg"
      and "m' = low div 10 ^ digits_over low \<and> e' = e + int (digits_over low)"
      by (rule from_parts_spec [OF pos, of e neg]) (use assms(2) True in auto)
    moreover have "iou_from_parts (low div 10 ^ digits_over low) (e + int (digits_over low)) neg
        = settle (low div 10 ^ digits_over low) (e + int (digits_over low)) neg"
      using k assms(2) by (intro from_parts_settle digits_over_full [OF True] digits_over_fits) auto
    ultimately show ?thesis by simp
  qed (simp add: digits_over_0)
qed

lemma mul_ratio_parts:
  assumes "iou_wf a" and "iou_mul_ratio a n d round_up = Inr c" and "d \<noteq> 0" and "\<not> iou_is_zero a" and "n \<noteq> 0"
  obtains r where "iou_from_parts (mantissa a * n div d mod 2 ^ 64) (exponent a) (negative a) = Inr r" and "iou_wf r"
    and "c = r \<or> iou_is_zero r \<and> c \<in> {iou_MIN_POSITIVE, iou_from_raw MIN_MANTISSA MIN_EXPONENT True} \<or>
       \<not> iou_is_zero r \<and> iou_from_parts (mantissa r + 1) (exponent r) (negative r) = Inr c"
proof -
  have a: "\<bar>exponent a\<bar> \<le> 1000" using assms(1,4) by (auto elim: iou_wf_cases)
  define low where "low = wrap64 (mantissa a * n div d)"
  have "low < 10 ^ 20" unfolding low_def wrap64_def by (rule less_trans [OF mod_less_divisor]) simp_all
  note trim = from_parts_trim [OF this a]
  obtain r where r: "iou_from_parts low (exponent a) (negative a) = Inr r"
    "c = r \<or> iou_is_zero r \<and> c \<in> {iou_MIN_POSITIVE, iou_from_raw MIN_MANTISSA MIN_EXPONENT True} \<or>
       \<not> iou_is_zero r \<and> iou_from_parts (mantissa r + 1) (exponent r) (negative r) = Inr c"
    using assms(2-5) unfolding iou_mul_ratio_def Let_def low_def [symmetric] trim prod.case
    by (auto simp: and_then_def split: sum.splits if_splits)
  moreover have "iou_wf r" using a by (intro from_parts_wf' [OF r(1)]) auto
  ultimately show thesis by (intro that [of r]) (simp_all add: low_def wrap64_def)
qed

lemma mul_ratio_trivial:
  "iou_mul_ratio a n d round_up = Inr c \<Longrightarrow> d = 0 \<or> iou_is_zero a \<or> n = 0 \<Longrightarrow> c = iou_ZERO"
  by (auto simp: iou_mul_ratio_def split: if_splits)

lemma mul_ratio_wf:
  assumes "iou_wf a" and "iou_mul_ratio a n d round_up = Inr c"
  shows "iou_wf c"
proof (cases "d = 0 \<or> iou_is_zero a \<or> n = 0")
  case True
  then show ?thesis using mul_ratio_trivial [OF assms(2)] by simp
next
  case False
  then obtain r where wf: "iou_wf r"
    and r: "c = r \<or> iou_is_zero r \<and> c \<in> {iou_MIN_POSITIVE, iou_from_raw MIN_MANTISSA MIN_EXPONENT True} \<or>
       \<not> iou_is_zero r \<and> iou_from_parts (mantissa r + 1) (exponent r) (negative r) = Inr c"
    using mul_ratio_parts [OF assms] by blast
  moreover have "\<bar>exponent r\<bar> \<le> 2000" if "\<not> iou_is_zero r" using wf that by (auto elim!: iou_wf_cases)
  ultimately show ?thesis using min_positive_wf from_parts_wf' by blast
qed

lemma from_parts_floor:
  assumes "iou_from_parts m e neg = Inr r" and "\<bar>e\<bar> \<le> 1000"
  shows "if iou_is_zero r then mag m e < 10 powi (-81)
    else \<bar>iou_value r\<bar> \<le> mag m e \<and> mag m e < \<bar>iou_value r\<bar> + 10 powi exponent r"
proof (cases "m = 0")
  case True
  then show ?thesis using assms(1) by (auto simp: from_parts_0 iou_is_zero_def iou_ZERO_def)
next
  case False
  have e: "-2147483633 \<le> e" "e \<le> 2147483647" "0 < m" using assms(2) False by auto
  obtain m' e' where can: "canonical m e m' e'" and res: "iou_from_parts m e neg = settle m' e' neg"
    using from_parts_spec [OF e(3,1,2), of neg] by blast
  have "mag MIN_MANTISSA MIN_EXPONENT = 10 powi (-81)" by (simp add: mag_def iou_consts power_int_def power_one_over)
  then show ?thesis
    using settle_correct [OF can, of neg, folded res] assms(1) by (simp add: abs_value iou_is_zero_def split: if_splits)
qed

lemma from_parts_succ:
  assumes "iou_wf r" and "\<not> iou_is_zero r" and "iou_from_parts (mantissa r + 1) (exponent r) neg = Inr c"
  shows "\<bar>iou_value c\<bar> = mag (mantissa r + 1) (exponent r) \<and> exponent r \<le> exponent c"
proof -
  have r: "MIN_MANTISSA \<le> mantissa r" "mantissa r \<le> MAX_MANTISSA" "-96 \<le> exponent r" "exponent r \<le> 80"
    using assms(1,2) by (auto elim: iou_wf_cases)
  show ?thesis
  proof (cases "mantissa r = MAX_MANTISSA")
    case True
    have "digits_over 10000000000000000 = 1" by (simp add: digits_over_Suc digits_over_0 MAX_MANTISSA_def)
    then have "iou_from_parts (mantissa r + 1) (exponent r) neg = iou_from_parts MIN_MANTISSA (exponent r + 1) neg"
      using from_parts_trim(2) [of "10 ^ 16" "exponent r" neg] True r(3,4) by (simp add: iou_consts)
    also have "\<dots> = settle MIN_MANTISSA (exponent r + 1) neg" using r(3,4) by (intro from_parts_settle) (simp_all add: iou_consts)
    finally show ?thesis
      using assms(3) True r(3) mag_shift_up [of MIN_MANTISSA 1 "exponent r"]
      by (auto simp: settle_def abs_value iou_consts MIN_EXPONENT_def split: if_splits)
  next
    case False
    then have "iou_from_parts (mantissa r + 1) (exponent r) neg = settle (mantissa r + 1) (exponent r) neg"
      using r by (intro from_parts_settle) simp_all
    then show ?thesis using assms(3) r(3,4) by (auto simp: settle_def abs_value MIN_EXPONENT_def MAX_EXPONENT_def split: if_splits)
  qed
qed

lemma mul_ratio_close:
  assumes "iou_wf a" and "0 < d" and "iou_mul_ratio a n d round_up = Inr c"
  shows "\<bar>\<bar>iou_value c\<bar> - mag (mantissa a * n div d mod 2 ^ 64) (exponent a)\<bar> \<le> 10 powi max (exponent c) (-81)"
    (is "\<bar>_ - ?w\<bar> \<le> _")
proof (cases "iou_is_zero a \<or> n = 0")
  case True
  then have "c = iou_ZERO" "?w = 0" using mul_ratio_trivial [OF assms(3)] by (auto simp: iou_is_zero_def)
  then show ?thesis by (simp add: iou_value_def iou_ZERO_def)
next
  case False
  obtain r where r: "iou_from_parts (mantissa a * n div d mod 2 ^ 64) (exponent a) (negative a) = Inr r" "iou_wf r"
    and c: "c = r \<or> iou_is_zero r \<and> c \<in> {iou_MIN_POSITIVE, iou_from_raw MIN_MANTISSA MIN_EXPONENT True} \<or>
       \<not> iou_is_zero r \<and> iou_from_parts (mantissa r + 1) (exponent r) (negative r) = Inr c"
    by (rule mul_ratio_parts [OF assms(1,3)]) (use assms(2) False in auto)
  have "\<bar>exponent a\<bar> \<le> 1000" using assms(1) False by (auto elim: iou_wf_cases)
  note floor = from_parts_floor [OF r(1) this]
  have unit: "(10 :: rat) powi exponent c \<le> 10 powi max (exponent c) (-81)" "(10 :: rat) powi -81 \<le> 10 powi max (exponent c) (-81)"
    by (intro power_int_increasing; simp)+
  have w: "0 \<le> ?w" by simp
  from c consider (same) "c = r" | (least) "iou_is_zero r" "c \<in> {iou_MIN_POSITIVE, iou_from_raw MIN_MANTISSA MIN_EXPONENT True}"
    | (succ) "\<not> iou_is_zero r" "iou_from_parts (mantissa r + 1) (exponent r) (negative r) = Inr c" by blast
  then show ?thesis
  proof cases
    case same
    then show ?thesis using floor unit w by (cases "iou_is_zero r") (auto simp: iou_is_zero_def iou_value_zero)
  next
    case least
    have "\<bar>iou_value c\<bar> = 10 powi (-81)"
      using least(2) by (auto simp: abs_value iou_MIN_POSITIVE_def iou_from_raw_def mag_def iou_consts power_int_def power_one_over)
    moreover have "?w < 10 powi (-81)" using floor least(1) by (simp only: if_True)
    ultimately show ?thesis using unit(2) w unfolding abs_le_iff by linarith
  next
    case succ
    note up = from_parts_succ [OF r(2) succ]
    have "\<bar>iou_value c\<bar> = \<bar>iou_value r\<bar> + 10 powi exponent r" using up by (simp add: abs_value mag_def distrib_right)
    moreover have "(10 :: rat) powi exponent r \<le> 10 powi exponent c" using up by (intro power_int_increasing) simp_all
    ultimately show ?thesis using floor succ(1) unit(1) by simp
  qed
qed

lemma mag_quotient_le: "mag (mantissa a * n div d) (exponent a) \<le> \<bar>iou_value a * (of_nat n / of_nat d)\<bar>"
proof -
  have "(of_nat (mantissa a * n div d) :: rat) \<le> of_nat (mantissa a * n) / of_nat d" by (rule of_nat_div_le_of_nat)
  then have "mag (mantissa a * n div d) (exponent a) \<le> of_nat (mantissa a * n) / of_nat d * 10 powi exponent a"
    unfolding mag_def by (rule mult_right_mono) simp
  then show ?thesis by (simp add: abs_mult abs_value mag_def mult.commute mult.left_commute)
qed

text \<open>One unit is far less than \<open>2^64\<close> times the unit the quotient started from.\<close>

lemma unit_below_block:
  assumes "iou_wf c" and "-96 \<le> e" and close: "\<bar>\<bar>iou_value c\<bar> - mag w e\<bar> \<le> 10 powi max (exponent c) (-81)" and "w < 2 ^ 64"
  shows "\<bar>iou_value c\<bar> < mag w e + mag (2 ^ 64) e"
proof (cases "exponent c \<le> -81")
  case True
  have "(10 :: rat) powi -81 < mag (2 ^ 64) (-96)" by (simp add: mag_def power_int_def power_one_over)
  also have "\<dots> \<le> mag (2 ^ 64) e" using assms(2) by (rule mag_exponent_mono)
  finally have "(10 :: rat) powi -81 < mag (2 ^ 64) e" .
  moreover have "max (exponent c) (-81) = -81" using True by simp
  ultimately show ?thesis using close unfolding abs_le_iff by (simp only:) linarith
next
  case False
  have nz: "\<not> iou_is_zero c" using assms(1) False by (auto simp: iou_is_zero_def iou_wf_def iou_consts)
  then have "of_nat MIN_MANTISSA * 10 powi exponent c \<le> (of_nat (mantissa c) * 10 powi exponent c :: rat)"
    using assms(1) by (intro mult_right_mono) (auto elim: iou_wf_cases)
  then have "10 ^ 15 * 10 powi exponent c \<le> \<bar>iou_value c\<bar>" by (simp add: abs_value mag_def MIN_MANTISSA_def)
  moreover have "mag w e < mag (2 ^ 64) e" using assms(4) by (rule mag_less)
  moreover have "\<bar>iou_value c\<bar> \<le> mag w e + 10 powi exponent c" using close False by (simp add: max_def split: if_splits)
  ultimately show ?thesis by simp
qed

lemma accurate_wf: "accurate u (Inr c) x \<Longrightarrow> iou_wf c"
  by (simp add: accurate_def)

lemma sum_close_wf: "sum_close h (Inr c) x \<Longrightarrow> iou_wf c"
  by (simp add: sum_close_def)

text \<open>C35: Multiplying by a ratio is accurate, but for the quotient's low 64 bits only: an amount that
  \<open>mul_ratio\<close> returns is within one unit of its last place (of the smallest positive amount when it is
  that small) of the quotient modulo \<open>2^64\<close> at the exponent of the factor. So whenever the quotient of
  mantissa times numerator by denominator does not fit 64 bits, the amount returned is below the
  exact product, whichever way it was asked to round.\<close>

theorem mul_ratio_wraps:
  assumes "iou_wf a" and "0 < d" and "iou_mul_ratio a n d round_up = Inr c"
  defines "low \<equiv> mantissa a * n div d"
  shows "\<bar>\<bar>iou_value c\<bar> - mag (low mod 2 ^ 64) (exponent a)\<bar> \<le> 10 powi max (exponent c) (-81)
    \<and> (2 ^ 64 \<le> low \<longrightarrow> \<bar>iou_value c\<bar> < \<bar>iou_value a * (of_nat n / of_nat d)\<bar>)"
proof -
  have close: "\<bar>\<bar>iou_value c\<bar> - mag (low mod 2 ^ 64) (exponent a)\<bar> \<le> 10 powi max (exponent c) (-81)"
    unfolding low_def by (rule mul_ratio_close [OF assms(1-3)])
  have "\<bar>iou_value c\<bar> < \<bar>iou_value a * (of_nat n / of_nat d)\<bar>" if big: "2 ^ 64 \<le> low"
  proof -
    have "\<not> iou_is_zero a" by (rule notI) (use big in \<open>simp add: low_def iou_is_zero_def\<close>)
    then have "-96 \<le> exponent a" using assms(1) by (auto elim: iou_wf_cases)
    then have "\<bar>iou_value c\<bar> < mag (low mod 2 ^ 64 + 2 ^ 64) (exponent a)"
      using unit_below_block [OF mul_ratio_wf [OF assms(1,3)] _ close] by (simp add: mag_add)
    also have "\<dots> \<le> mag low (exponent a)"
      using le_mod_geq [OF big] mod_less_eq_dividend [of "low - 2 ^ 64" "2 ^ 64"] big by (intro mag_mono) linarith
    also have "\<dots> \<le> \<bar>iou_value a * (of_nat n / of_nat d)\<bar>" unfolding low_def by (rule mag_quotient_le)
    finally show ?thesis .
  qed
  with close show ?thesis by blast
qed

definition wrapped_product :: iou_amount where
  "wrapped_product = \<lparr>mantissa = 1553255926290448, exponent = -12, negative = False\<rparr>"

lemma ratio_of_one: "iou_mul_ratio one 20000 1 round_up = Inr wrapped_product"
proof -
  have "trim_carry 1553255926290448384 (-15) = (1553255926290448, -12)"
    by (simp add: trim_carry.simps MAX_MANTISSA_def i32_def)
  moreover have "iou_from_parts 1553255926290448 (-12) False = Inr wrapped_product"
    by (simp add: from_parts_settle settle_def iou_consts wrapped_product_def)
  ultimately show ?thesis by (simp add: iou_mul_ratio_def one_def iou_is_zero_def wrap64_def and_then_def)
qed

lemma one_wf: "iou_wf one"
  by (simp add: iou_wf_def one_def iou_consts)

text \<open>Twenty thousand times one is less than 1554.\<close>

theorem mul_ratio_wraps_witness:
  "iou_mul_ratio one 20000 1 True = Inr wrapped_product \<and> 2 ^ 64 \<le> mantissa one * 20000 div 1
   \<and> \<bar>iou_value wrapped_product\<bar> < \<bar>iou_value one * (of_nat 20000 / of_nat 1)\<bar>
   \<and> iou_value one * 20000 = 20000 \<and> iou_value wrapped_product < 1554"
proof -
  have big: "2 ^ 64 \<le> mantissa one * 20000 div 1" by (simp add: one_def)
  have "\<bar>iou_value wrapped_product\<bar> < \<bar>iou_value one * (of_nat 20000 / of_nat 1)\<bar>"
    using mul_ratio_wraps [OF one_wf _ ratio_of_one] big by simp
  moreover have "iou_value one * 20000 = 20000" "iou_value wrapped_product < 1554"
    by (simp_all add: one_def wrapped_product_def iou_value_def mag_def power_int_def power_one_over)
  ultimately show ?thesis using ratio_of_one big by blast
qed

text \<open>A quotient of fewer than sixteen digits is cut to an integer before it is scaled up, so rounding up
  can end below the exact product: a third of \<open>10^15\<close> comes out as \<open>333333333333333.1\<close>.\<close>

lemma mul_ratio_up_below_product:
  "\<exists>c. iou_mul_ratio \<lparr>mantissa = 10 ^ 15, exponent = 0, negative = False\<rparr> 1 3 True = Inr c
    \<and> iou_value c < iou_value \<lparr>mantissa = 10 ^ 15, exponent = 0, negative = False\<rparr> * (1 / 3)"
proof -
  have "trim_carry 333333333333333 0 = (333333333333333, 0)" by (simp add: trim_carry.simps MAX_MANTISSA_def)
  moreover have "iou_from_parts 333333333333333 0 False = Inr \<lparr>mantissa = 3333333333333330, exponent = -1, negative = False\<rparr>"
    by (simp add: iou_from_parts_def iou_normalize_def scale_up.simps scale_down_spec digits_over_0 and_then_def iou_consts i32_def)
  moreover have "iou_from_parts 3333333333333331 (-1) False = Inr \<lparr>mantissa = 3333333333333331, exponent = -1, negative = False\<rparr>"
    by (simp add: from_parts_settle settle_def iou_consts)
  ultimately show ?thesis
    by (simp add: iou_mul_ratio_def iou_is_zero_def wrap64_def and_then_def iou_value_def mag_def power_int_def)
qed

definition iou_results :: "iou_amount \<Rightarrow> iou_amount \<Rightarrow> nat \<Rightarrow> nat \<Rightarrow> bool \<Rightarrow> iou_amount result list" where
  "iou_results a b n d round_up =
     [iou_multiply a b, iou_divide a b, iou_divide_round_even a b, iou_mul_round a b round_up, iou_div_round a b round_up,
      iou_mul_ratio a n d round_up, iou_add a b, iou_sub a b, iou_add_round a b, Inr (iou_negate a), Inr (iou_abs a)]"

text \<open>C33: Every arithmetic operation on canonical amounts returns a canonical amount when it returns one.\<close>

theorem iou_operations_typed:
  assumes "iou_wf a" and "iou_wf b" and "Inr c \<in> set (iou_results a b n d round_up)"
  shows "iou_wf c"
proof -
  have "iou_wf (iou_abs a)" using assms(1) by (auto simp: iou_wf_def iou_abs_def)
  moreover have div: "iou_divide_canonical a b ev = Inr c \<Longrightarrow> iou_wf c" for ev
    using divide_canonical_accurate [OF assms(1,2), of ev] by (cases "iou_is_zero b") (auto simp: iou_divide_canonical_def dest: accurate_wf)
  moreover have "iou_multiply a b = Inr c \<Longrightarrow> iou_wf c" using multiply_accurate [OF assms(1,2)] by (auto dest: accurate_wf)
  moreover have "iou_add_round a b = Inr c \<Longrightarrow> iou_wf c" using add_round_nearest [OF assms(1,2)] by (auto dest: accurate_wf)
  moreover have "iou_add a b = Inr c \<Longrightarrow> iou_wf c" using iou_add_sum_close [OF assms(1,2)] by (auto dest: sum_close_wf)
  moreover have "iou_sub a b = Inr c \<Longrightarrow> iou_wf c"
    using iou_add_sum_close [OF assms(1) iou_negate_wf [OF assms(2)]] by (auto simp: iou_sub_def dest: sum_close_wf)
  ultimately show ?thesis
    using assms(3) directed_wf [OF assms(1,2)] mul_ratio_wf [OF assms(1)] iou_negate_wf [OF assms(1)]
    by (auto simp: iou_results_def iou_divide_def iou_divide_round_even_def)
qed

theorem iou_operations_typed_witness:
  "iou_wf wrapped_product \<and> Inr wrapped_product \<in> set (iou_results one minus_seven 20000 1 True)"
proof -
  have "Inr wrapped_product \<in> set (iou_results one minus_seven 20000 1 True)"
    by (simp add: iou_results_def ratio_of_one [unfolded One_nat_def])
  with iou_operations_typed [OF one_wf _ this] show ?thesis by simp
qed

end
