(* ===== verification/Amount.thy ===== *)
theory Amount
  imports Iou_Arithmetic
begin

text \<open>
  Amounts that are either drops of the native currency or an issued amount (\<open>amount/src/amount.rs\<close>).
  Signed 64-bit drops are integers, with the casts and negations that can wrap written out. The
  directed native products are proved to be the floor and the ceiling of the exact product.
\<close>

subsection \<open>Amounts\<close>

definition i64 :: "int \<Rightarrow> int" where
  "i64 z = (z + 9223372036854775808) mod 18446744073709551616 - 9223372036854775808"

definition MAX_NATIVE_DROPS :: nat where
  "MAX_NATIVE_DROPS = 100000000000000000"

datatype amount = Xrp int | Iou iou_amount

fun is_native :: "amount \<Rightarrow> bool" where
  "is_native (Xrp _) = True"
| "is_native (Iou _) = False"

fun amount_is_zero :: "amount \<Rightarrow> bool" where
  "amount_is_zero (Xrp d) = (d = 0)"
| "amount_is_zero (Iou a) = iou_is_zero a"

fun amount_is_negative :: "amount \<Rightarrow> bool" where
  "amount_is_negative (Xrp d) = (d < 0)"
| "amount_is_negative (Iou a) = iou_is_negative a"

fun amount_drops :: "amount \<Rightarrow> int option" where
  "amount_drops (Xrp d) = Some d"
| "amount_drops (Iou _) = None"

fun amount_iou :: "amount \<Rightarrow> iou_amount option" where
  "amount_iou (Iou a) = Some a"
| "amount_iou (Xrp _) = None"

fun normalized_parts :: "amount \<Rightarrow> nat \<times> int \<times> bool" where
  "normalized_parts (Xrp d) = (let m = nat \<bar>d\<bar>; (m', e) = (if m = 0 then (m, 0) else scale_up m 0) in (m', e, d < 0))"
| "normalized_parts (Iou a) =
     (let (m, e) = (if mantissa a = 0 then (mantissa a, exponent a) else scale_up (mantissa a) (exponent a)) in (m, e, negative a))"

definition u128_to_u64 :: "nat \<Rightarrow> nat result" where
  "u128_to_u64 v = (if u64_max < v then Inl Overflow else Inr v)"

subsection \<open>Drops\<close>

text \<open>The scaling loops, by the number of rounds left.\<close>

primrec raise_drops :: "nat \<Rightarrow> nat \<Rightarrow> nat" where
  "raise_drops 0 v = v"
| "raise_drops (Suc n) v = raise_drops n (min (10 * v) u64_max)"

primrec cut_drops :: "nat \<Rightarrow> nat \<Rightarrow> nat" where
  "cut_drops 0 v = v"
| "cut_drops (Suc n) v = cut_drops n (v div 10)"

primrec cut_tracking :: "nat \<Rightarrow> nat \<times> bool \<Rightarrow> nat \<times> bool" where
  "cut_tracking 0 s = s"
| "cut_tracking (Suc n) s = (let (v, had_remainder) = s; next = v div 10 in cut_tracking n (next, had_remainder \<or> v \<noteq> next * 10))"

definition scale_to_drops :: "nat \<Rightarrow> int \<Rightarrow> nat" where
  "scale_to_drops v e = (if v = 0 \<or> e \<le> -20 then 0 else cut_drops (nat (- e)) (raise_drops (nat e) v))"

definition drops_floor :: "nat \<Rightarrow> int \<Rightarrow> bool \<Rightarrow> int result" where
  "drops_floor m e neg =
     (let drops = scale_to_drops m e in
      if MAX_NATIVE_DROPS < drops then Inl Overflow
      else let drops = i64 (int drops) in Inr (if neg then - drops else drops))"

definition canonicalize_drops_round :: "nat \<Rightarrow> int \<Rightarrow> nat" where
  "canonicalize_drops_round v e =
     (if v = 0 then 0
      else
        (let v = raise_drops (nat e) v in
         if e < 0 then
           (let loops = nat (- e - 1);
                v = cut_drops loops v;
                adder = (if 2 \<le> loops then 9 else 10)
            in wrap64 (v + adder) div 10)
         else v))"

definition canonicalize_drops_round_strict :: "nat \<Rightarrow> int \<Rightarrow> bool \<Rightarrow> nat" where
  "canonicalize_drops_round_strict v e round_up =
     (if v = 0 then 0
      else
        (let v = raise_drops (nat e) v in
         if e < 0 then
           (let (v, had_remainder) = cut_tracking (nat (- e - 1)) (v, False);
                adder = (if had_remainder \<and> round_up then 10 else 9)
            in wrap64 (v + adder) div 10)
         else v))"

definition canonicalize_round_iou :: "nat \<Rightarrow> int \<Rightarrow> nat \<times> int" where
  "canonicalize_round_iou v e =
     (if MAX_MANTISSA < v then let (m, e) = trim_far v e in ((m + 9) div 10, i32 (e + 1)) else (v, e))"

subsection \<open>Products and quotients\<close>

definition finish :: "nat \<Rightarrow> int \<Rightarrow> bool \<Rightarrow> bool \<Rightarrow> amount result" where
  "finish m e neg native =
     (if native then and_then (drops_floor m e neg) (\<lambda>d. Inr (Xrp d))
      else and_then (iou_from_parts m e neg) (\<lambda>a. Inr (Iou a)))"

definition zero_of :: "bool \<Rightarrow> amount" where
  "zero_of native = (if native then Xrp 0 else Iou iou_ZERO)"

definition amount_multiply :: "amount \<Rightarrow> amount \<Rightarrow> bool \<Rightarrow> amount result" where
  "amount_multiply a b native =
     (if amount_is_zero a \<or> amount_is_zero b then Inr (zero_of native)
      else
        (let (m1, e1, n1) = normalized_parts a;
             (m2, e2, n2) = normalized_parts b in
         and_then (u128_to_u64 (m1 * m2 div TEN_TO_14 + 7)) (\<lambda>product.
           finish product (i32 (i32 (e1 + e2) + 14)) (n1 \<noteq> n2) native)))"

definition amount_divide :: "amount \<Rightarrow> amount \<Rightarrow> bool \<Rightarrow> amount result" where
  "amount_divide num den native =
     (if amount_is_zero den then Inl DivisionByZero
      else if amount_is_zero num then Inr (zero_of native)
      else
        (let (m1, e1, n1) = normalized_parts num;
             (m2, e2, n2) = normalized_parts den in
         and_then (u128_to_u64 (m1 * TEN_TO_17 div m2 + 5)) (\<lambda>scaled.
           finish scaled (i32 (i32 (e1 - e2) - 17)) (n1 \<noteq> n2) native)))"

definition round_zero :: "bool \<Rightarrow> bool \<Rightarrow> bool \<Rightarrow> amount" where
  "round_zero native round_up operand_negative =
     (if native then (if round_up \<and> \<not> operand_negative then Xrp 1 else Xrp 0)
      else if round_up \<and> \<not> operand_negative then Iou iou_MIN_POSITIVE
      else Iou iou_ZERO)"

definition round_finish :: "nat \<Rightarrow> int \<Rightarrow> bool \<Rightarrow> bool \<Rightarrow> bool \<Rightarrow> bool \<Rightarrow> amount result" where
  "round_finish m e neg native round_up strict =
     (if native then
        (let drops = (if neg \<noteq> round_up then
                (if strict then canonicalize_drops_round_strict m e round_up else canonicalize_drops_round m e)
              else scale_to_drops m e) in
         and_then (u128_to_u64 drops) (\<lambda>drops.
           if round_up \<and> \<not> neg \<and> drops = 0 then Inr (Xrp 1)
           else Inr (Xrp (if neg then i64 (- i64 (int drops)) else i64 (int drops)))))
      else
        (let (m, e) = (if neg \<noteq> round_up then canonicalize_round_iou m e else (m, e)) in
         and_then (iou_from_parts m e neg) (\<lambda>r.
           if round_up \<and> \<not> neg \<and> iou_is_zero r then Inr (Iou iou_MIN_POSITIVE) else Inr (Iou r))))"

definition mul_rounded :: "amount \<Rightarrow> amount \<Rightarrow> bool \<Rightarrow> bool \<Rightarrow> bool \<Rightarrow> amount result" where
  "mul_rounded a b native round_up strict =
     (if amount_is_zero a \<or> amount_is_zero b
      then Inr (round_zero native round_up (amount_is_negative a \<or> amount_is_negative b))
      else
        (let (m1, e1, n1) = normalized_parts a;
             (m2, e2, n2) = normalized_parts b;
             neg = (n1 \<noteq> n2);
             bias = (if neg \<noteq> round_up then TEN_TO_14 - 1 else 0) in
         and_then (u128_to_u64 ((m1 * m2 + bias) div TEN_TO_14)) (\<lambda>raw.
           round_finish raw (i32 (i32 (e1 + e2) + 14)) neg native round_up strict)))"

definition amount_mul_round :: "amount \<Rightarrow> amount \<Rightarrow> bool \<Rightarrow> bool \<Rightarrow> amount result" where
  "amount_mul_round a b native round_up = mul_rounded a b native round_up False"

definition amount_mul_round_strict :: "amount \<Rightarrow> amount \<Rightarrow> bool \<Rightarrow> bool \<Rightarrow> amount result" where
  "amount_mul_round_strict a b native round_up = mul_rounded a b native round_up True"

definition amount_div_round :: "amount \<Rightarrow> amount \<Rightarrow> bool \<Rightarrow> bool \<Rightarrow> amount result" where
  "amount_div_round num den native round_up =
     (if amount_is_zero den then Inl DivisionByZero
      else if amount_is_zero num then Inr (round_zero native round_up (amount_is_negative num))
      else
        (let (m1, e1, n1) = normalized_parts num;
             (m2, e2, n2) = normalized_parts den;
             neg = (n1 \<noteq> n2);
             bias = (if neg \<noteq> round_up then m2 - 1 else 0) in
         and_then (u128_to_u64 ((m1 * TEN_TO_17 + bias) div m2)) (\<lambda>raw.
           round_finish raw (i32 (i32 (e1 - e2) - 17)) neg native round_up False)))"

subsection \<open>What the scaling loops compute\<close>

lemma cut_drops_div: "cut_drops n v = v div 10 ^ n"
  by (induction n arbitrary: v) (simp_all add: div_mult2_eq)

lemma cut_tracking_div: "cut_tracking n (v, b) = (v div 10 ^ n, b \<or> v mod 10 ^ n \<noteq> 0)"
proof (induction n arbitrary: v b)
  case (Suc n)
  have "v mod (10 * 10 ^ n) = 10 * (v div 10 mod 10 ^ n) + v mod 10" by (rule mod_mult2_eq)
  moreover have "v \<noteq> v div 10 * 10 \<longleftrightarrow> v mod 10 \<noteq> 0" by presburger
  ultimately show ?case using Suc by (auto simp: div_mult2_eq Let_def)
qed simp

lemma div_ceil_eq: "0 < d \<Longrightarrow> div_ceil v d = v div d + (if v mod d = 0 then 0 else 1)"
proof -
  assume d: "0 < d"
  have ceil: "div_ceil v d = (v + (d - 1)) div d" using d by (simp add: div_ceil_def)
  have "v + (d - 1) = v div d * d + (v mod d + (d - 1))" by simp
  then have "div_ceil v d = v div d + (v mod d + (d - 1)) div d" using d unfolding ceil by (metis div_mult_self3 not_less0 add.commute)
  moreover have "(v mod d + (d - 1)) div d = (if v mod d = 0 then 0 else 1)"
  proof (cases "v mod d = 0")
    case False
    have "v mod d < d" using d by simp
    then have "d \<le> v mod d + (d - 1)" "v mod d + (d - 1) < 2 * d" using False by linarith+
    then show ?thesis using False by (simp add: div_nat_eqI)
  qed (use d in simp)
  ultimately show ?thesis by simp
qed

lemma strict_is_ceiling:
  assumes "v + 10 \<le> u64_max" and "e < 0"
  shows "canonicalize_drops_round_strict v e True = div_ceil v (10 ^ nat (- e))"
proof -
  obtain n where n: "nat (- e) = Suc n" using assms(2) by (metis gr0_implies_Suc neg_0_less_iff_less zero_less_nat_eq)
  have "nat (- e - 1) = n" "nat e = 0" using n assms(2) by linarith+
  let ?q = "v div 10 ^ n" and ?r = "v mod 10 ^ n"
  have "?q \<le> v" by (rule div_le_dividend)
  then have wrap: "wrap64 (?q + d) = ?q + d" if "d \<le> 10" for d using assms(1) that by (intro wrap64_id) linarith
  have "v div 10 ^ Suc n = ?q div 10" "v mod 10 ^ Suc n = 10 ^ n * (?q mod 10) + ?r"
    by (simp_all add: div_mult2_eq mod_mult2_eq mult.commute [of 10])
  then have "div_ceil v (10 ^ Suc n) = ?q div 10 + (if ?q mod 10 = 0 \<and> ?r = 0 then 0 else 1)" by (simp add: div_ceil_eq)
  moreover have "(?q + (if ?r \<noteq> 0 then 10 else 9)) div 10 = ?q div 10 + (if ?q mod 10 = 0 \<and> ?r = 0 then 0 else 1)"
    using div_ceil_eq [of 10 ?q] by (simp add: div_ceil_def add.commute)
  ultimately show ?thesis
    using assms(2) \<open>nat (- e - 1) = n\<close> \<open>nat e = 0\<close> unfolding n canonicalize_drops_round_strict_def
    by (simp add: cut_tracking_div wrap div_ceil_def)
qed

lemma strict_is_ceiling_or_id:
  assumes "v + 10 \<le> u64_max" and "e \<le> 0"
  shows "canonicalize_drops_round_strict v e True = div_ceil v (10 ^ nat (- e))"
  using strict_is_ceiling [OF assms(1), of e] assms(2)
  by (cases "e = 0") (auto simp: canonicalize_drops_round_strict_def div_ceil_def)

lemma i64_id: "-9223372036854775808 \<le> z \<Longrightarrow> z < 9223372036854775808 \<Longrightarrow> i64 z = z"
  by (simp add: i64_def)

lemma drops_is_floor:
  assumes "v \<le> u64_max" and "e \<le> 0"
  shows "scale_to_drops v e = v div 10 ^ nat (- e)"
proof (cases "e \<le> -20")
  case True
  have "(10 :: nat) ^ 20 \<le> 10 ^ nat (- e)" using True by (intro power_increasing) simp_all
  moreover have "v < 10 ^ 20" using assms(1) by (simp add: u64_max_def)
  ultimately have "v < 10 ^ nat (- e)" by linarith
  then show ?thesis using True by (simp add: scale_to_drops_def)
qed (use assms(2) in \<open>simp add: scale_to_drops_def cut_drops_div\<close>)

lemma round_finish_down:
  assumes "v \<le> u64_max" and "e \<le> 0" and "v div 10 ^ nat (- e) < 9223372036854775808"
  shows "round_finish v e False True False strict = Inr (Xrp (int (v div 10 ^ nat (- e))))"
  using assms by (simp add: round_finish_def drops_is_floor u128_to_u64_def and_then_def i64_id u64_max_def)

lemma round_finish_up:
  assumes "v + 10 \<le> u64_max" and "e \<le> 0" and "0 < v" and "div_ceil v (10 ^ nat (- e)) < 9223372036854775808"
  shows "round_finish v e False True True True = Inr (Xrp (int (div_ceil v (10 ^ nat (- e)))))"
proof -
  have "\<not> div_ceil v (10 ^ nat (- e)) \<le> 0" using assms(3) by (subst div_ceil_le_iff) simp_all
  then show ?thesis
    using assms by (simp add: round_finish_def strict_is_ceiling_or_id u128_to_u64_def and_then_def i64_id u64_max_def)
qed

subsection \<open>Native products\<close>

fun amount_value :: "amount \<Rightarrow> rat" where
  "amount_value (Xrp d) = of_int d"
| "amount_value (Iou a) = iou_value a"

fun amount_wf :: "amount \<Rightarrow> bool" where
  "amount_wf (Xrp d) = (\<bar>d\<bar> \<le> int MAX_NATIVE_DROPS)"
| "amount_wf (Iou a) = iou_wf a"

lemma normalized_parts_spec:
  assumes "amount_wf a" and "0 < amount_value a"
  obtains m e where "normalized_parts a = (m, e, False)" and "MIN_MANTISSA \<le> m" and "m \<le> 10 ^ 17"
    and "amount_value a = mag m e" and "MAX_MANTISSA < m \<longrightarrow> e = 0" and "\<bar>e\<bar> \<le> 100"
proof (cases a)
  case (Xrp d)
  define n where "n = nat d"
  have n: "d = int n" "0 < n" "n \<le> 10 ^ 17" using assms Xrp by (simp_all add: n_def MAX_NATIVE_DROPS_def)
  obtain k where k: "scale_up n 0 = (n * 10 ^ k, - int k)" "k \<le> 15" "MIN_MANTISSA \<le> n * 10 ^ k"
    "n \<le> MAX_MANTISSA \<longrightarrow> n * 10 ^ k \<le> MAX_MANTISSA" "MIN_MANTISSA \<le> n \<longrightarrow> k = 0"
    using scale_up_spec [of n 15 0] n(2) by (auto simp: MIN_MANTISSA_def)
  have "MAX_MANTISSA < n * 10 ^ k \<Longrightarrow> k = 0" using k(4,5) by (simp add: iou_consts not_le [symmetric])
  moreover have "n * 10 ^ k \<le> 10 ^ 17" using k(4,5) n(3) by (cases "n \<le> MAX_MANTISSA") (simp_all add: iou_consts)
  moreover have "amount_value a = mag (n * 10 ^ k) (- int k)" using mag_shift_up [of n k "- int k"] by (simp add: Xrp n(1) mag_def)
  ultimately show thesis using k n by (intro that [of "n * 10 ^ k" "- int k"]) (simp_all add: Xrp)
next
  case (Iou x)
  then have x: "iou_wf x" "0 < iou_value x" using assms by simp_all
  then have nz: "\<not> iou_is_zero x" using iou_value_zero [of x] by (auto simp: iou_is_zero_def)
  have "iou_value x \<le> 0" if "negative x" using that by (simp add: iou_value_def)
  with x(2) have "\<not> negative x" by fastforce
  moreover obtain "MIN_MANTISSA \<le> mantissa x" "mantissa x \<le> MAX_MANTISSA" "scale_up (mantissa x) (exponent x) = (mantissa x, exponent x)"
    "-96 \<le> exponent x" "exponent x \<le> 80" using x(1) nz by (auto elim: iou_wf_cases)
  ultimately show thesis
    by (intro that [of "mantissa x" "exponent x"]) (auto simp: Iou iou_value_def iou_consts)
qed

lemma div_ceil_div_ceil:
  assumes "0 < a" and "0 < b"
  shows "div_ceil (div_ceil p a) b = div_ceil p (a * b)"
proof -
  have "div_ceil (div_ceil p a) b \<le> n \<longleftrightarrow> div_ceil p (a * b) \<le> n" for n
    using assms by (simp add: div_ceil_le_iff mult.assoc mult.commute [of b])
  then show ?thesis by (metis order.antisym order.refl)
qed

lemma ceiling_div_ceil:
  assumes "0 < d"
  shows "\<lceil>of_nat p / of_nat d :: rat\<rceil> = int (div_ceil p d)"
proof (rule ceiling_unique)
  let ?c = "div_ceil p d"
  have d: "(0 :: rat) < of_nat d" using assms by simp
  have "p \<le> ?c * d" using div_ceil_le_iff [OF assms, of p ?c] by simp
  then have "(of_nat p :: rat) \<le> of_nat (?c * d)" by (simp only: of_nat_le_iff)
  then show "of_nat p / of_nat d \<le> (of_int (int ?c) :: rat)" using d by (simp add: field_simps)
  show "of_int (int ?c) - 1 < (of_nat p / of_nat d :: rat)"
  proof (cases ?c)
    case (Suc c)
    then have "c * d < p" using div_ceil_le_iff [OF assms, of p c] by simp
    then have "(of_nat (c * d) :: rat) < of_nat p" by (simp only: of_nat_less_iff)
    then show ?thesis using d by (simp add: Suc field_simps)
  next
    case 0
    have "(0 :: rat) \<le> of_nat p / of_nat d" by simp
    then have "(-1 :: rat) < of_nat p / of_nat d" by linarith
    then show ?thesis by (simp add: 0)
  qed
qed

text \<open>The raw product and the exact one.\<close>

lemma positive_not_zero: "0 < amount_value a \<Longrightarrow> \<not> amount_is_zero a"
  using iou_value_zero by (cases a) (fastforce simp: iou_is_zero_def)+

lemma raw_product:
  assumes "MIN_MANTISSA \<le> m1" "m1 \<le> 10 ^ 17" "MIN_MANTISSA \<le> m2" "m2 \<le> 10 ^ 17"
    and "MAX_MANTISSA < m1 \<longrightarrow> e1 = 0" "MAX_MANTISSA < m2 \<longrightarrow> e2 = 0" and less: "mag m1 e1 * mag m2 e2 < 10 ^ 17"
  defines "e \<equiv> e1 + e2 + 14"
  shows "e \<le> 0" and "m1 * m2 \<le> 10 ^ 33" and "mag m1 e1 * mag m2 e2 = of_nat (m1 * m2) / of_nat (TEN_TO_14 * 10 ^ nat (- e))"
proof -
  have exact: "mag m1 e1 * mag m2 e2 = mag (m1 * m2) (e1 + e2)" by (simp add: mag_def power_int_add)
  have p: "10 ^ 30 \<le> m1 * m2" using mult_le_mono [OF assms(1,3)] by (simp add: MIN_MANTISSA_def)
  show e: "e \<le> 0"
  proof (rule ccontr)
    assume "\<not> e \<le> 0"
    then have "mag (10 ^ 30) (-13) \<le> mag (10 ^ 30) (e1 + e2)" by (intro mag_exponent_mono) (simp add: e_def)
    also have "\<dots> \<le> mag (m1 * m2) (e1 + e2)" by (rule mag_mono [OF p])
    finally show False using less by (simp add: exact) (simp add: mag_def power_int_def power_one_over)
  qed
  show "m1 * m2 \<le> 10 ^ 33"
  proof (cases "MAX_MANTISSA < m1 \<and> MAX_MANTISSA < m2")
    case True
    then show ?thesis using assms(5,6) e by (simp add: e_def)
  next
    case False
    then have "m1 * m2 \<le> 10 ^ 16 * 10 ^ 17 \<or> m1 * m2 \<le> 10 ^ 17 * 10 ^ 16"
      using assms(2,4) by (intro disj_forward [OF _ mult_le_mono mult_le_mono]) (auto simp: MAX_MANTISSA_def)
    then show ?thesis by simp
  qed
  have "(10 :: rat) powi (e1 + e2) = 1 / (10 ^ 14 * 10 ^ nat (- e))"
  proof -
    have "e1 + e2 = - int (14 + nat (- e))" using e by (simp add: e_def)
    then show ?thesis unfolding power_int_minus power_int_of_nat by (simp only: power_int_minus power_int_of_nat power_add inverse_eq_divide)
  qed
  then show "mag m1 e1 * mag m2 e2 = of_nat (m1 * m2) / of_nat (TEN_TO_14 * 10 ^ nat (- e))"
    unfolding exact by (simp add: mag_def TEN_TO_14_def)
qed

text \<open>For two positive amounts whose product is below the native maximum, the native directed products
  are exact: rounding down gives the floor, and the strict rounding up the ceiling, in drops.\<close>

theorem native_product_rounds:
  assumes "amount_wf a" and "amount_wf b" and "0 < amount_value a" and "0 < amount_value b"
    and "amount_value a * amount_value b < 10 ^ 17"
  shows "amount_mul_round a b True False = Inr (Xrp \<lfloor>amount_value a * amount_value b\<rfloor>)
    \<and> amount_mul_round_strict a b True True = Inr (Xrp \<lceil>amount_value a * amount_value b\<rceil>)"
proof -
  obtain m1 e1 where a: "normalized_parts a = (m1, e1, False)" "MIN_MANTISSA \<le> m1" "m1 \<le> 10 ^ 17"
    "amount_value a = mag m1 e1" "MAX_MANTISSA < m1 \<longrightarrow> e1 = 0" "\<bar>e1\<bar> \<le> 100" by (rule normalized_parts_spec [OF assms(1,3)])
  obtain m2 e2 where b: "normalized_parts b = (m2, e2, False)" "MIN_MANTISSA \<le> m2" "m2 \<le> 10 ^ 17"
    "amount_value b = mag m2 e2" "MAX_MANTISSA < m2 \<longrightarrow> e2 = 0" "\<bar>e2\<bar> \<le> 100" by (rule normalized_parts_spec [OF assms(2,4)])
  let ?e = "e1 + e2 + 14" and ?p = "m1 * m2"
  note raw = raw_product [OF a(2,3) b(2,3) a(5) b(5) assms(5) [unfolded a(4) b(4)]]
  define d where "d = TEN_TO_14 * 10 ^ nat (- ?e)"
  have x: "amount_value a * amount_value b = of_nat ?p / of_nat d" using raw(3) by (simp add: a(4) b(4) d_def)
  have d: "0 < d" by (simp add: d_def TEN_TO_14_def)
  have i: "i32 (i32 (e1 + e2) + 14) = ?e" using a(6) b(6) unfolding abs_le_iff by (subst (1 2) i32_id; linarith)
  note nz = positive_not_zero [OF assms(3)] positive_not_zero [OF assms(4)]
  have down: "?p div TEN_TO_14 \<le> 10 ^ 19" using div_le_mono [OF raw(2), of TEN_TO_14] by (simp add: TEN_TO_14_def)
  have bias: "(?p + (TEN_TO_14 - Suc 0)) div TEN_TO_14 = div_ceil ?p TEN_TO_14" by (simp add: div_ceil_def TEN_TO_14_def)
  have up: "div_ceil ?p TEN_TO_14 \<le> 10 ^ 19" using raw(2) by (simp add: div_ceil_le_iff TEN_TO_14_def)
  have "(of_nat ?p :: rat) < of_nat (10 ^ 17 * d)" using assms(5) d unfolding x by (simp add: divide_less_eq)
  then have lt: "?p < 10 ^ 17 * d" by (simp only: of_nat_less_iff)
  have "?p div TEN_TO_14 div 10 ^ nat (- ?e) = ?p div d" by (simp add: d_def div_mult2_eq)
  moreover have "?p div d < 10 ^ 17" using lt d by (simp add: div_less_iff_less_mult)
  ultimately have "round_finish (?p div TEN_TO_14) ?e False True False False = Inr (Xrp (int (?p div d)))"
    using round_finish_down [of "?p div TEN_TO_14" ?e False] down raw(1) by (simp add: u64_max_def)
  then have "amount_mul_round a b True False = Inr (Xrp (int (?p div d)))"
    using nz a(1) b(1) i down by (simp add: amount_mul_round_def mul_rounded_def u128_to_u64_def and_then_def u64_max_def)
  moreover have "round_finish (div_ceil ?p TEN_TO_14) ?e False True True True = Inr (Xrp (int (div_ceil ?p d)))"
  proof -
    have "div_ceil (div_ceil ?p TEN_TO_14) (10 ^ nat (- ?e)) = div_ceil ?p d" by (simp add: d_def div_ceil_div_ceil TEN_TO_14_def)
    moreover have "div_ceil ?p d \<le> 10 ^ 17" using lt d by (simp add: div_ceil_le_iff)
    moreover have "\<not> div_ceil ?p TEN_TO_14 \<le> 0" using a(2) b(2) by (subst div_ceil_le_iff) (simp_all add: TEN_TO_14_def MIN_MANTISSA_def)
    ultimately show ?thesis using round_finish_up [of "div_ceil ?p TEN_TO_14" ?e] up raw(1) by (simp add: u64_max_def)
  qed
  then have "amount_mul_round_strict a b True True = Inr (Xrp (int (div_ceil ?p d)))"
    using nz a(1) b(1) i up
    by (simp add: amount_mul_round_strict_def mul_rounded_def u128_to_u64_def and_then_def u64_max_def bias)
  ultimately show ?thesis unfolding x ceiling_div_ceil [OF d] floor_divide_of_nat_eq by simp
qed

theorem native_product_rounds_witness:
  "amount_mul_round (Iou two_fifths) (Xrp 7) True False = Inr (Xrp 2) \<and> amount_mul_round_strict (Iou two_fifths) (Xrp 7) True True = Inr (Xrp 3)"
proof -
  have v: "iou_value two_fifths = 2 / 5" by (simp add: two_fifths_def iou_value_def mag_def power_int_def power_one_over)
  have "\<lfloor>2 / 5 * 7 :: rat\<rfloor> = 2" "\<lceil>2 / 5 * 7 :: rat\<rceil> = 3" by (simp_all add: floor_eq_iff ceiling_eq_iff)
  then show ?thesis using native_product_rounds [of "Iou two_fifths" "Xrp 7"] unfolding amount_value.simps amount_wf.simps v
    by (simp add: MAX_NATIVE_DROPS_def)
qed

end
