(* ===== verification/Quality.thy ===== *)
theory Quality
  imports Iou_Arithmetic
begin

unbundle bit_operations_syntax

text \<open>
  Packed exchange rates (\<open>amount/src/quality.rs\<close>; the distance test, which computes with \<open>Number\<close>, is in
  the theory \<open>Number\<close>): a rate is a 64-bit number with the biased exponent in the high eight bits and
  the mantissa in the low 56. Packing is proved to be undone by unpacking, and the integer order of
  packed rates to be the order of the rates.
\<close>

subsection \<open>Definitions\<close>

definition pack_rate :: "iou_amount \<Rightarrow> nat" where
  "pack_rate rate =
     (let exp_biased = nat ((exponent rate + 100) mod 18446744073709551616)
      in take_bit 64 (push_bit 56 exp_biased) OR mantissa rate)"

definition get_rate_impl :: "iou_amount \<Rightarrow> iou_amount \<Rightarrow> bool \<Rightarrow> nat result" where
  "get_rate_impl offer_in offer_out round_even =
     (if iou_is_zero offer_out then Inr 0
      else and_then (if round_even then iou_divide_round_even offer_in offer_out else iou_divide offer_in offer_out)
        (\<lambda>rate. if iou_is_zero rate then Inr 0 else Inr (pack_rate rate)))"

definition get_rate :: "iou_amount \<Rightarrow> iou_amount \<Rightarrow> nat result" where
  "get_rate offer_in offer_out = get_rate_impl offer_in offer_out False"

definition get_rate_round_even :: "iou_amount \<Rightarrow> iou_amount \<Rightarrow> nat result" where
  "get_rate_round_even offer_in offer_out = get_rate_impl offer_in offer_out True"

definition from_rate :: "nat \<Rightarrow> iou_amount result" where
  "from_rate rate =
     (if rate = 0 then Inr iou_ZERO
      else iou_from_parts (rate AND 0x00FFFFFFFFFFFFFF) (int (drop_bit 56 rate) - 100) False)"

definition K_MOD :: "nat list" where
  "K_MOD = [10000000000000000, 1000000000000000, 100000000000000, 10000000000000, 1000000000000,
     100000000000, 10000000000, 1000000000, 100000000, 10000000, 1000000, 100000, 10000, 1000, 100, 10, 1]"

definition round_quality :: "nat \<Rightarrow> nat \<Rightarrow> nat" where
  "round_quality rate digits =
     (if rate = 0 \<or> 16 \<le> digits then rate
      else
        (let m = K_MOD ! digits;
             exponent = drop_bit 56 rate;
             mantissa = (rate AND 0x00FFFFFFFFFFFFFF) + (m - 1);
             mantissa = mantissa - mantissa mod m
         in take_bit 64 (push_bit 56 exponent) OR mantissa))"

definition is_better_quality :: "nat \<Rightarrow> nat \<Rightarrow> bool" where
  "is_better_quality a b = (if a = 0 then False else if b = 0 then True else a < b)"

definition offer_quality :: "iou_amount \<Rightarrow> iou_amount \<Rightarrow> nat result" where
  "offer_quality taker_pays taker_gets = get_rate taker_pays taker_gets"

definition offer_quality_round_even :: "iou_amount \<Rightarrow> iou_amount \<Rightarrow> nat result" where
  "offer_quality_round_even taker_pays taker_gets = get_rate_round_even taker_pays taker_gets"

subsection \<open>Packing\<close>

lemma pack_bits:
  assumes "e < 256" and "m < 2 ^ 56"
  shows "take_bit 64 (push_bit 56 e) OR m = e * 2 ^ 56 + (m :: nat)"
proof -
  have "push_bit 56 e < 2 ^ 64" using assms(1) by (simp add: push_bit_eq_mult)
  then have "take_bit 64 (push_bit 56 e) = push_bit 56 e" by (simp only: take_bit_nat_eq_self_iff)
  moreover have "push_bit 56 e OR m = push_bit 56 e + m"
  proof (rule disjunctive_add_eq_or [symmetric])
    have "take_bit 56 m = m" using assms(2) by (simp only: take_bit_nat_eq_self_iff)
    then have "push_bit 56 e AND m = push_bit 56 e AND take_bit 56 m" by simp
    also have "\<dots> = 0" by (rule bit_eqI) (auto simp: bit_simps)
    finally show "push_bit 56 e AND m = 0" .
  qed
  ultimately show ?thesis by (simp add: push_bit_eq_mult)
qed

lemma unpack_bits: "(r :: nat) AND 0x00FFFFFFFFFFFFFF = r mod 2 ^ 56" "drop_bit 56 r = r div 2 ^ 56"
proof -
  have "(0x00FFFFFFFFFFFFFF :: nat) = mask 56" by (simp add: mask_eq_exp_minus_1)
  then show "r AND 0x00FFFFFFFFFFFFFF = r mod 2 ^ 56" by (simp only: take_bit_eq_mask [symmetric] take_bit_eq_mod)
qed (simp add: drop_bit_eq_div)

lemma pack_rate_value:
  assumes "iou_wf q" and "\<not> iou_is_zero q"
  shows "pack_rate q = nat (exponent q + 100) * 2 ^ 56 + mantissa q" and "mantissa q < 2 ^ 56"
    and "0 < pack_rate q" and "nat (exponent q + 100) < 256" and "0 \<le> exponent q + 100"
proof -
  have q: "MIN_MANTISSA \<le> mantissa q" "mantissa q \<le> MAX_MANTISSA" "-96 \<le> exponent q" "exponent q \<le> 80"
    using assms by (auto elim: iou_wf_cases)
  then have e: "nat ((exponent q + 100) mod 18446744073709551616) = nat (exponent q + 100)" "nat (exponent q + 100) < 256" by simp_all
  show m: "mantissa q < 2 ^ 56" using q(2) by (simp add: MAX_MANTISSA_def)
  show pack: "pack_rate q = nat (exponent q + 100) * 2 ^ 56 + mantissa q"
    unfolding pack_rate_def Let_def e(1) by (rule pack_bits [OF e(2) m])
  show "0 < pack_rate q" unfolding pack using q(1) by (simp add: MIN_MANTISSA_def)
  show "nat (exponent q + 100) < 256" "0 \<le> exponent q + 100" using q by simp_all
qed

lemma from_rate_pack:
  assumes "iou_wf q" and "\<not> iou_is_zero q"
  shows "from_rate (pack_rate q) = Inr (iou_abs q)"
proof -
  note p = pack_rate_value [OF assms]
  have "pack_rate q mod 2 ^ 56 = mantissa q" "int (pack_rate q div 2 ^ 56) - 100 = exponent q"
    using p(2,5) unfolding p(1) by simp_all
  moreover have "iou_from_parts (mantissa q) (exponent q) False = Inr (iou_abs q)"
    using assms by (auto elim!: iou_wf_cases simp: from_parts_settle settle_def iou_abs_def iou_consts)
  ultimately show ?thesis using p(3) by (simp only: from_rate_def unpack_bits) simp
qed

subsection \<open>Rates of offers\<close>

lemma rate_cases:
  assumes "iou_wf a" and "iou_wf b" and "get_rate_impl a b round_even = Inr r"
  obtains (zero) "r = 0" "from_rate r = Inr iou_ZERO"
    | (rate) q where "iou_wf q" and "\<not> iou_is_zero q" and "r = pack_rate q" and "from_rate r = Inr (iou_abs q)"
proof (cases "r = 0")
  case True
  then show thesis by (intro zero) (simp_all add: from_rate_def)
next
  case False
  have div: "(if round_even then iou_divide_round_even a b else iou_divide a b) = iou_divide_canonical a b round_even"
    by (simp add: iou_divide_round_even_def iou_divide_def)
  obtain q where q: "iou_divide_canonical a b round_even = Inr q" "\<not> iou_is_zero q" "r = pack_rate q" "\<not> iou_is_zero b"
    using assms(3) False unfolding get_rate_impl_def div and_then_def by (auto split: if_splits sum.splits)
  then have "iou_wf q" using divide_canonical_accurate [OF assms(1,2) q(4), of round_even] by (simp add: accurate_def)
  then show thesis using q(2,3) from_rate_pack [of q] by (intro rate) simp_all
qed

text \<open>C38: Unpacking a rate gives back the absolute value of the quotient it was packed from, which is
  the quotient itself when it is not negative, as for the amounts of an offer. The sign is not packed.\<close>

theorem rate_roundtrip:
  assumes "iou_wf a" and "iou_wf b" and "\<not> iou_is_zero b" and "iou_divide_canonical a b round_even = Inr q"
  shows "\<exists>r. get_rate_impl a b round_even = Inr r \<and> from_rate r = Inr (iou_abs q)
    \<and> (\<not> negative q \<longrightarrow> from_rate r = Inr q)"
proof -
  have wf: "iou_wf q" using divide_canonical_accurate [OF assms(1-3), of round_even] assms(4) by (simp add: accurate_def)
  have "get_rate_impl a b round_even = Inr (if iou_is_zero q then 0 else pack_rate q)"
    using assms(3,4) by (auto simp: get_rate_impl_def iou_divide_round_even_def iou_divide_def and_then_def)
  moreover have "from_rate 0 = Inr (iou_abs q)" if "iou_is_zero q"
    using that wf by (auto elim!: iou_wf_cases simp: from_rate_def iou_abs_def iou_ZERO_def)
  moreover have "iou_abs q = q" if "\<not> negative q" using that by (simp add: iou_abs_def)
  ultimately show ?thesis using from_rate_pack [OF wf] by auto
qed

theorem rate_roundtrip_witness:
  "\<exists>r. get_rate_impl two_fifths two_fifths False = Inr r \<and> from_rate r = Inr one"
proof -
  have up: "scale_up (mantissa two_fifths) (exponent two_fifths) = (4000000000000000, -16)"
    by (simp add: two_fifths_def scale_up.simps MIN_MANTISSA_def)
  have "digits_over 100000000000000005 = 2" by (simp add: digits_over_Suc digits_over_0 MAX_MANTISSA_def)
  then have "iou_from_parts 100000000000000005 (-17) False = Inr one"
    by (simp add: iou_from_parts_def iou_normalize_def scale_up.simps scale_down_spec and_then_def iou_consts one_def)
  then have "iou_divide_canonical two_fifths two_fifths False = Inr one"
    unfolding iou_divide_canonical_def up by (simp add: two_fifths_def iou_is_zero_def i32_def TEN_TO_17_def u64_max_def)
  moreover have "\<not> iou_is_zero two_fifths" by (simp add: two_fifths_def iou_is_zero_def)
  moreover have "\<not> negative one" by (simp add: one_def)
  ultimately show ?thesis using rate_roundtrip [of two_fifths two_fifths False one] by auto
qed

lemma high_bits_less: "e < e' \<Longrightarrow> m < 2 ^ 56 \<Longrightarrow> e * 2 ^ 56 + m < e' * 2 ^ 56 + (m' :: nat)"
  by simp

lemma pack_order:
  assumes "iou_wf p" and "\<not> iou_is_zero p" and "iou_wf q" and "\<not> iou_is_zero q"
  shows "pack_rate p < pack_rate q \<longleftrightarrow> mag (mantissa p) (exponent p) < mag (mantissa q) (exponent q)"
proof -
  note p = pack_rate_value [OF assms(1,2)] and q = pack_rate_value [OF assms(3,4)]
  have r: "MIN_MANTISSA \<le> mantissa p" "mantissa p \<le> MAX_MANTISSA" "MIN_MANTISSA \<le> mantissa q" "mantissa q \<le> MAX_MANTISSA"
    using assms by (auto elim: iou_wf_cases)
  consider (lt) "exponent p < exponent q" | (gt) "exponent q < exponent p" | (eq) "exponent p = exponent q" by linarith
  then show ?thesis
  proof cases
    case lt
    then have "nat (exponent p + 100) < nat (exponent q + 100)" using p(5) by simp
    then have "pack_rate p < pack_rate q" using p(2) unfolding p(1) q(1) by (rule high_bits_less)
    then show ?thesis using mag_apart [OF r(2,3) lt] by simp
  next
    case gt
    then have "nat (exponent q + 100) < nat (exponent p + 100)" using q(5) by simp
    then have "pack_rate q < pack_rate p" using q(2) unfolding p(1) q(1) by (rule high_bits_less)
    then show ?thesis using mag_apart [OF r(4,1) gt] by simp
  next
    case eq
    then show ?thesis using mag_less [of "mantissa p" "mantissa q" "exponent q"] mag_mono [of "mantissa q" "mantissa p" "exponent q"]
      unfolding p(1) q(1) by (cases "mantissa p < mantissa q") auto
  qed
qed

text \<open>A better quality is a smaller rate: the order of two packed rates is the numeric order of the
  rates they stand for, and a rate of zero is worse than every other.\<close>

theorem better_quality_is_smaller_rate:
  assumes "iou_wf a" and "iou_wf b" and "iou_wf c" and "iou_wf d"
    and "get_rate_impl a b round_even = Inr r" and "get_rate_impl c d round_even = Inr s"
  shows "\<exists>x y. from_rate r = Inr x \<and> from_rate s = Inr y
    \<and> (is_better_quality r s \<longleftrightarrow> 0 < iou_value x \<and> (iou_value y = 0 \<or> iou_value x < iou_value y))"
proof -
  have z: "iou_value iou_ZERO = 0" by (rule iou_value_zero) (simp add: iou_ZERO_def)
  have v: "iou_value (iou_abs q) = mag (mantissa q) (exponent q)" for q by (simp add: iou_value_def iou_abs_def)
  have pos: "0 < mag (mantissa q) (exponent q)" if "\<not> iou_is_zero q" for q using that by (intro mag_pos) (simp add: iou_is_zero_def)
  show ?thesis
    using assms(1,2,5)
  proof (cases rule: rate_cases)
    case zero
    show ?thesis using assms(3,4,6) by (cases rule: rate_cases) (use zero z in \<open>auto simp: is_better_quality_def\<close>)
  next
    case p: (rate p)
    show ?thesis using assms(3,4,6)
    proof (cases rule: rate_cases)
      case zero
      then show ?thesis using p z v pos pack_rate_value(3) [OF p(1,2)] by (auto simp: is_better_quality_def)
    next
      case q: (rate q)
      then show ?thesis
        using p v pos [OF p(2)] pos [OF q(2)] pack_rate_value(3) [OF p(1,2)] pack_rate_value(3) [OF q(1,2)] pack_order [OF p(1,2) q(1,2)]
        by (simp add: is_better_quality_def)
    qed
  qed
qed

theorem better_quality_is_smaller_rate_witness:
  "\<exists>r s x y. get_rate_impl two_fifths minus_seven True = Inr r \<and> get_rate_impl minus_seven two_fifths True = Inr s
     \<and> from_rate r = Inr x \<and> from_rate s = Inr y
     \<and> (is_better_quality r s \<longleftrightarrow> 0 < iou_value x \<and> (iou_value y = 0 \<or> iou_value x < iou_value y))"
proof -
  have ok: "\<exists>r. get_rate_impl a b True = Inr r" if "iou_wf a" "iou_wf b" "\<not> iou_is_zero b" "\<bar>iou_value a / iou_value b\<bar> \<le> 100" for a b
  proof (cases "iou_divide_canonical a b True")
    case (Inl err)
    have "(100 :: rat) < mag MAX_MANTISSA MAX_EXPONENT" by (simp add: mag_def iou_consts MAX_EXPONENT_def power_int_def)
    then show ?thesis using Inl divide_canonical_accurate [OF that(1-3), of True] that(4) by (simp add: accurate_def)
  next
    case (Inr q)
    then show ?thesis using that(3) by (simp add: get_rate_impl_def iou_divide_round_even_def and_then_def)
  qed
  have nz: "\<not> iou_is_zero two_fifths" "\<not> iou_is_zero minus_seven" by (simp_all add: two_fifths_def minus_seven_def iou_is_zero_def)
  have v: "iou_value two_fifths = 2 / 5" "iou_value minus_seven = -7"
    by (simp_all add: two_fifths_def minus_seven_def iou_value_def mag_def power_int_def power_one_over)
  have "\<bar>iou_value two_fifths / iou_value minus_seven\<bar> \<le> 100" "\<bar>iou_value minus_seven / iou_value two_fifths\<bar> \<le> 100"
    unfolding v by simp_all
  then obtain r s where "get_rate_impl two_fifths minus_seven True = Inr r" "get_rate_impl minus_seven two_fifths True = Inr s"
    using ok [of two_fifths minus_seven] ok [of minus_seven two_fifths] nz by auto
  then show ?thesis using better_quality_is_smaller_rate [of two_fifths minus_seven minus_seven two_fifths True r s] by simp
qed

subsection \<open>Tick sizes\<close>

lemma K_MOD_nth:
  assumes "d < 16"
  shows "K_MOD ! d = 10 ^ (16 - d)"
proof -
  have "K_MOD = map (\<lambda>d. 10 ^ (16 - d)) [0..<17]" by (simp add: K_MOD_def upt_rec)
  moreover have "map (\<lambda>d. 10 ^ (16 - d)) [0..<17] ! d = (10 :: nat) ^ (16 - (0 + d))" using assms by (intro nth_map_upt) simp
  ultimately show ?thesis by (simp only: add_0)
qed

lemma round_up_multiple:
  fixes m t :: nat
  assumes "0 < t"
  defines "q \<equiv> (m + (t - 1)) - (m + (t - 1)) mod t"
  shows "m \<le> q" and "q < m + t" and "t dvd q" and "t dvd m \<Longrightarrow> q = m"
proof -
  have "(m + (t - 1)) mod t < t" using assms(1) by simp
  then show "m \<le> q" "q < m + t" using assms(1) unfolding q_def by linarith+
  show "t dvd q" unfolding q_def by (rule dvd_minus_mod)
  assume "t dvd m"
  then obtain k where "m = t * k" by blast
  moreover have "(t * k + (t - 1)) mod t = t - 1" using assms(1) by (metis mod_mult_self4 mod_less diff_less zero_less_one)
  ultimately show "q = m" by (simp add: q_def)
qed

text \<open>Rounding a packed rate to a tick size keeps the exponent and moves the mantissa up to the next
  multiple of the tick, and does nothing to a rate already on the grid.\<close>

theorem round_quality_to_tick:
  assumes "digits < 16" and "rate < 2 ^ 64" and "rate mod 2 ^ 56 \<le> MAX_MANTISSA" and "0 < rate"
  defines "tick \<equiv> 10 ^ (16 - digits)" and "r \<equiv> round_quality rate digits"
  shows "r div 2 ^ 56 = rate div 2 ^ 56 \<and> tick dvd r mod 2 ^ 56 \<and> rate \<le> r \<and> r < rate + tick \<and> round_quality r digits = r"
proof -
  define e where "e = rate div 2 ^ 56"
  define q where "q m = (m + (tick - 1)) - (m + (tick - 1)) mod tick" for m :: nat
  have t: "0 < tick" "tick \<le> 10 ^ 16" unfolding tick_def by (simp, intro power_increasing) simp_all
  have e: "e < 256" using assms(2) by (simp add: e_def div_less_iff_less_mult)
  let ?m = "rate mod 2 ^ 56"
  note q = round_up_multiple [OF t(1), folded q_def]
  have round: "round_quality (e * 2 ^ 56 + m) digits = e * 2 ^ 56 + q m" if "0 < e * 2 ^ 56 + m" "m < 2 ^ 56" "q m < 2 ^ 56" for m
  proof -
    have dm: "(e * 2 ^ 56 + m) div 2 ^ 56 = e" "(e * 2 ^ 56 + m) mod 2 ^ 56 = m" using that(2) by simp_all
    show ?thesis
      unfolding round_quality_def Let_def unpack_bits dm K_MOD_nth [OF assms(1)] tick_def [symmetric] q_def [symmetric] pack_bits [OF e that(3)]
      using that(1) assms(1) by auto
  qed
  have rate: "rate = e * 2 ^ 56 + ?m" by (simp add: e_def)
  have lt: "q ?m < 2 ^ 56" using q(2) [of ?m] t(2) assms(3) by (simp add: MAX_MANTISSA_def)
  have pos: "0 < e * 2 ^ 56 + ?m" using assms(4) rate by linarith
  have "?m < 2 ^ 56" by simp
  then have "round_quality (e * 2 ^ 56 + ?m) digits = e * 2 ^ 56 + q ?m" using lt by (intro round [OF pos])
  then have r: "r = e * 2 ^ 56 + q ?m" unfolding r_def using rate by simp
  have parts: "r div 2 ^ 56 = e" "r mod 2 ^ 56 = q ?m" using lt unfolding r by simp_all
  have bounds: "rate \<le> r" "r < rate + tick" using q(1,2) [of ?m] rate unfolding r by linarith+
  have "q (q ?m) = q ?m" using q(3,4) by simp
  have pos': "0 < e * 2 ^ 56 + q ?m" using assms(4) bounds(1) unfolding r by linarith
  have "round_quality r digits = r" using round [OF pos' lt] lt \<open>q (q ?m) = q ?m\<close> by (simp add: r)
  then show ?thesis using q(3) [of ?m] bounds parts unfolding e_def by (simp only: simp_thms)
qed

theorem round_quality_to_tick_witness:
  "let rate = 85 * 2 ^ 56 + 1234567890123456; r = round_quality rate 5 in rate \<le> r \<and> 10 ^ 11 dvd r mod 2 ^ 56"
  using round_quality_to_tick [of 5 "85 * 2 ^ 56 + 1234567890123456"] by (simp add: MAX_MANTISSA_def Let_def)

end
