(* ===== verification/Iou_Decimal.thy ===== *)
theory Iou_Decimal
  imports Iou_Amount
begin

text \<open>
  Decimal strings of issued-currency amounts (\<open>from_decimal_string\<close>, \<open>to_decimal_string\<close> and the
  \<open>Display\<close> instance of \<open>amount/src/iou.rs\<close>): strings are lists of characters below code point 256,
  the operations of \<open>str\<close> the two functions use are written out, and printing is proved to be
  inverted by parsing on every canonical amount.
\<close>

subsection \<open>Characters and digits\<close>

definition is_ascii_digit :: "char \<Rightarrow> bool" where
  "is_ascii_digit c \<longleftrightarrow> 48 \<le> (of_char c :: nat) \<and> of_char c \<le> (57 :: nat)"

definition is_whitespace :: "char \<Rightarrow> bool" where
  "is_whitespace c \<longleftrightarrow> of_char c \<in> {9, 10, 11, 12, 13, 32, 133, 160 :: nat}"

definition digit_char :: "nat \<Rightarrow> char" where
  "digit_char d = char_of (48 + d)"

definition digit_value :: "char \<Rightarrow> nat" where
  "digit_value c = of_char c - 48"

text \<open>\<open>u64::to_string\<close> and the value \<open>str::parse\<close> reads.\<close>

fun dec_string :: "nat \<Rightarrow> string" where
  "dec_string n = (if n < 10 then [digit_char n] else dec_string (n div 10) @ [digit_char (n mod 10)])"

declare dec_string.simps [simp del]

definition dec_value :: "string \<Rightarrow> nat" where
  "dec_value = foldl (\<lambda>acc c. 10 * acc + digit_value c) 0"

subsection \<open>Operations on strings\<close>

definition trim_start :: "(char \<Rightarrow> bool) \<Rightarrow> string \<Rightarrow> string" where
  "trim_start P s = dropWhile P s"

definition trim_end :: "(char \<Rightarrow> bool) \<Rightarrow> string \<Rightarrow> string" where
  "trim_end P s = rev (dropWhile P (rev s))"

definition trim_both :: "string \<Rightarrow> string" where
  "trim_both s = trim_end is_whitespace (trim_start is_whitespace s)"

definition split_once :: "char \<Rightarrow> string \<Rightarrow> (string \<times> string) option" where
  "split_once c s = (if c \<in> set s then Some (takeWhile (\<lambda>x. x \<noteq> c) s, tl (dropWhile (\<lambda>x. x \<noteq> c) s)) else None)"

definition starts_with :: "char \<Rightarrow> string \<Rightarrow> bool" where
  "starts_with c s \<longleftrightarrow> (case s of [] \<Rightarrow> False | x # _ \<Rightarrow> x = c)"

subsection \<open>Parsing and printing\<close>

definition iou_from_decimal_string :: "string \<Rightarrow> iou_amount result" where
  "iou_from_decimal_string str =
     (let s = trim_both str;
          neg = starts_with CHR ''-'' s;
          body = trim_start (\<lambda>c. c = CHR ''-'' \<or> c = CHR ''+'') s;
          (int_part, frac_part) = (case split_once CHR ''.'' body of None \<Rightarrow> (body, []) | Some p \<Rightarrow> p) in
      if int_part = [] \<and> frac_part = [] then Inl Overflow
      else if \<not> list_all is_ascii_digit (int_part @ frac_part) then Inl Overflow
      else
        (let trimmed = trim_start (\<lambda>c. c = CHR ''0'') (int_part @ frac_part) in
         if trimmed = [] then Inr iou_ZERO
         else
           (let kept = take (min (length trimmed) 17) trimmed;
                dropped = length trimmed - length kept;
                m = dec_value kept in
            if u64_max < m then Inl Overflow
            else iou_from_parts m (i32 (i32 (- i32 (int (length frac_part))) + i32 (int dropped))) neg)))"

definition iou_to_decimal_string :: "iou_amount \<Rightarrow> string" where
  "iou_to_decimal_string a =
     (if iou_is_zero a then ''0''
      else
        (let sign = (if negative a then ''-'' else []);
             digits = dec_string (mantissa a) in
         if 0 \<le> exponent a then sign @ digits @ replicate (nat (exponent a)) CHR ''0''
         else
           (let frac = nat (- exponent a);
                body =
                  (if length digits \<le> frac then
                     ''0.'' @ trim_end (\<lambda>c. c = CHR ''0'') (replicate (frac - length digits) CHR ''0'' @ digits)
                   else
                     (let point = length digits - frac;
                          int_part = take point digits;
                          frac_part = trim_end (\<lambda>c. c = CHR ''0'') (drop point digits)
                      in if frac_part = [] then int_part else int_part @ ''.'' @ frac_part))
            in sign @ body)))"

definition iou_display :: "iou_amount \<Rightarrow> string" where
  "iou_display a =
     (if iou_is_zero a then ''0''
      else (if negative a then ''-'' else []) @ dec_string (mantissa a) @ ''e''
        @ (if exponent a < 0 then ''-'' else []) @ dec_string (nat \<bar>exponent a\<bar>))"

subsection \<open>Digits\<close>

lemma digit_char_simps [simp]:
  assumes "d < 10"
  shows "is_ascii_digit (digit_char d)" and "digit_value (digit_char d) = d" and "digit_char d = CHR ''0'' \<longleftrightarrow> d = 0"
proof -
  have c: "(of_char (digit_char d) :: nat) = 48 + d" using assms by (simp add: digit_char_def)
  then show "is_ascii_digit (digit_char d)" "digit_value (digit_char d) = d"
    using assms by (simp_all add: is_ascii_digit_def digit_value_def)
  have "(of_char CHR ''0'' :: nat) = 48" by simp
  then show "digit_char d = CHR ''0'' \<longleftrightarrow> d = 0" using c by (metis add_cancel_right_right of_char_eq_iff)
qed

lemma is_digit_0 [simp]: "is_ascii_digit CHR ''0''" "digit_value CHR ''0'' = 0"
  by (simp_all add: is_ascii_digit_def digit_value_def)

lemma zeros_digits [simp]: "list_all is_ascii_digit (replicate n CHR ''0'')"
  by (simp add: list_all_iff)

lemma digit_not_special:
  assumes "is_ascii_digit c"
  shows "\<not> is_whitespace c" and "c \<noteq> CHR ''-''" and "c \<noteq> CHR ''+''" and "c \<noteq> CHR ''.''"
  using assms by (auto simp: is_ascii_digit_def is_whitespace_def)

lemma dec_value_snoc: "dec_value (s @ [c]) = 10 * dec_value s + digit_value c"
  by (simp add: dec_value_def)

lemma dec_value_Nil [simp]: "dec_value [] = 0"
  by (simp add: dec_value_def)

lemma dec_value_zeros: "dec_value (s @ replicate n CHR ''0'') = dec_value s * 10 ^ n"
proof (induction n)
  case (Suc n)
  have "s @ replicate (Suc n) CHR ''0'' = (s @ replicate n CHR ''0'') @ [CHR ''0'']"
    by (simp add: replicate_append_same)
  then show ?case using Suc by (simp only: dec_value_snoc) simp
qed simp

lemma dec_string_digits: "list_all is_ascii_digit (dec_string n) \<and> dec_value (dec_string n) = n
  \<and> dec_string n \<noteq> [] \<and> (0 < n \<longrightarrow> hd (dec_string n) \<noteq> CHR ''0'')"
proof (induction n rule: dec_string.induct)
  case (1 n)
  show ?case
  proof (cases "n < 10")
    case True
    then show ?thesis by (simp add: dec_string.simps [of n] dec_value_def)
  next
    case False
    then have "list_all is_ascii_digit (dec_string (n div 10)) \<and> dec_value (dec_string (n div 10)) = n div 10
      \<and> dec_string (n div 10) \<noteq> [] \<and> (0 < n div 10 \<longrightarrow> hd (dec_string (n div 10)) \<noteq> CHR ''0'')" by (rule 1)
    moreover have "dec_string n = dec_string (n div 10) @ [digit_char (n mod 10)]" using False by (simp add: dec_string.simps [of n])
    ultimately show ?thesis using False by (simp add: dec_value_snoc)
  qed
qed

lemma dec_string_length: "10 ^ k \<le> n \<Longrightarrow> n < 10 ^ Suc k \<Longrightarrow> length (dec_string n) = Suc k"
proof (induction k arbitrary: n)
  case 0
  then show ?case by (simp add: dec_string.simps [of n])
next
  case (Suc k)
  have ten: "(10 :: nat) \<le> 10 * 10 ^ k" by simp
  then have "10 \<le> n" using Suc.prems(1) unfolding power_Suc by (rule le_trans)
  moreover have "10 ^ k \<le> n div 10" "n div 10 < 10 ^ Suc k"
    using Suc.prems by (simp_all add: less_eq_div_iff_mult_less_eq div_less_iff_less_mult mult.commute)
  then have "length (dec_string (n div 10)) = Suc k" by (rule Suc.IH)
  ultimately show ?case by (simp add: dec_string.simps [of n])
qed

text \<open>Stripping trailing zeros only divides by a power of ten.\<close>

lemma trim_end_zeros:
  obtains z where "s = trim_end (\<lambda>c. c = CHR ''0'') s @ replicate z CHR ''0''"
proof -
  have "rev s = takeWhile (\<lambda>c. c = CHR ''0'') (rev s) @ dropWhile (\<lambda>c. c = CHR ''0'') (rev s)" by simp
  moreover have "takeWhile (\<lambda>c. c = CHR ''0'') (rev s) = replicate (length (takeWhile (\<lambda>c. c = CHR ''0'') (rev s))) CHR ''0''"
    by (rule replicate_eqI) (auto dest: set_takeWhileD)
  ultimately have "s = trim_end (\<lambda>c. c = CHR ''0'') s @ rev (replicate (length (takeWhile (\<lambda>c. c = CHR ''0'') (rev s))) CHR ''0'')"
    unfolding trim_end_def by (metis rev_append rev_rev_ident)
  then show thesis by (intro that) simp
qed

subsection \<open>What the parser reads\<close>

lemma trim_both_id:
  assumes "s \<noteq> []" and "\<not> is_whitespace (hd s)" and "\<not> is_whitespace (last s)"
  shows "trim_both s = s"
proof -
  have "dropWhile is_whitespace s = s" using assms(1,2) by (cases s) simp_all
  moreover have "dropWhile is_whitespace (rev s) = rev s" using assms(1,3) by (cases s rule: rev_cases) simp_all
  ultimately show ?thesis by (simp add: trim_both_def trim_start_def trim_end_def)
qed

definition written :: "bool \<Rightarrow> string \<Rightarrow> string \<Rightarrow> string" where
  "written neg i f = (if neg then ''-'' else []) @ i @ (if f = [] then [] else ''.'' @ f)"

definition parsed :: "bool \<Rightarrow> string \<Rightarrow> string \<Rightarrow> iou_amount result" where
  "parsed neg i f =
     (let trimmed = dropWhile (\<lambda>c. c = CHR ''0'') (i @ f); kept = take 17 trimmed in
      if trimmed = [] then Inr iou_ZERO
      else if u64_max < dec_value kept then Inl Overflow
      else iou_from_parts (dec_value kept) (i32 (i32 (- i32 (int (length f))) + i32 (int (length trimmed - length kept)))) neg)"

lemma take_min_length: "take (min (length s) n) s = take n s"
  by (simp add: min_def)

lemma parse_written:
  assumes i: "list_all is_ascii_digit i" "i \<noteq> []" and f: "list_all is_ascii_digit f"
  shows "iou_from_decimal_string (written neg i f) = parsed neg i f"
proof -
  let ?s = "written neg i f" and ?b = "i @ (if f = [] then [] else ''.'' @ f)"
  have hd: "is_ascii_digit (hd i)" using i by (cases i) simp_all
  have "is_ascii_digit (last (i @ f))" using i f by (metis append_is_Nil_conv last_in_set list_all_append list_all_iff)
  then have "\<not> is_whitespace (last ?s)" using i(2) by (simp add: written_def last_append digit_not_special split: if_splits)
  moreover have "\<not> is_whitespace (hd ?s)" using i(2) hd digit_not_special(1) by (simp add: written_def is_whitespace_def)
  ultimately have trim: "trim_both ?s = ?s" using i(2) by (intro trim_both_id) (simp_all add: written_def)
  have hdc: "hd i \<noteq> CHR ''-''" "hd i \<noteq> CHR ''+''" using digit_not_special [OF hd] by simp_all
  then have body: "trim_start (\<lambda>c. c = CHR ''-'' \<or> c = CHR ''+'') ?s = ?b" and neg: "starts_with CHR ''-'' ?s = neg"
    using i(2) by (cases i; simp add: written_def trim_start_def starts_with_def)+
  have dot: "CHR ''.'' \<notin> set i" using i(1) digit_not_special(4) by (auto simp: list_all_iff)
  have parts: "(case split_once CHR ''.'' ?b of None \<Rightarrow> (?b, []) | Some p \<Rightarrow> p) = (i, f)"
  proof (cases "f = []")
    case False
    have "takeWhile (\<lambda>x. x \<noteq> CHR ''.'') (i @ CHR ''.'' # f) = i" "dropWhile (\<lambda>x. x \<noteq> CHR ''.'') (i @ CHR ''.'' # f) = CHR ''.'' # f"
      using dot by (auto simp: takeWhile_append dropWhile_append)
    then show ?thesis using False by (simp add: split_once_def)
  qed (use dot in \<open>simp add: split_once_def\<close>)
  show ?thesis unfolding iou_from_decimal_string_def Let_def trim body neg parts prod.case take_min_length
    using i f by (simp add: parsed_def trim_start_def Let_def)
qed

text \<open>Shifting the digits of a canonical amount parses back to it.\<close>

lemma from_parts_shift:
  assumes "iou_wf a" and "mantissa a = m * 10 ^ z" and "0 < m" and "z < 16" and "e = exponent a + int z"
  shows "iou_from_parts m e (negative a) = Inr a"
proof -
  have a: "MIN_MANTISSA \<le> mantissa a" "mantissa a \<le> MAX_MANTISSA" "-96 \<le> exponent a" "exponent a \<le> 80"
    using assms(1-3) by (auto simp: iou_wf_def iou_consts)
  have "m \<le> m * 10 ^ z" by simp
  then have "m \<le> MAX_MANTISSA" using a(2) unfolding assms(2) by (rule le_trans)
  have e: "-2147483633 \<le> e" "e \<le> 2147483647" using a(3,4) assms(4,5) by auto
  obtain m' e' where can: "canonical m e m' e'" and res: "iou_from_parts m e (negative a) = settle m' e' (negative a)"
    using from_parts_spec [OF assms(3) e, of "negative a"] by blast
  have "mag m' e' = mag (mantissa a) (exponent a)"
    using can \<open>m \<le> MAX_MANTISSA\<close> mag_shift_up [of m z "exponent a"] by (simp add: canonical_def assms(2,5))
  then have "m' = mantissa a \<and> e' = exponent a"
    using can a by (intro mag_unique) (simp_all add: canonical_def)
  then show ?thesis using a by (simp add: res settle_def iou_consts)
qed

lemma from_parts_extra_zero:
  assumes "iou_wf a" and "0 < mantissa a"
  shows "iou_from_parts (10 * mantissa a) (exponent a - 1) (negative a) = Inr a"
proof -
  have a: "MIN_MANTISSA \<le> mantissa a" "mantissa a \<le> MAX_MANTISSA" "-96 \<le> exponent a" "exponent a \<le> 80"
    using assms by (auto simp: iou_wf_def iou_consts)
  have "MAX_MANTISSA < 10 * mantissa a" using a(1) by (simp add: iou_consts)
  moreover have "digits_over (10 * mantissa a) = 1" using calculation a(2) by (simp add: digits_over_Suc digits_over_0)
  moreover have r: "0 < 10 * mantissa a" "-2147483633 \<le> exponent a - 1" "exponent a - 1 \<le> 2147483647" using assms(2) a by simp_all
  obtain m' e' where "iou_from_parts (10 * mantissa a) (exponent a - 1) (negative a) = settle m' e' (negative a)"
    "m' = 10 * mantissa a div 10 ^ digits_over (10 * mantissa a) \<and> e' = exponent a - 1 + int (digits_over (10 * mantissa a))"
    using from_parts_spec [OF r, of "negative a"] calculation(1) by blast
  ultimately show ?thesis using a by (simp add: settle_def iou_consts)
qed

subsection \<open>Printing and parsing\<close>

lemma mantissa_digits:
  assumes "iou_wf a" and "\<not> iou_is_zero a"
  defines "D \<equiv> dec_string (mantissa a)"
  shows "list_all is_ascii_digit D" and "dec_value D = mantissa a" and "length D = 16" and "D \<noteq> []" and "hd D \<noteq> CHR ''0''"
proof -
  have m: "10 ^ 15 \<le> mantissa a" "mantissa a < 10 ^ Suc 15" "0 < mantissa a"
    using assms(1,2) by (auto simp: iou_wf_def iou_is_zero_def iou_consts)
  show "length D = 16" unfolding D_def using dec_string_length [OF m(1,2)] by simp
  show "list_all is_ascii_digit D" "dec_value D = mantissa a" "D \<noteq> []" "hd D \<noteq> CHR ''0''"
    using dec_string_digits [of "mantissa a"] m(3) by (simp_all add: D_def)
qed

lemma parsed_digits:
  assumes "iou_wf a" and "\<not> iou_is_zero a"
    and D: "dec_string (mantissa a) = D' @ replicate z CHR ''0''" "D' \<noteq> []" "hd D' \<noteq> CHR ''0''"
    and s: "i @ f = replicate w CHR ''0'' @ D'" "int (length f) = - exponent a - int z"
  shows "parsed (negative a) i f = Inr a"
proof -
  have d: "dec_value D' * 10 ^ z = mantissa a" and len: "length D' + z = 16"
    using mantissa_digits(2,3) [OF assms(1,2)] unfolding D(1) by (simp_all add: dec_value_zeros)
  have a: "-96 \<le> exponent a" "exponent a \<le> 80" "0 < mantissa a" "mantissa a \<le> u64_max"
    using assms(1,2) by (auto simp: iou_wf_def iou_is_zero_def iou_consts u64_max_def)
  have trimmed: "dropWhile (\<lambda>c. c = CHR ''0'') (i @ f) = D'"
    unfolding s(1) using D(2,3) by (cases D') (simp_all add: dropWhile_append)
  have z: "z < 16" using D(2) len by (cases D') simp_all
  have "dec_value D' \<le> dec_value D' * 10 ^ z" by simp
  then have u: "\<not> u64_max < dec_value D'" using a(4) unfolding d by simp
  have "dec_value D' \<noteq> 0" using a(3) d by (metis mult_is_0 less_numeral_extra(3))
  have i: "i32 (i32 (- i32 (int (length f))) + i32 0) = - int (length f)"
    using a z s(2) by (simp add: i32_id)
  have "iou_from_parts (dec_value D') (- int (length f)) (negative a) = Inr a"
    by (rule from_parts_shift [OF assms(1) d [symmetric] _ z]) (use \<open>dec_value D' \<noteq> 0\<close> s(2) in simp_all)
  then show ?thesis using D(2) u len by (simp add: parsed_def trimmed i)
qed

lemma trim_end_append:
  "trim_end P (xs @ ys) = (if list_all P ys then trim_end P xs else xs @ trim_end P ys)"
  by (auto simp: trim_end_def dropWhile_append list_all_iff)

lemma digits_trimmed:
  assumes "iou_wf a" and "\<not> iou_is_zero a"
  defines "D \<equiv> dec_string (mantissa a)" and "D' \<equiv> trim_end (\<lambda>c. c = CHR ''0'') (dec_string (mantissa a))"
  obtains z where "D = D' @ replicate z CHR ''0''" and "D' \<noteq> []" and "hd D' \<noteq> CHR ''0''" and "list_all is_ascii_digit D'"
proof -
  note D = mantissa_digits [OF assms(1,2), folded D_def]
  obtain z where z: "D = D' @ replicate z CHR ''0''" unfolding D_def D'_def by (rule trim_end_zeros)
  have "D' \<noteq> []" using D(4,5) z by (cases z) auto
  then show thesis using D(1,5) z by (intro that [of z]) auto
qed

text \<open>The three shapes of the printed string.\<close>

lemma roundtrip_integer:
  assumes "iou_wf a" and "\<not> iou_is_zero a" and "0 \<le> exponent a"
  shows "parsed (negative a) (dec_string (mantissa a) @ replicate (nat (exponent a)) CHR ''0'') [] = Inr a"
proof -
  define D where "D = dec_string (mantissa a)"
  note D = mantissa_digits [OF assms(1,2), folded D_def]
  have m: "0 < mantissa a" "10 * mantissa a \<le> u64_max" "exponent a \<le> 80"
    using assms(1,2) by (auto simp: iou_wf_def iou_is_zero_def iou_consts u64_max_def)
  show ?thesis
  proof (cases "nat (exponent a)")
    case 0
    then show ?thesis using assms D(4,5) parsed_digits [OF assms(1,2), of D 0 D "[]" 0] by (simp add: D_def)
  next
    case (Suc n)
    have trimmed: "dropWhile (\<lambda>c. c = CHR ''0'') (D @ replicate (Suc n) CHR ''0'') = D @ replicate (Suc n) CHR ''0''"
      using D(4,5) by (cases D) simp_all
    have kept: "take 17 (D @ replicate (Suc n) CHR ''0'') = D @ [CHR ''0'']" using D(3) by simp
    have "dec_value (D @ [CHR ''0'']) = 10 * mantissa a" by (simp add: dec_value_snoc D(2))
    moreover have "i32 (i32 (- i32 0) + i32 (int n)) = exponent a - 1" using Suc m(3) by (simp add: i32_id)
    ultimately show ?thesis
      using from_parts_extra_zero [OF assms(1) m(1)] m(2) D(3,4) unfolding Suc D_def [symmetric] parsed_def append_Nil2 trimmed Let_def kept
      by simp
  qed
qed

lemma roundtrip_fraction:
  assumes "iou_wf a" and "\<not> iou_is_zero a" and "exponent a \<le> -16"
  defines "f \<equiv> trim_end (\<lambda>c. c = CHR ''0'') (replicate (nat (- exponent a) - 16) CHR ''0'' @ dec_string (mantissa a))"
  shows "parsed (negative a) ''0'' f = Inr a" and "list_all is_ascii_digit f" and "f \<noteq> []"
proof -
  define D where "D = dec_string (mantissa a)"
  define D' where "D' = trim_end (\<lambda>c. c = CHR ''0'') D"
  define k where "k = nat (- exponent a) - 16"
  note D = mantissa_digits [OF assms(1,2), folded D_def]
  obtain z where z: "D = D' @ replicate z CHR ''0''" "D' \<noteq> []" "hd D' \<noteq> CHR ''0''" "list_all is_ascii_digit D'"
    using digits_trimmed [OF assms(1,2)] unfolding D_def D'_def by blast
  have "\<not> list_all (\<lambda>c. c = CHR ''0'') D" using D(4,5) by (cases D) simp_all
  then have f: "f = replicate k CHR ''0'' @ D'"
    unfolding f_def D_def [symmetric] k_def [symmetric] by (simp add: trim_end_append D'_def)
  have len: "length D' + z = 16" using D(3) unfolding z(1) by simp
  have zeros: "''0'' @ f = replicate (Suc k) CHR ''0'' @ D'" by (simp add: f)
  show "parsed (negative a) ''0'' f = Inr a"
    by (rule parsed_digits [OF assms(1,2) z(1) [unfolded D_def] z(2,3) zeros]) (use assms(3) len in \<open>simp add: f k_def\<close>)
  show "list_all is_ascii_digit f" "f \<noteq> []" using z(2,4) by (simp_all add: f)
qed

lemma roundtrip_mixed:
  assumes "iou_wf a" and "\<not> iou_is_zero a" and "exponent a < 0" and "-16 < exponent a"
  defines "i \<equiv> take (16 - nat (- exponent a)) (dec_string (mantissa a))"
    and "f \<equiv> trim_end (\<lambda>c. c = CHR ''0'') (drop (16 - nat (- exponent a)) (dec_string (mantissa a)))"
  shows "parsed (negative a) i f = Inr a" and "list_all is_ascii_digit i" and "list_all is_ascii_digit f" and "i \<noteq> []"
proof -
  define D where "D = dec_string (mantissa a)"
  define p where "p = 16 - nat (- exponent a)"
  note D = mantissa_digits [OF assms(1,2), folded D_def]
  have p: "0 < p" "int p = 16 + exponent a" using assms(3,4) by (simp_all add: p_def)
  have i: "i = take p D" by (simp add: i_def D_def p_def)
  obtain z where z: "drop p D = f @ replicate z CHR ''0''" unfolding f_def D_def [symmetric] p_def [symmetric] by (rule trim_end_zeros)
  have "D = take p D @ drop p D" by simp
  then have D': "D = (i @ f) @ replicate z CHR ''0''" unfolding z i by simp
  have "hd (i @ f) = hd D" using p(1) D(4) by (simp add: i)
  then have h: "i @ f \<noteq> []" "hd (i @ f) \<noteq> CHR ''0''" using p(1) D(4,5) by (simp_all add: i)
  have "length (drop p D) = length f + z" by (simp add: z)
  then have n: "int (length f) = - exponent a - int z" using D(3) p(2) assms(3) by simp
  show "parsed (negative a) i f = Inr a"
    by (rule parsed_digits [OF assms(1,2) D' [unfolded D_def] h, of i f 0]) (use n in simp_all)
  show "list_all is_ascii_digit i" "list_all is_ascii_digit f" "i \<noteq> []"
    using D(1) [unfolded D'] D(4) p(1) by (simp_all add: i)
qed

text \<open>C37: Parsing the decimal string of a canonical amount gives back exactly that amount.\<close>

theorem decimal_string_roundtrip:
  assumes "iou_wf a"
  shows "iou_from_decimal_string (iou_to_decimal_string a) = Inr a"
proof (cases "iou_is_zero a")
  case True
  then have "a = iou_ZERO" using assms by (auto simp: iou_wf_def iou_is_zero_def iou_consts iou_ZERO_def)
  moreover have "iou_to_decimal_string a = written False ''0'' []" using True by (simp add: iou_to_decimal_string_def written_def)
  moreover have "parsed False ''0'' [] = Inr iou_ZERO" by (simp add: parsed_def)
  ultimately show ?thesis using parse_written [of "''0''" "[]" False] by simp
next
  case False
  define D where "D = dec_string (mantissa a)"
  note D = mantissa_digits [OF assms False, folded D_def]
  obtain i f where "iou_to_decimal_string a = written (negative a) i f" "list_all is_ascii_digit i" "i \<noteq> []" "list_all is_ascii_digit f"
    "parsed (negative a) i f = Inr a"
  proof (cases "0 \<le> exponent a")
    case True
    then show thesis
      using roundtrip_integer [OF assms False True] D(1,4) False
      by (intro that [of "D @ replicate (nat (exponent a)) CHR ''0''" "[]"]) (simp_all add: iou_to_decimal_string_def written_def D_def [symmetric])
  next
    case neg: False
    show thesis
    proof (cases "exponent a \<le> -16")
      case True
      note r = roundtrip_fraction [OF assms False True]
      have "16 \<le> nat (- exponent a)" using True by simp
      then have "iou_to_decimal_string a = written (negative a) ''0''
          (trim_end (\<lambda>c. c = CHR ''0'') (replicate (nat (- exponent a) - 16) CHR ''0'' @ D))"
        using True False neg D(3) r(3) by (simp add: iou_to_decimal_string_def written_def D_def [symmetric] Let_def)
      then show thesis by (rule that) (use r in \<open>simp_all add: D_def\<close>)
    next
      case mixed: False
      have "exponent a < 0" "-16 < exponent a" using neg mixed by simp_all
      note r = roundtrip_mixed [OF assms False this]
      have "\<not> 16 \<le> nat (- exponent a)" using mixed by simp
      then have "iou_to_decimal_string a = written (negative a) (take (16 - nat (- exponent a)) D)
          (trim_end (\<lambda>c. c = CHR ''0'') (drop (16 - nat (- exponent a)) D))"
        using mixed False neg D(3) by (simp add: iou_to_decimal_string_def written_def D_def [symmetric] Let_def)
      then show thesis by (rule that) (use r in \<open>simp_all add: D_def\<close>)
    qed
  qed
  then show ?thesis by (simp add: parse_written)
qed

theorem decimal_string_roundtrip_witness:
  "iou_from_decimal_string (iou_to_decimal_string \<lparr>mantissa = 3022389776875825, exponent = -15, negative = True\<rparr>)
     = Inr \<lparr>mantissa = 3022389776875825, exponent = -15, negative = True\<rparr>"
  by (rule decimal_string_roundtrip) (simp add: iou_wf_def iou_consts)

end
