(* ===== verification/Number.thy ===== *)
theory Number
  imports Quality Iou_Decimal
begin

unbundle bit_operations_syntax

text \<open>
  The extended-precision number type of the automated market maker (\<open>amount/src/number.rs\<close>) and the
  rate distance test that uses it. The two thread-local settings, mantissa scale and rounding mode,
  are the state \<open>number_ctx\<close> every operation reads; the guards that set and restore them are
  operations on it. The sixteen guard digits are the packed nibbles of the source. Mantissas are
  128-bit naturals and exponents wrap at 32 bits. A panic (division by zero, square root of a
  negative number) is \<^const>\<open>None\<close>.
\<close>

subsection \<open>Scale and rounding mode\<close>

datatype mantissa_scale = Small | Large

datatype rounding_mode = ToNearest | TowardsZero | Downward | Upward

record number_ctx =
  nc_scale :: mantissa_scale
  nc_mode :: rounding_mode

definition default_ctx :: number_ctx where
  "default_ctx = \<lparr>nc_scale = Large, nc_mode = ToNearest\<rparr>"

definition MAX_REP :: nat where
  "MAX_REP = 9223372036854775807"

definition NUM_MIN_EXPONENT :: int where
  "NUM_MIN_EXPONENT = -32768"

definition NUM_MAX_EXPONENT :: int where
  "NUM_MAX_EXPONENT = 32768"

definition NUM_ZERO_EXPONENT :: int where
  "NUM_ZERO_EXPONENT = -2147483648"

definition min_mantissa :: "number_ctx \<Rightarrow> nat" where
  "min_mantissa c = (case nc_scale c of Small \<Rightarrow> 1000000000000000 | Large \<Rightarrow> 1000000000000000000)"

definition max_mantissa :: "number_ctx \<Rightarrow> nat" where
  "max_mantissa c = (case nc_scale c of Small \<Rightarrow> 9999999999999999 | Large \<Rightarrow> 9999999999999999999)"

definition mantissa_log :: "number_ctx \<Rightarrow> int" where
  "mantissa_log c = (case nc_scale c of Small \<Rightarrow> 15 | Large \<Rightarrow> 18)"

definition set_scale :: "mantissa_scale \<Rightarrow> number_ctx \<Rightarrow> number_ctx \<times> mantissa_scale" where
  "set_scale s c = (c\<lparr>nc_scale := s\<rparr>, nc_scale c)"

definition setround :: "rounding_mode \<Rightarrow> number_ctx \<Rightarrow> number_ctx \<times> rounding_mode" where
  "setround m c = (c\<lparr>nc_mode := m\<rparr>, nc_mode c)"

text \<open>The guards remember the setting they replaced and put it back when dropped.\<close>

definition scale_guard_new :: "mantissa_scale \<Rightarrow> number_ctx \<Rightarrow> number_ctx \<times> mantissa_scale" where
  "scale_guard_new s c = set_scale s c"

definition scale_guard_drop :: "mantissa_scale \<Rightarrow> number_ctx \<Rightarrow> number_ctx" where
  "scale_guard_drop saved c = fst (set_scale saved c)"

definition round_guard_new :: "rounding_mode \<Rightarrow> number_ctx \<Rightarrow> number_ctx \<times> rounding_mode" where
  "round_guard_new m c = setround m c"

definition round_guard_drop :: "rounding_mode \<Rightarrow> number_ctx \<Rightarrow> number_ctx" where
  "round_guard_drop saved c = fst (setround saved c)"

subsection \<open>Guard digits\<close>

record guard =
  g_digits :: nat
  g_xbit :: bool
  g_sbit :: bool

definition guard_default :: guard where
  "guard_default = \<lparr>g_digits = 0, g_xbit = False, g_sbit = False\<rparr>"

definition set_negative :: "guard \<Rightarrow> guard" where
  "set_negative g = g\<lparr>g_sbit := True\<rparr>"

definition set_dropped :: "guard \<Rightarrow> guard" where
  "set_dropped g = g\<lparr>g_xbit := True\<rparr>"

definition do_push :: "nat \<Rightarrow> guard \<Rightarrow> guard" where
  "do_push d g = g\<lparr>g_xbit := g_xbit g \<or> g_digits g AND 0xF \<noteq> 0,
     g_digits := drop_bit 4 (g_digits g) OR push_bit 60 (d AND 0xF)\<rparr>"

definition guard_pop :: "guard \<Rightarrow> nat \<times> guard" where
  "guard_pop g = (drop_bit 60 (g_digits g AND 0xF000000000000000), g\<lparr>g_digits := take_bit 64 (push_bit 4 (g_digits g))\<rparr>)"

definition drop_digit :: "guard \<Rightarrow> nat \<Rightarrow> int \<Rightarrow> guard \<times> nat \<times> int" where
  "drop_digit g m e = (do_push (m mod 10) g, m div 10, i32 (e + 1))"

definition guard_round :: "number_ctx \<Rightarrow> guard \<Rightarrow> int" where
  "guard_round c g =
     (case nc_mode c of
        TowardsZero \<Rightarrow> -1
      | Downward \<Rightarrow> if g_sbit g \<and> (0 < g_digits g \<or> g_xbit g) then 1 else -1
      | Upward \<Rightarrow> if g_sbit g then -1 else if 0 < g_digits g \<or> g_xbit g then 1 else -1
      | ToNearest \<Rightarrow>
          if 0x5000000000000000 < g_digits g then 1
          else if g_digits g < 0x5000000000000000 then -1
          else if g_xbit g then 1 else 0)"

definition bring_into_range :: "number_ctx \<Rightarrow> bool \<Rightarrow> nat \<Rightarrow> int \<Rightarrow> bool \<times> nat \<times> int" where
  "bring_into_range c neg m e =
     (let (m, e) = (if m < min_mantissa c then (m * 10, i32 (e - 1)) else (m, e)) in
      if e < NUM_MIN_EXPONENT then (False, 0, NUM_ZERO_EXPONENT) else (neg, m, e))"

text \<open>Rounding up past the largest mantissa drops a digit and rounds again.\<close>

function do_round_up :: "number_ctx \<Rightarrow> guard \<Rightarrow> bool \<Rightarrow> nat \<Rightarrow> int \<Rightarrow> bool \<times> nat \<times> int" where
  "do_round_up c g neg m e =
     (let r = guard_round c g in
      if r = 1 \<or> (r = 0 \<and> odd m) then
        if m < max_mantissa c \<and> m < MAX_REP then bring_into_range c neg (m + 1) e
        else let (g, m, e) = drop_digit g m e in do_round_up c g neg m e
      else bring_into_range c neg m e)"
  by auto
termination
  by (relation "measure (\<lambda>(c, g, neg, m, e). m)") (auto simp: drop_digit_def MAX_REP_def max_mantissa_def split: mantissa_scale.splits)

declare do_round_up.simps [simp del]

definition do_round_down :: "number_ctx \<Rightarrow> guard \<Rightarrow> bool \<Rightarrow> nat \<Rightarrow> int \<Rightarrow> bool \<times> nat \<times> int" where
  "do_round_down c g neg m e =
     (let r = guard_round c g;
          (m, e) = (if r = 1 \<or> (r = 0 \<and> odd m)
             then if m - 1 < min_mantissa c then ((m - 1) * 10, i32 (e - 1)) else (m - 1, e)
             else (m, e))
      in bring_into_range c neg m e)"

subsection \<open>Normalization\<close>

function raise_loop :: "number_ctx \<Rightarrow> nat \<Rightarrow> int \<Rightarrow> nat \<times> int" where
  "raise_loop c m e = (if m < min_mantissa c \<and> NUM_MIN_EXPONENT < e then raise_loop c (m * 10) (e - 1) else (m, e))"
  by auto
termination by (relation "measure (\<lambda>(c, m, e). nat (e - NUM_MIN_EXPONENT))") auto

declare raise_loop.simps [simp del]

text \<open>Dropping digits into the guard while the mantissa is above a limit.\<close>

function drop_loop :: "nat \<Rightarrow> guard \<Rightarrow> nat \<Rightarrow> int \<Rightarrow> guard \<times> nat \<times> int" where
  "drop_loop limit g m e = (if limit < m then let (g, m, e) = drop_digit g m e in drop_loop limit g m e else (g, m, e))"
  by auto
termination by (relation "measure (\<lambda>(limit, g, m, e). m)") (auto simp: drop_digit_def)

declare drop_loop.simps [simp del]

definition do_normalize :: "number_ctx \<Rightarrow> bool \<Rightarrow> nat \<Rightarrow> int \<Rightarrow> bool \<Rightarrow> bool \<times> nat \<times> int" where
  "do_normalize c neg m e dropped =
     (if m = 0 then (False, 0, NUM_ZERO_EXPONENT)
      else
        (let (m, e) = raise_loop c m e;
             g = (if neg then set_negative guard_default else guard_default);
             g = (if dropped then set_dropped g else g);
             (g, m, e) = drop_loop (max_mantissa c) g m e in
         if e < NUM_MIN_EXPONENT \<or> m < min_mantissa c then (False, 0, NUM_ZERO_EXPONENT)
         else
           (let (g, m, e) = (if MAX_REP < m then drop_digit g m e else (g, m, e))
            in do_round_up c g neg m e)))"

record number =
  n_negative :: bool
  n_mantissa :: nat
  n_exponent :: int

definition number_ZERO :: number where
  "number_ZERO = \<lparr>n_negative = False, n_mantissa = 0, n_exponent = NUM_ZERO_EXPONENT\<rparr>"

text \<open>The struct built from the parts, with the mantissa cast to 64 bits.\<close>

definition mk_number :: "bool \<times> nat \<times> int \<Rightarrow> number" where
  "mk_number p = (let (neg, m, e) = p in \<lparr>n_negative = neg, n_mantissa = wrap64 m, n_exponent = e\<rparr>)"

definition number_new :: "number_ctx \<Rightarrow> bool \<Rightarrow> nat \<Rightarrow> int \<Rightarrow> number" where
  "number_new c neg m e = mk_number (do_normalize c neg m e False)"

definition from_int :: "number_ctx \<Rightarrow> int \<Rightarrow> number" where
  "from_int c v = (if v = 0 then number_ZERO else number_new c (v < 0) (nat \<bar>v\<bar>) 0)"

definition number_one :: "number_ctx \<Rightarrow> number" where
  "number_one c = \<lparr>n_negative = False, n_mantissa = min_mantissa c, n_exponent = - mantissa_log c\<rparr>"

definition number_is_zero :: "number \<Rightarrow> bool" where
  "number_is_zero n \<longleftrightarrow> n_mantissa n = 0"

definition number_negate :: "number \<Rightarrow> number" where
  "number_negate n = (if n_mantissa n \<noteq> 0 then n\<lparr>n_negative := \<not> n_negative n\<rparr> else n)"

definition shift_exponent :: "number \<Rightarrow> int \<Rightarrow> number" where
  "shift_exponent n delta =
     (let new_exp = i32 (n_exponent n + delta) in
      if NUM_MAX_EXPONENT \<le> new_exp then n\<lparr>n_exponent := new_exp\<rparr>
      else if new_exp < NUM_MIN_EXPONENT then number_ZERO
      else n\<lparr>n_exponent := new_exp\<rparr>)"

subsection \<open>Arithmetic\<close>

definition number_mul :: "number_ctx \<Rightarrow> number \<Rightarrow> number \<Rightarrow> number" where
  "number_mul c x y =
     (if number_is_zero x \<or> number_is_zero y then number_ZERO
      else
        (let zn = (n_negative x \<noteq> n_negative y);
             g = (if zn then set_negative guard_default else guard_default);
             (g, zm, ze) = drop_loop (min (max_mantissa c) MAX_REP) g (n_mantissa x * n_mantissa y) (i32 (n_exponent x + n_exponent y));
             (zn, zm, ze) = do_round_up c g zn zm ze
         in mk_number (do_normalize c zn zm ze False)))"

definition number_div :: "number_ctx \<Rightarrow> number \<Rightarrow> number \<Rightarrow> number option" where
  "number_div c x y =
     (if number_is_zero y then None
      else if number_is_zero x then Some number_ZERO
      else
        (let dm = n_mantissa y;
             numerator = n_mantissa x * 10 ^ 17;
             zm = numerator div dm;
             ze = i32 (i32 (n_exponent x - n_exponent y) - 17);
             remainder = numerator mod dm;
             partial_numerator = remainder * 10 ^ 5;
             correction = partial_numerator div dm;
             (zm, ze, dropped) =
               (if nc_scale c \<noteq> Small \<and> remainder \<noteq> 0 then
                  (if correction \<noteq> 0 then (zm * 10 ^ 5 + correction, i32 (ze - 5), partial_numerator mod dm \<noteq> 0)
                   else (zm, ze, partial_numerator mod dm \<noteq> 0))
                else (zm, ze, False))
         in Some (mk_number (do_normalize c (n_negative x \<noteq> n_negative y) zm ze dropped))))"

text \<open>Aligning drops the digits of the smaller exponent into the guard, one per step.\<close>

primrec drop_digits :: "nat \<Rightarrow> guard \<Rightarrow> nat \<Rightarrow> int \<Rightarrow> guard \<times> nat \<times> int" where
  "drop_digits 0 g m e = (g, m, e)"
| "drop_digits (Suc n) g m e = (let (g, m, e) = drop_digit g m e in drop_digits n g m e)"

definition pops_left :: "nat \<Rightarrow> nat" where
  "pops_left d = (LEAST k. take_bit 64 (push_bit (4 * k) d) = 0)"

lemma take_push_take: "take_bit 64 (push_bit n (take_bit 64 a)) = take_bit 64 (push_bit n (a :: nat))"
  by (rule bit_eqI) (auto simp: bit_simps)

lemma pops_left_Suc:
  assumes "take_bit 64 d \<noteq> 0"
  shows "pops_left d = Suc (pops_left (take_bit 64 (push_bit 4 d)))"
proof -
  have "take_bit 64 (push_bit (4 * 16) d) = 0" by (rule bit_eqI) (auto simp: bit_simps)
  then have "(LEAST k. take_bit 64 (push_bit (4 * k) d) = 0) = Suc (LEAST k. take_bit 64 (push_bit (4 * Suc k) d) = 0)"
    by (rule Least_Suc) (use assms in simp)
  moreover have "take_bit 64 (push_bit (4 * Suc k) d) = take_bit 64 (push_bit (4 * k) (take_bit 64 (push_bit 4 d)))" for k
    by (simp add: take_push_take add.commute)
  ultimately show ?thesis by (simp add: pops_left_def)
qed

lemma pops_left_0: "take_bit 64 d = 0 \<Longrightarrow> pops_left d = 0"
  unfolding pops_left_def by (rule Least_eq_0) simp

lemma pop_digit: "drop_bit 60 (d AND 0xF000000000000000) = drop_bit 60 (take_bit 64 (d :: nat))"
proof -
  have "drop_bit 60 (take_bit 64 d) = take_bit 4 (drop_bit 60 d)" by (simp add: drop_bit_take_bit)
  also have "\<dots> = drop_bit 60 d AND 15" by (simp add: take_bit_eq_mask mask_eq_exp_minus_1)
  finally show ?thesis by simp
qed

lemma pop_progress:
  assumes "guard_pop g = (d, g')"
  shows "pops_left (g_digits g') < pops_left (g_digits g) \<or> pops_left (g_digits g') = pops_left (g_digits g) \<and> d = 0"
proof (cases "take_bit 64 (g_digits g) = 0")
  case True
  have "take_bit 64 (take_bit 64 (push_bit 4 (g_digits g))) = take_bit 64 (push_bit 4 (take_bit 64 (g_digits g)))"
    by (simp add: take_push_take)
  then have "take_bit 64 (take_bit 64 (push_bit 4 (g_digits g))) = 0" using True by simp
  then have "pops_left (take_bit 64 (push_bit 4 (g_digits g))) = 0" by (rule pops_left_0)
  then show ?thesis using assms True pops_left_0 [OF True] unfolding guard_pop_def pop_digit by auto
next
  case False
  then show ?thesis using assms pops_left_Suc [OF False] unfolding guard_pop_def by auto
qed

text \<open>Cancellation refills the mantissa from the guard. The mantissa is positive when the loop starts, and
  stays so.\<close>

function refill :: "number_ctx \<Rightarrow> guard \<Rightarrow> nat \<Rightarrow> int \<Rightarrow> guard \<times> nat \<times> int" where
  "refill c g m e =
     (if 0 < m \<and> m < min_mantissa c \<and> m * 10 \<le> MAX_REP
      then let (d, g) = guard_pop g in refill c g (m * 10 - d) (i32 (e - 1))
      else (g, m, e))"
  by auto
termination
proof (relation "measures [\<lambda>(c, g, m, e). pops_left (g_digits g), \<lambda>(c, g, m, e). MAX_REP - m]", goal_cases)
  case (2 c g m e p d g')
  then show ?case using pop_progress [of g d g'] by auto
qed simp

declare refill.simps [simp del]

definition number_add :: "number_ctx \<Rightarrow> number \<Rightarrow> number \<Rightarrow> number" where
  "number_add c x y =
     (if number_is_zero y then x
      else if number_is_zero x then y
      else if x = number_negate y then number_ZERO
      else
        (let xe = n_exponent x; ye = n_exponent y;
             g = guard_default;
             (g, xm, ym, e) =
               (if xe < ye then
                  (let g = (if n_negative x then set_negative g else g);
                       (g, xm, _) = drop_digits (nat (ye - xe)) g (n_mantissa x) xe
                   in (g, xm, n_mantissa y, ye))
                else if ye < xe then
                  (let g = (if n_negative y then set_negative g else g);
                       (g, ym, _) = drop_digits (nat (xe - ye)) g (n_mantissa y) ye
                   in (g, n_mantissa x, ym, xe))
                else (g, n_mantissa x, n_mantissa y, xe)) in
         if n_negative x = n_negative y then
           (let (g, m, e) = (if min (max_mantissa c) MAX_REP < xm + ym then drop_digit g (xm + ym) e else (g, xm + ym, e));
                (neg, m, e) = do_round_up c g (n_negative x) m e
            in mk_number (do_normalize c neg m e False))
         else
           (let (neg, m) = (if ym < xm then (n_negative x, xm - ym) else (n_negative y, ym - xm)) in
            if m = 0 then number_ZERO
            else
              (let (g, m, e) = refill c g m e;
                   (neg, m, e) = do_round_down c g neg m e
               in mk_number (do_normalize c neg m e False)))))"

definition number_sub :: "number_ctx \<Rightarrow> number \<Rightarrow> number \<Rightarrow> number" where
  "number_sub c x y = number_add c x (number_negate y)"

subsection \<open>Conversions\<close>

definition from_iou :: "number_ctx \<Rightarrow> iou_amount \<Rightarrow> number" where
  "from_iou c a = (if iou_is_zero a then number_ZERO else number_new c (negative a) (mantissa a) (exponent a))"

text \<open>Whether a quotient \<open>q\<close> with remainder \<open>r\<close> of the divisor \<open>d\<close> is rounded away from zero.\<close>

definition rounds_away :: "number_ctx \<Rightarrow> bool \<Rightarrow> nat \<Rightarrow> nat \<Rightarrow> nat \<Rightarrow> bool" where
  "rounds_away c neg q r d =
     (case nc_mode c of
        ToNearest \<Rightarrow> d div 2 < r \<or> (r = d div 2 \<and> odd q)
      | TowardsZero \<Rightarrow> False
      | Downward \<Rightarrow> neg \<and> r \<noteq> 0
      | Upward \<Rightarrow> \<not> neg \<and> r \<noteq> 0)"

definition to_iou :: "number_ctx \<Rightarrow> number \<Rightarrow> iou_amount" where
  "to_iou c n =
     (if number_is_zero n then iou_ZERO
      else
        (let k = digits_over (n_mantissa n);
             d = 10 ^ k;
             q = n_mantissa n div d;
             r = n_mantissa n mod d;
             (m, e) = (if 0 < k
                then trim_carry (if rounds_away c (n_negative n) q r d then q + 1 else q) (i32 (n_exponent n + int k))
                else (n_mantissa n, n_exponent n))
         in case iou_from_parts (wrap64 m) e (n_negative n) of Inl _ \<Rightarrow> iou_ZERO | Inr a \<Rightarrow> a))"

text \<open>Division and remainder of signed numbers truncate toward zero.\<close>

definition tdiv10 :: "int \<Rightarrow> int" where
  "tdiv10 z = sgn z * (\<bar>z\<bar> div 10)"

primrec push_fraction :: "nat \<Rightarrow> guard \<times> int \<Rightarrow> guard \<times> int" where
  "push_fraction 0 s = s"
| "push_fraction (Suc n) s = (let (g, drops) = s in push_fraction n (do_push (nat (\<bar>drops\<bar> mod 10)) g, tdiv10 drops))"

primrec raise_i128 :: "nat \<Rightarrow> int \<Rightarrow> int" where
  "raise_i128 0 z = z"
| "raise_i128 (Suc n) z = raise_i128 n (max (- (2 ^ 127)) (min (2 ^ 127 - 1) (z * 10)))"

definition to_i64 :: "number_ctx \<Rightarrow> number \<Rightarrow> int" where
  "to_i64 c n =
     (if number_is_zero n then 0
      else
        (let g = (if n_negative n then set_negative guard_default else guard_default);
             drops = (if n_negative n then - int (n_mantissa n) else int (n_mantissa n));
             (g, drops) = push_fraction (nat (- n_exponent n)) (g, drops);
             drops = raise_i128 (nat (n_exponent n)) drops;
             r = guard_round c g;
             drops = (if r = 1 \<or> (r = 0 \<and> odd drops) then drops + 1 else drops);
             drops = (if n_negative n then - drops else drops)
         in max (- (2 ^ 63)) (min (2 ^ 63 - 1) drops)))"

text \<open>128-bit powers wrap, and dividing by a power that wrapped to zero panics.\<close>

definition pow10_u128 :: "nat \<Rightarrow> nat" where
  "pow10_u128 n = 10 ^ n mod 2 ^ 128"

definition sat_mul_u128 :: "nat \<Rightarrow> nat \<Rightarrow> nat" where
  "sat_mul_u128 a b = min (a * b) (2 ^ 128 - 1)"

definition to_xrp_drops :: "number \<Rightarrow> nat option" where
  "to_xrp_drops n =
     (if number_is_zero n then Some 0
      else if 0 \<le> n_exponent n then Some (min (sat_mul_u128 (n_mantissa n) (pow10_u128 (nat (n_exponent n)))) u64_max)
      else
        (let d = pow10_u128 (nat (- n_exponent n)) in
         if d = 0 then None else Some (min (n_mantissa n div d) u64_max)))"

definition to_xrp_drops_mode :: "number_ctx \<Rightarrow> number \<Rightarrow> nat option" where
  "to_xrp_drops_mode c n =
     (if number_is_zero n then Some 0
      else if 0 \<le> n_exponent n then Some (min (sat_mul_u128 (n_mantissa n) (pow10_u128 (nat (n_exponent n)))) u64_max)
      else
        (let d = pow10_u128 (nat (- n_exponent n));
             q = n_mantissa n div d;
             r = n_mantissa n mod d in
         if d = 0 then None
         else Some (min (if rounds_away c (n_negative n) q r d then q + 1 else q) u64_max)))"

definition number_to_decimal_string :: "number \<Rightarrow> string" where
  "number_to_decimal_string n =
     (if number_is_zero n then ''0''
      else
        (let sign = (if n_negative n then ''-'' else []);
             digits = dec_string (n_mantissa n) in
         if 0 \<le> n_exponent n then sign @ digits @ replicate (nat (n_exponent n)) CHR ''0''
         else
           (let frac = nat (- n_exponent n) in
            if length digits \<le> frac then
              sign @ ''0.'' @ replicate (frac - length digits) CHR ''0'' @ trim_end (\<lambda>c. c = CHR ''0'') digits
            else
              (let point = length digits - frac;
                   int_part = take point digits;
                   frac_part = trim_end (\<lambda>c. c = CHR ''0'') (drop point digits)
               in if frac_part = [] then sign @ int_part else sign @ int_part @ ''.'' @ frac_part))))"

subsection \<open>Powers, square roots and the distance of rates\<close>

function number_power :: "number_ctx \<Rightarrow> number \<Rightarrow> nat \<Rightarrow> number" where
  "number_power c f n =
     (if n = 0 then number_one c
      else if n = 1 then f
      else
        (let r = number_power c f (n div 2);
             r = number_mul c r r
         in if n mod 2 \<noteq> 0 then number_mul c r f else r))"
  by auto
termination by (relation "measure (\<lambda>(c, f, n). n)") auto

declare number_power.simps [simp del]

text \<open>The Newton iteration stops when a value repeats; it has no other bound, so its result is optional.\<close>

partial_function (option) newton :: "number_ctx \<Rightarrow> number \<Rightarrow> number \<Rightarrow> number \<Rightarrow> number option" where
  "newton c f r rm1 =
     (case number_div c f r of None \<Rightarrow> None
      | Some q \<Rightarrow>
          (case number_div c (number_add c r q) (from_int c 2) of None \<Rightarrow> None
           | Some r' \<Rightarrow> if r' = r \<or> r' = rm1 then Some r' else newton c f r' r))"

definition root2 :: "number_ctx \<Rightarrow> number \<Rightarrow> number option" where
  "root2 c f =
     (if f = number_one c then Some f
      else if n_negative f then None
      else if number_is_zero f then Some f
      else
        (let e = i32 (i32 (n_exponent f + mantissa_log c) + 1);
             e = (if e mod 2 \<noteq> 0 then i32 (e + 1) else e);
             f = shift_exponent f (- e);
             s = number_add c (number_mul c (from_int c (-60)) f) (from_int c 144);
             s = number_add c (number_mul c s f) (from_int c 18) in
         case number_div c s (from_int c 105) of None \<Rightarrow> None
         | Some r \<Rightarrow> map_option (\<lambda>r. shift_exponent r (sgn e * (\<bar>e\<bar> div 2))) (newton c f r number_ZERO)))"

definition within_relative_distance :: "number_ctx \<Rightarrow> nat \<Rightarrow> nat \<Rightarrow> bool option" where
  "within_relative_distance c rate_a rate_b =
     (if rate_a = rate_b then Some True
      else
        (let rate = (\<lambda>r. from_iou c (case from_rate r of Inl _ \<Rightarrow> iou_ZERO | Inr a \<Rightarrow> a));
             (lo, hi) = (if rate_a < rate_b then (rate rate_a, rate rate_b) else (rate rate_b, rate rate_a)) in
         if number_is_zero hi then Some True
         else
           (case (number_div c (from_int c 1) (from_int c 10000000), number_div c (number_sub c hi lo) hi) of
              (Some limit, Some rel) \<Rightarrow> Some (n_negative (number_sub c rel limit))
            | _ \<Rightarrow> None)))"

end
