(* ===== verification/Number_Rounding.thy ===== *)
theory Number_Rounding
  imports Number
begin

text \<open>
  What the guard digits of \<open>Number\<close> decide: the packed nibbles and the sticky bit are proved to
  represent the fraction that was dropped, so that products are rounded correctly in every mode.
  Conversions to and from issued amounts are exact round trips, and the conversion of negative
  numbers to integers is shown to lose the sign.
\<close>

subsection \<open>The guard represents the dropped fraction\<close>

definition guard_rep :: "guard \<Rightarrow> nat \<Rightarrow> nat \<Rightarrow> bool" where
  "guard_rep g k rem \<longleftrightarrow> g_digits g < 2 ^ 64 \<and> rem < 10 ^ k \<and>
     (if k = 0 then g_digits g = 0 \<and> \<not> g_xbit g
      else g_digits g div 2 ^ 60 = rem div 10 ^ (k - 1)
        \<and> (g_digits g mod 2 ^ 60 \<noteq> 0 \<or> g_xbit g \<longleftrightarrow> rem mod 10 ^ (k - 1) \<noteq> 0))"

lemma guard_rep_default: "guard_rep guard_default 0 0" "guard_rep (set_negative guard_default) 0 0"
  by (simp_all add: guard_rep_def guard_default_def set_negative_def)

lemma guard_rep_nonzero:
  assumes "guard_rep g k rem"
  shows "0 < g_digits g \<or> g_xbit g \<longleftrightarrow> rem \<noteq> 0"
proof (cases k)
  case 0
  then show ?thesis using assms by (simp add: guard_rep_def)
next
  case (Suc j)
  have "rem = 0 \<longleftrightarrow> rem div 10 ^ j = 0 \<and> rem mod 10 ^ j = 0" by (metis div_mult_mod_eq add_is_0 mult_is_0 div_0 mod_0)
  moreover have "g_digits g = 0 \<longleftrightarrow> g_digits g div 2 ^ 60 = 0 \<and> g_digits g mod 2 ^ 60 = 0"
    by (metis div_mult_mod_eq add_is_0 mult_is_0 div_0 mod_0)
  ultimately show ?thesis using assms Suc unfolding guard_rep_def by fastforce
qed

lemma push_digits:
  assumes "g_digits g < 2 ^ 64" and "d < 10"
  shows "g_digits (do_push d g) = d * 2 ^ 60 + g_digits g div 16" and "g_xbit (do_push d g) \<longleftrightarrow> g_xbit g \<or> g_digits g mod 16 \<noteq> 0"
proof -
  have "(15 :: nat) = mask 4" by (simp add: mask_eq_exp_minus_1)
  then have low: "x AND 15 = x mod 16" for x :: nat by (simp only: take_bit_eq_mask [symmetric] take_bit_eq_mod) simp
  have "drop_bit 4 (g_digits g) = take_bit 60 (drop_bit 4 (g_digits g))"
    using assms(1) by (simp add: take_bit_nat_eq_self drop_bit_eq_div)
  then have "drop_bit 4 (g_digits g) AND push_bit 60 d = take_bit 60 (drop_bit 4 (g_digits g)) AND push_bit 60 d" by simp
  also have "\<dots> = 0" by (rule bit_eqI) (auto simp: bit_simps)
  finally have "drop_bit 4 (g_digits g) + push_bit 60 d = drop_bit 4 (g_digits g) OR push_bit 60 d" by (rule disjunctive_add_eq_or)
  then show "g_digits (do_push d g) = d * 2 ^ 60 + g_digits g div 16"
    using assms(2) by (simp add: do_push_def low push_bit_eq_mult drop_bit_eq_div)
  show "g_xbit (do_push d g) \<longleftrightarrow> g_xbit g \<or> g_digits g mod 16 \<noteq> 0" by (simp add: do_push_def low)
qed

lemma guard_rep_push:
  assumes "guard_rep g k rem" and "d < 10"
  shows "guard_rep (do_push d g) (Suc k) (d * 10 ^ k + rem)"
proof -
  have g: "g_digits g < 2 ^ 64" "rem < 10 ^ k" using assms(1) by (simp_all add: guard_rep_def)
  note p = push_digits [OF g(1) assms(2)]
  have small: "g_digits g div 16 < 2 ^ 60" using g(1) by (simp add: div_less_iff_less_mult)
  then have parts: "g_digits (do_push d g) div 2 ^ 60 = d" "g_digits (do_push d g) mod 2 ^ 60 = g_digits g div 16" unfolding p(1) by simp_all
  have "g_digits g div 16 \<noteq> 0 \<or> g_digits g mod 16 \<noteq> 0 \<longleftrightarrow> g_digits g \<noteq> 0"
    by (metis div_mult_mod_eq add_is_0 mult_is_0 div_0 mod_0)
  then have "g_digits (do_push d g) mod 2 ^ 60 \<noteq> 0 \<or> g_xbit (do_push d g) \<longleftrightarrow> rem \<noteq> 0"
    using guard_rep_nonzero [OF assms(1)] unfolding parts(2) p(2) by auto
  moreover have "g_digits (do_push d g) < 2 ^ 64" using small assms(2) unfolding p(1) by simp
  moreover have "Suc d * 10 ^ k \<le> 10 * 10 ^ k" using assms(2) by (intro mult_right_mono) simp_all
  then have "10 ^ k + d * 10 ^ k \<le> 10 * 10 ^ k" unfolding mult_Suc .
  then have "d * 10 ^ k + rem < 10 ^ Suc k" using g(2) unfolding power_Suc by linarith
  ultimately show ?thesis using g(2) parts(1) by (simp add: guard_rep_def)
qed

text \<open>The rounding decision of each mode, on the exact fraction \<open>rem / 10^k\<close>.\<close>

definition away :: "number_ctx \<Rightarrow> bool \<Rightarrow> nat \<Rightarrow> nat \<Rightarrow> nat \<Rightarrow> bool" where
  "away c neg m rem k =
     (case nc_mode c of
        ToNearest \<Rightarrow> 10 ^ k < 2 * rem \<or> (10 ^ k = 2 * rem \<and> odd m)
      | TowardsZero \<Rightarrow> False
      | Downward \<Rightarrow> neg \<and> rem \<noteq> 0
      | Upward \<Rightarrow> \<not> neg \<and> rem \<noteq> 0)"

lemma five_split:
  fixes t b r :: nat
  assumes "r < b"
  shows "5 * b < t * b + r \<longleftrightarrow> 5 < t \<or> (t = 5 \<and> r \<noteq> 0)" and "t * b + r = 5 * b \<longleftrightarrow> t = 5 \<and> r = 0"
proof -
  consider "t < 5" | "t = 5" | "5 < t" by linarith
  then have "(5 * b < t * b + r \<longleftrightarrow> 5 < t \<or> (t = 5 \<and> r \<noteq> 0)) \<and> (t * b + r = 5 * b \<longleftrightarrow> t = 5 \<and> r = 0)"
  proof cases
    case 1
    then have "Suc t * b \<le> 5 * b" by (intro mult_right_mono) simp_all
    then have "b + t * b \<le> 5 * b" unfolding mult_Suc .
    then have "t * b + r < 5 * b" using assms by linarith
    then show ?thesis using 1 by simp
  next
    case 3
    then have "6 * b \<le> t * b" by (intro mult_right_mono) simp_all
    then have "5 * b < t * b + r" using assms by linarith
    then show ?thesis using 3 by simp
  qed simp
  then show "5 * b < t * b + r \<longleftrightarrow> 5 < t \<or> (t = 5 \<and> r \<noteq> 0)" "t * b + r = 5 * b \<longleftrightarrow> t = 5 \<and> r = 0" by auto
qed

lemma half_of_digits:
  assumes "guard_rep g k rem"
  shows "0x5000000000000000 < g_digits g \<or> (g_digits g = 0x5000000000000000 \<and> g_xbit g) \<longleftrightarrow> 10 ^ k < 2 * rem"
    and "g_digits g = 0x5000000000000000 \<and> \<not> g_xbit g \<longleftrightarrow> 10 ^ k = 2 * rem"
proof (atomize (full), cases k)
  case 0
  then show "(0x5000000000000000 < g_digits g \<or> (g_digits g = 0x5000000000000000 \<and> g_xbit g) \<longleftrightarrow> 10 ^ k < 2 * rem)
    \<and> (g_digits g = 0x5000000000000000 \<and> \<not> g_xbit g \<longleftrightarrow> 10 ^ k = 2 * rem)" using assms by (auto simp: guard_rep_def)
next
  case (Suc j)
  define t where "t = g_digits g div 2 ^ 60"
  define r where "r = g_digits g mod 2 ^ 60"
  define r' where "r' = rem mod 10 ^ j"
  have sticky: "r \<noteq> 0 \<or> g_xbit g \<longleftrightarrow> r' \<noteq> 0" and t: "t = rem div 10 ^ j" using assms by (simp_all add: guard_rep_def Suc t_def r_def r'_def)
  have five: "(0x5000000000000000 :: nat) = 5 * 2 ^ 60" by simp
  have d: "g_digits g = t * 2 ^ 60 + r" "r < 2 ^ 60" by (simp_all add: t_def r_def)
  have dec: "rem = t * 10 ^ j + r'" "r' < 10 ^ j" "(10 :: nat) ^ k = 2 * (5 * 10 ^ j)"
    unfolding t r'_def Suc by (simp_all only: div_mult_mod_eq) simp_all
  have half: "10 ^ k < 2 * rem \<longleftrightarrow> 5 < t \<or> (t = 5 \<and> r' \<noteq> 0)" "10 ^ k = 2 * rem \<longleftrightarrow> t = 5 \<and> r' = 0"
    unfolding five_split [OF dec(2), of t, symmetric] dec(1,3) by auto
  show "(0x5000000000000000 < g_digits g \<or> (g_digits g = 0x5000000000000000 \<and> g_xbit g) \<longleftrightarrow> 10 ^ k < 2 * rem)
    \<and> (g_digits g = 0x5000000000000000 \<and> \<not> g_xbit g \<longleftrightarrow> 10 ^ k = 2 * rem)"
    unfolding five d(1) five_split [OF d(2)] half using sticky by (cases "r = 0") auto
qed

lemma guard_round_spec:
  assumes "guard_rep g k rem" and "g_sbit g = neg"
  shows "guard_round c g = 1 \<or> (guard_round c g = 0 \<and> odd m) \<longleftrightarrow> away c neg m rem k"
proof -
  note h = half_of_digits [OF assms(1)] and n = guard_rep_nonzero [OF assms(1)]
  show ?thesis
  proof (cases "nc_mode c")
    case ToNearest
    have "guard_round c g = 1 \<longleftrightarrow> 10 ^ k < 2 * rem" "guard_round c g = 0 \<longleftrightarrow> 10 ^ k = 2 * rem"
      unfolding h(1,2) [symmetric] by (auto simp: guard_round_def ToNearest)
    then show ?thesis by (auto simp: away_def ToNearest)
  qed (use n assms(2) in \<open>auto simp: guard_round_def away_def\<close>)
qed

subsection \<open>Dropping digits\<close>

lemma drop_digit_rep:
  assumes "guard_rep g k (n mod 10 ^ k)"
  shows "guard_rep (do_push (n div 10 ^ k mod 10) g) (Suc k) (n mod 10 ^ Suc k)" and "n div 10 ^ k div 10 = n div 10 ^ Suc k"
proof -
  have "n mod 10 ^ Suc k = n div 10 ^ k mod 10 * 10 ^ k + n mod 10 ^ k"
    using mod_mult2_eq [of n "10 ^ k" 10] by (simp add: mult.commute)
  then show "guard_rep (do_push (n div 10 ^ k mod 10) g) (Suc k) (n mod 10 ^ Suc k)"
    using guard_rep_push [OF assms, of "n div 10 ^ k mod 10"] by simp
  show "n div 10 ^ k div 10 = n div 10 ^ Suc k" by (simp add: div_mult2_eq mult.commute [of 10])
qed

lemma sbit_push [simp]: "g_sbit (do_push d g) = g_sbit g"
  by (simp add: do_push_def)


text \<open>Rounding up: the kept digits, plus one when the mode rounds away, or the same one digit further on
  when that would exceed the largest mantissa.\<close>

definition kept :: "number_ctx \<Rightarrow> bool \<Rightarrow> nat \<Rightarrow> nat \<Rightarrow> nat" where
  "kept c neg n k = n div 10 ^ k + (if away c neg (n div 10 ^ k) (n mod 10 ^ k) k then 1 else 0)"

definition limit :: "number_ctx \<Rightarrow> nat" where
  "limit c = min (max_mantissa c) MAX_REP"

lemma limits: "nc_scale c = Small \<Longrightarrow> min_mantissa c = 10 ^ 15 \<and> max_mantissa c = 10 ^ 16 - 1 \<and> limit c = 10 ^ 16 - 1"
  "nc_scale c = Large \<Longrightarrow> min_mantissa c = 10 ^ 18 \<and> max_mantissa c = 10 ^ 19 - 1 \<and> limit c = 9223372036854775807"
  by (simp_all add: min_mantissa_def max_mantissa_def limit_def MAX_REP_def)

lemma do_round_up_spec:
  assumes "guard_rep g k (n mod 10 ^ k)" and "g_sbit g = neg" and "n div 10 ^ k \<le> limit c" and "\<bar>e\<bar> \<le> 2000000000"
  shows "do_round_up c g neg (n div 10 ^ k) e =
    (if kept c neg n k \<le> limit c then bring_into_range c neg (kept c neg n k) e
     else bring_into_range c neg (kept c neg n (Suc k)) (e + 1))"
proof -
  let ?m = "n div 10 ^ k" and ?g = "do_push (n div 10 ^ k mod 10) g"
  note r = guard_round_spec [OF assms(1,2), of c ?m]
  have safe: "?m < max_mantissa c \<and> ?m < MAX_REP \<longleftrightarrow> ?m < limit c" by (simp add: limit_def)
  show ?thesis
  proof (cases "away c neg ?m (n mod 10 ^ k) k \<and> \<not> ?m < limit c")
    case False
    then show ?thesis using assms(3) r safe by (subst do_round_up.simps) (auto simp: kept_def Let_def)
  next
    case True
    note d = drop_digit_rep [OF assms(1)]
    have i: "i32 (e + 1) = e + 1" using assms(4) by (intro i32_id) auto
    have m: "?m = limit c" using True assms(3) by simp
    have small: "n div 10 ^ Suc k < limit c" unfolding d(2) [symmetric] m using limits [of c] by (cases "nc_scale c") simp_all
    have r': "guard_round c ?g = 1 \<or> (guard_round c ?g = 0 \<and> odd (n div 10 ^ Suc k)) \<longleftrightarrow> away c neg (n div 10 ^ Suc k) (n mod 10 ^ Suc k) (Suc k)"
      using guard_round_spec [OF d(1), of neg c] assms(2) by simp
    have "do_round_up c g neg ?m e = do_round_up c ?g neg (n div 10 ^ Suc k) (e + 1)"
      using True r safe by (subst do_round_up.simps) (auto simp: Let_def drop_digit_def d(2) i)
    also have "\<dots> = bring_into_range c neg (kept c neg n (Suc k)) (e + 1)"
      using r' small by (subst do_round_up.simps) (auto simp: kept_def limit_def Let_def)
    finally show ?thesis using True m by (simp add: kept_def)
  qed
qed

subsection \<open>Values and correct rounding\<close>

definition number_value :: "number \<Rightarrow> rat" where
  "number_value n = (if n_negative n then - mag (n_mantissa n) (n_exponent n) else mag (n_mantissa n) (n_exponent n))"

definition in_range :: "number_ctx \<Rightarrow> nat \<Rightarrow> bool" where
  "in_range c m \<longleftrightarrow> min_mantissa c \<le> m \<and> m \<le> max_mantissa c \<and> (m \<le> MAX_REP \<or> 10 dvd m)"












subsection \<open>Products\<close>

lemma not_away_zero: "\<not> away c neg m 0 k"
  by (simp add: away_def split: rounding_mode.split)

lemma kept_exact: "n mod 10 ^ k = 0 \<Longrightarrow> kept c neg n k = n div 10 ^ k"
  by (simp add: kept_def not_away_zero)

lemma normalize_id:
  assumes "in_range c m" and "NUM_MIN_EXPONENT \<le> e" and "\<bar>e\<bar> \<le> 1000000000"
  shows "do_normalize c neg m e False = (neg, m, e)"
proof -
  let ?g = "if neg then set_negative guard_default else guard_default"
  have m: "min_mantissa c \<le> m" "m \<le> max_mantissa c" "m \<noteq> 0" "m \<le> MAX_REP \<or> 10 dvd m"
    using assms(1) by (auto simp: in_range_def min_mantissa_def split: mantissa_scale.splits)
  have g: "guard_rep ?g 0 (m mod 10 ^ 0)" "g_sbit ?g = neg"
    using guard_rep_default by (simp_all add: set_negative_def guard_default_def)
  have loops: "raise_loop c m e = (m, e)" "drop_loop (max_mantissa c) ?g m e = (?g, m, e)"
    using m by (simp_all add: raise_loop.simps [of c m] drop_loop.simps)
  have "(let (g, m, e) = if MAX_REP < m then drop_digit ?g m e else (?g, m, e) in do_round_up c g neg m e) = (neg, m, e)"
  proof (cases "MAX_REP < m")
    case True
    note d = drop_digit_rep [OF g(1)]
    have ten: "m mod 10 = 0" using m(4) True by auto
    have small: "m div 10 < min_mantissa c" "m div 10 \<le> limit c" using m(2) limits [of c] by (cases "nc_scale c"; simp)+
    have i: "i32 (e + 1) = e + 1" "i32 e = e" using assms(3) by (auto intro: i32_id)
    have "do_round_up c (do_push (m mod 10) ?g) neg (m div 10) (e + 1) = bring_into_range c neg (m div 10) (e + 1)"
      using do_round_up_spec [OF d(1), of neg c "e + 1"] small g(2) assms(3) ten by (simp add: kept_exact)
    then show ?thesis using True small(1) ten assms(2) i by (auto simp: drop_digit_def bring_into_range_def)
  next
    case False
    then have "m \<le> limit c" using m(2) by (simp add: limit_def)
    then have "do_round_up c ?g neg m e = bring_into_range c neg m e"
      using do_round_up_spec [OF g(1), of neg c e] g(2) assms(3) by (simp add: kept_exact)
    then show ?thesis using False m(1) assms(2) by (simp add: bring_into_range_def)
  qed
  then show ?thesis using m assms(2) unfolding do_normalize_def by (simp add: loops Let_def)
qed





lemma mk_number_range: "in_range c m \<Longrightarrow> mk_number (neg, m, e) = \<lparr>n_negative = neg, n_mantissa = m, n_exponent = e\<rparr>"
proof -
  assume "in_range c m"
  then have "m \<le> u64_max" using limits [of c] by (cases "nc_scale c") (simp_all add: in_range_def u64_max_def)
  then show ?thesis by (simp add: mk_number_def wrap64_id)
qed






subsection \<open>Conversions\<close>

lemma normalize_raise:
  assumes "0 < m" and "m * 10 ^ s < 10 * min_mantissa c" and "NUM_MIN_EXPONENT \<le> e - int s" and "\<And>i. i < s \<Longrightarrow> m * 10 ^ i < min_mantissa c"
  shows "do_normalize c neg m e d = do_normalize c neg (m * 10 ^ s) (e - int s) d"
  using assms(3,4)
proof (induction s)
  case (Suc s)
  have "raise_loop c (m * 10 ^ s) (e - int s) = raise_loop c (m * 10 ^ s * 10) (e - int s - 1)"
    using Suc.prems by (subst raise_loop.simps) simp
  also have "\<dots> = raise_loop c (m * 10 ^ Suc s) (e - int (Suc s))" by (intro arg_cong2 [of _ _ _ _ "raise_loop c"]) simp_all
  finally have raise: "raise_loop c (m * 10 ^ s) (e - int s) = raise_loop c (m * 10 ^ Suc s) (e - int (Suc s))" .
  have nz: "m * 10 ^ s \<noteq> 0" "m * 10 ^ Suc s \<noteq> 0" using assms(1) by simp_all
  have "do_normalize c neg (m * 10 ^ s) (e - int s) d = do_normalize c neg (m * 10 ^ Suc s) (e - int (Suc s)) d"
    unfolding do_normalize_def raise if_not_P [OF nz(1)] if_not_P [OF nz(2)] ..
  then show ?case using Suc by simp
qed simp

lemma raise_to_range:
  assumes "0 < m" and "m < min_mantissa c"
  obtains s where "min_mantissa c \<le> m * 10 ^ s" and "m * 10 ^ s < 10 * min_mantissa c" and "\<And>i. i < s \<Longrightarrow> m * 10 ^ i < min_mantissa c"
    and "0 < s" and "s \<le> 18"
proof -
  define s where "s = (LEAST s. min_mantissa c \<le> m * 10 ^ s)"
  have "min_mantissa c \<le> m * 10 ^ 18" using assms(1) limits [of c] by (cases "nc_scale c") simp_all
  then have s: "min_mantissa c \<le> m * 10 ^ s" "s \<le> 18" unfolding s_def by (rule LeastI, rule Least_le)
  have below: "m * 10 ^ i < min_mantissa c" if "i < s" for i using not_less_Least [OF that [unfolded s_def]] by simp
  have "0 < s" using s(1) assms(2) by (cases s) simp_all
  then show thesis using s below [of "s - 1"] below by (intro that [of s]) (cases s; simp)+
qed

lemma from_iou_eq:
  assumes "iou_wf a" and "\<not> iou_is_zero a"
  shows "\<exists>s. s \<in> {0, 3} \<and> from_iou c a = \<lparr>n_negative = negative a, n_mantissa = mantissa a * 10 ^ s, n_exponent = exponent a - int s\<rparr>"
proof -
  define s where "s = (if nc_scale c = Small then 0 else 3 :: nat)"
  have m: "10 ^ 15 \<le> mantissa a" "mantissa a < 10 ^ 16" "-96 \<le> exponent a" "exponent a \<le> 80"
    using assms by (auto elim!: iou_wf_cases simp: MIN_MANTISSA_def MAX_MANTISSA_def)
  have r: "in_range c (mantissa a * 10 ^ s)" using m limits [of c] by (cases "nc_scale c") (simp_all add: in_range_def s_def MAX_REP_def)
  have "do_normalize c (negative a) (mantissa a) (exponent a) False = do_normalize c (negative a) (mantissa a * 10 ^ s) (exponent a - int s) False"
  proof (rule normalize_raise)
    fix i assume "i < s"
    then have "i = 0 \<or> i = 1 \<or> i = 2" "nc_scale c = Large" by (cases "nc_scale c"; auto simp: s_def)+
    then show "mantissa a * 10 ^ i < min_mantissa c" using m limits [of c] by auto
  qed (use m limits [of c] in \<open>cases "nc_scale c"; simp add: s_def NUM_MIN_EXPONENT_def\<close>)+
  also have "\<dots> = (negative a, mantissa a * 10 ^ s, exponent a - int s)"
    using m by (intro normalize_id [OF r]) (auto simp: NUM_MIN_EXPONENT_def s_def)
  finally show ?thesis using assms(2) mk_number_range [OF r] by (intro exI [of _ s]) (simp add: from_iou_def number_new_def, simp add: s_def)
qed

text \<open>Converting an issued amount to a number is exact, and converting back in any scale and mode gives the
  same amount.\<close>

theorem iou_number_roundtrip:
  assumes "iou_wf a"
  shows "number_value (from_iou c a) = iou_value a \<and> to_iou c' (from_iou c a) = a"
proof (cases "iou_is_zero a")
  case True
  then have "a = iou_ZERO" using assms by (auto elim: iou_wf_cases)
  then show ?thesis using True
    by (simp add: from_iou_def to_iou_def number_value_def number_is_zero_def iou_is_zero_def iou_value_zero) (simp add: number_ZERO_def)
next
  case False
  obtain s where s: "s \<in> {0, 3}" "from_iou c a = \<lparr>n_negative = negative a, n_mantissa = mantissa a * 10 ^ s, n_exponent = exponent a - int s\<rparr>"
    using from_iou_eq [OF assms False] by blast
  have a: "MIN_MANTISSA \<le> mantissa a" "mantissa a \<le> MAX_MANTISSA" "-96 \<le> exponent a" "exponent a \<le> 80"
    using assms False by (auto elim: iou_wf_cases)
  have "number_value (from_iou c a) = iou_value a"
    using mag_shift_up [of "mantissa a" s "exponent a - int s"] by (simp add: s(2) number_value_def iou_value_def)
  moreover have "to_iou c' (from_iou c a) = a"
  proof -
    have k: "digits_over (mantissa a * 10 ^ s) = s" using s(1) a by (auto simp: digits_over_Suc digits_over_0 iou_consts)
    have same: "iou_from_parts (wrap64 (mantissa a)) (exponent a) (negative a) = Inr a"
      using a by (simp add: from_parts_settle settle_def wrap64_id u64_max_def iou_consts)
    have trim: "trim_carry (mantissa a) (i32 (exponent a)) = (mantissa a, exponent a)"
      using a by (simp add: trim_carry.simps [of "mantissa a"] i32_id)
    have "\<not> rounds_away c' neg q 0 (10 ^ s)" if "0 < s" for neg q
      using that s(1) by (auto simp: rounds_away_def split: rounding_mode.split)
    then show ?thesis
      using a same trim s(1) unfolding to_iou_def s(2) by (auto simp: number_is_zero_def k iou_consts)
  qed
  ultimately show ?thesis ..
qed

theorem iou_number_roundtrip_witness:
  "number_value (from_iou default_ctx minus_seven) = iou_value minus_seven \<and> to_iou default_ctx (from_iou default_ctx minus_seven) = minus_seven"
  by (rule iou_number_roundtrip) simp

text \<open>Zero digits leave the guard as it is.\<close>

lemma push_zero: "g_digits g = 0 \<Longrightarrow> \<not> g_xbit g \<Longrightarrow> do_push 0 g = g"
  by (cases g) (simp add: do_push_def)

lemma push_fraction_zeros:
  assumes "g_digits g = 0" and "\<not> g_xbit g" and "z = 1 \<or> z = -1"
  shows "push_fraction k (g, z * int (m * 10 ^ k)) = (g, z * int m)"
proof (induction k)
  case (Suc k)
  have "nat (\<bar>z * int (m * 10 ^ Suc k)\<bar> mod 10) = 0" "tdiv10 (z * int (m * 10 ^ Suc k)) = z * int (m * 10 ^ k)"
    using assms(3) by (auto simp: tdiv10_def sgn_if nat_mod_distrib)
  then show ?case using Suc push_zero [OF assms(1,2)] by (simp only: push_fraction.simps Let_def prod.case)
qed simp

lemma from_int_eq:
  assumes "v \<noteq> 0" and "\<bar>v\<bar> < 10 ^ 15"
  obtains s where "from_int c v = \<lparr>n_negative = v < 0, n_mantissa = nat \<bar>v\<bar> * 10 ^ s, n_exponent = - int s\<rparr>"
proof -
  have m: "0 < nat \<bar>v\<bar>" "nat \<bar>v\<bar> < min_mantissa c" using assms limits [of c] by (cases "nc_scale c"; simp add: nat_less_iff)+
  obtain s where s: "min_mantissa c \<le> nat \<bar>v\<bar> * 10 ^ s" "nat \<bar>v\<bar> * 10 ^ s < 10 * min_mantissa c"
    "\<And>i. i < s \<Longrightarrow> nat \<bar>v\<bar> * 10 ^ i < min_mantissa c" "0 < s" "s \<le> 18" using raise_to_range [OF m] by blast
  have "nat \<bar>v\<bar> * 10 ^ s \<le> max_mantissa c" using s(2) limits [of c] by (cases "nc_scale c") simp_all
  moreover have "10 dvd nat \<bar>v\<bar> * 10 ^ s" using s(4) by (intro dvd_mult) (simp add: dvd_power)
  ultimately have r: "in_range c (nat \<bar>v\<bar> * 10 ^ s)" using s(1) by (simp add: in_range_def)
  have "do_normalize c (v < 0) (nat \<bar>v\<bar>) 0 False = do_normalize c (v < 0) (nat \<bar>v\<bar> * 10 ^ s) (0 - int s) False"
    using s m by (intro normalize_raise) (simp_all add: NUM_MIN_EXPONENT_def)
  also have "\<dots> = (v < 0, nat \<bar>v\<bar> * 10 ^ s, - int s)" using s(5) normalize_id [OF r, of "0 - int s" "v < 0"] by (simp add: NUM_MIN_EXPONENT_def)
  finally show thesis using assms(1) mk_number_range [OF r] by (intro that [of s]) (simp add: from_int_def number_new_def)
qed

text \<open>C40: Converting a number back to an integer loses the sign: it is applied before and after the digits are
  dropped, so a negative number comes back positive, in every scale and rounding mode.\<close>

theorem to_i64_loses_sign:
  assumes "\<bar>v\<bar> < 10 ^ 15"
  shows "to_i64 c (from_int c v) = \<bar>v\<bar>"
proof (cases "v = 0")
  case True
  then show ?thesis by (simp add: from_int_def to_i64_def number_is_zero_def number_ZERO_def)
next
  case False
  obtain s where f: "from_int c v = \<lparr>n_negative = v < 0, n_mantissa = nat \<bar>v\<bar> * 10 ^ s, n_exponent = - int s\<rparr>"
    using from_int_eq [OF False assms] by blast
  let ?g = "if v < 0 then set_negative guard_default else guard_default"
  let ?z = "if v < 0 then -1 else 1 :: int"
  have g: "g_digits ?g = 0" "\<not> g_xbit ?g" by (simp_all add: set_negative_def guard_default_def)
  have push: "push_fraction s (?g, ?z * int (nat \<bar>v\<bar> * 10 ^ s)) = (?g, ?z * int (nat \<bar>v\<bar>))"
    by (rule push_fraction_zeros [OF g]) simp
  have round: "guard_round c ?g = -1" using g by (cases "nc_mode c") (simp_all add: guard_round_def)
  have nz: "\<not> number_is_zero (from_int c v)" using False by (simp add: f number_is_zero_def)
  show ?thesis using nz assms push round unfolding to_i64_def f number.select_convs Let_def by (cases "v < 0") simp_all
qed

theorem to_i64_loses_sign_witness: "to_i64 default_ctx (from_int default_ctx (-5)) = 5"
  using to_i64_loses_sign [of "-5" default_ctx] by simp

end
