(* ===== verification/Shamap_Node.thy ===== *)
theory Shamap_Node
  imports Tx_Set_Root
begin

text \<open>
  The nodes of the state and transaction trees: \<^verbatim>\<open>crates/shamap/src/{error,item,leaf_node,node,inner_node}.rs\<close>
  and the store records of \<^verbatim>\<open>node_store.rs\<close>. An inner node keeps sixteen child hashes, a bit
  mask of the occupied branches, the cached hash (zero when it has to be computed again) and, for
  each branch, the child when it is in memory; a child that is not is fetched from the backing store
  by its hash. A backing store is a function from hashes to records; the in-memory one of
  \<^verbatim>\<open>node_store.rs\<close> is modelled in full. \<open>Arc\<close> sharing is value semantics here: a node that is
  shared is cloned before it is written. SHA-512/2 is the parameter \<open>sha\<close>.
\<close>

subsection \<open>Errors, items and leaves\<close>

datatype shamap_error = Immutable | NotFound | DuplicateKey | InvalidNode | InvalidKeyLength nat
  | NodeNotFound hash256 | MissingStore | DeserializeError

record shamap_item =
  item_key :: hash256
  item_data :: bytes

record leaf_data =
  ld_item :: shamap_item
  ld_hash :: hash256

datatype leaf_node = AccountState leaf_data | TransactionNoMeta leaf_data | TransactionWithMeta leaf_data

type_synonym leaf_ctor = "hash256 \<Rightarrow> bytes \<Rightarrow> leaf_node"

definition TRANSACTION_ID_PREFIX :: bytes where
  "TRANSACTION_ID_PREFIX = [0x54, 0x58, 0x4E, 0x00]"

definition TX_NODE_PREFIX :: bytes where
  "TX_NODE_PREFIX = [0x53, 0x4E, 0x44, 0x00]"

definition LEAF_NODE_PREFIX :: bytes where
  "LEAF_NODE_PREFIX = [0x4D, 0x4C, 0x4E, 0x00]"

definition hash_account_state :: "(bytes \<Rightarrow> hash256) \<Rightarrow> shamap_item \<Rightarrow> hash256" where
  "hash_account_state sha item = sha (LEAF_NODE_PREFIX @ item_data item @ as_bytes (item_key item))"

definition hash_tx_no_meta :: "(bytes \<Rightarrow> hash256) \<Rightarrow> shamap_item \<Rightarrow> hash256" where
  "hash_tx_no_meta sha item = sha (TRANSACTION_ID_PREFIX @ item_data item)"

definition hash_tx_with_meta :: "(bytes \<Rightarrow> hash256) \<Rightarrow> shamap_item \<Rightarrow> hash256" where
  "hash_tx_with_meta sha item = sha (TX_NODE_PREFIX @ item_data item @ as_bytes (item_key item))"

definition account_state :: "(bytes \<Rightarrow> hash256) \<Rightarrow> leaf_ctor" where
  "account_state sha key data = (let item = \<lparr>item_key = key, item_data = data\<rparr>
     in AccountState \<lparr>ld_item = item, ld_hash = hash_account_state sha item\<rparr>)"

definition transaction_no_meta :: "(bytes \<Rightarrow> hash256) \<Rightarrow> leaf_ctor" where
  "transaction_no_meta sha key data = (let item = \<lparr>item_key = key, item_data = data\<rparr>
     in TransactionNoMeta \<lparr>ld_item = item, ld_hash = hash_tx_no_meta sha item\<rparr>)"

definition transaction_with_meta :: "(bytes \<Rightarrow> hash256) \<Rightarrow> leaf_ctor" where
  "transaction_with_meta sha key data = (let item = \<lparr>item_key = key, item_data = data\<rparr>
     in TransactionWithMeta \<lparr>ld_item = item, ld_hash = hash_tx_with_meta sha item\<rparr>)"

fun leaf_node_data :: "leaf_node \<Rightarrow> leaf_data" where
  "leaf_node_data (AccountState d) = d"
| "leaf_node_data (TransactionNoMeta d) = d"
| "leaf_node_data (TransactionWithMeta d) = d"

definition leaf_hash :: "leaf_node \<Rightarrow> hash256" where
  "leaf_hash l = ld_hash (leaf_node_data l)"

definition leaf_key :: "leaf_node \<Rightarrow> hash256" where
  "leaf_key l = item_key (ld_item (leaf_node_data l))"

definition leaf_bytes :: "leaf_node \<Rightarrow> bytes" where
  "leaf_bytes l = item_data (ld_item (leaf_node_data l))"

definition update_data :: "(bytes \<Rightarrow> hash256) \<Rightarrow> leaf_node \<Rightarrow> bytes \<Rightarrow> leaf_node" where
  "update_data sha l data =
     (let item = \<lparr>item_key = leaf_key l, item_data = data\<rparr> in
      case l of
        AccountState _ \<Rightarrow> AccountState \<lparr>ld_item = item, ld_hash = hash_account_state sha item\<rparr>
      | TransactionNoMeta _ \<Rightarrow> TransactionNoMeta \<lparr>ld_item = item, ld_hash = hash_tx_no_meta sha item\<rparr>
      | TransactionWithMeta _ \<Rightarrow> TransactionWithMeta \<lparr>ld_item = item, ld_hash = hash_tx_with_meta sha item\<rparr>)"

definition new_same_type :: "(bytes \<Rightarrow> hash256) \<Rightarrow> leaf_node \<Rightarrow> leaf_ctor" where
  "new_same_type sha l key data =
     (case l of
        AccountState _ \<Rightarrow> account_state sha key data
      | TransactionNoMeta _ \<Rightarrow> transaction_no_meta sha key data
      | TransactionWithMeta _ \<Rightarrow> transaction_with_meta sha key data)"

subsection \<open>Inner nodes\<close>

datatype inner_node = InnerNode (in_hashes: "hash256 list") (in_children: "shamap_node option list")
    (in_branch: "16 word") (in_hash: hash256)
  and shamap_node = Inner inner_node | Leaf leaf_node

definition inner_new :: inner_node where
  "inner_new = InnerNode (replicate BRANCH_FACTOR 0) (replicate BRANCH_FACTOR None) 0 0"

definition compute_hash :: "(bytes \<Rightarrow> hash256) \<Rightarrow> inner_node \<Rightarrow> hash256" where
  "compute_hash sha n = sha (INNER_NODE_PREFIX @ concat (map as_bytes (in_hashes n)))"

definition inner_node_hash :: "(bytes \<Rightarrow> hash256) \<Rightarrow> inner_node \<Rightarrow> hash256" where
  "inner_node_hash sha n = (if in_hash n = 0 \<and> in_branch n \<noteq> 0 then compute_hash sha n else in_hash n)"

fun sha_node_hash :: "(bytes \<Rightarrow> hash256) \<Rightarrow> shamap_node \<Rightarrow> hash256" where
  "sha_node_hash sha (Inner n) = inner_node_hash sha n"
| "sha_node_hash sha (Leaf l) = leaf_hash l"

definition set_cached_hash :: "hash256 \<Rightarrow> inner_node \<Rightarrow> inner_node" where
  "set_cached_hash h n = InnerNode (in_hashes n) (in_children n) (in_branch n) h"

definition update_hash :: "(bytes \<Rightarrow> hash256) \<Rightarrow> inner_node \<Rightarrow> inner_node" where
  "update_hash sha n = set_cached_hash (if in_branch n = 0 then 0 else compute_hash sha n) n"

definition is_empty_branch :: "inner_node \<Rightarrow> nat \<Rightarrow> bool" where
  "is_empty_branch n branch \<longleftrightarrow> in_branch n AND push_bit branch 1 = 0"

definition loaded_child :: "inner_node \<Rightarrow> nat \<Rightarrow> shamap_node option" where
  "loaded_child n branch = (if is_empty_branch n branch then None else in_children n ! branch)"

definition set_child :: "(bytes \<Rightarrow> hash256) \<Rightarrow> nat \<Rightarrow> shamap_node \<Rightarrow> inner_node \<Rightarrow> inner_node" where
  "set_child sha branch node n =
     InnerNode ((in_hashes n)[branch := sha_node_hash sha node]) ((in_children n)[branch := Some node])
       (in_branch n OR push_bit branch 1) 0"

definition set_child_hash :: "nat \<Rightarrow> hash256 \<Rightarrow> inner_node \<Rightarrow> inner_node" where
  "set_child_hash branch h n =
     InnerNode ((in_hashes n)[branch := h]) (in_children n) (in_branch n OR push_bit branch 1) (in_hash n)"

definition remove_child :: "nat \<Rightarrow> inner_node \<Rightarrow> inner_node" where
  "remove_child branch n =
     InnerNode ((in_hashes n)[branch := 0]) ((in_children n)[branch := None])
       (in_branch n AND NOT (push_bit branch 1)) 0"

definition take_child :: "nat \<Rightarrow> inner_node \<Rightarrow> inner_node \<times> shamap_node option" where
  "take_child branch n =
     (if is_empty_branch n branch then (n, None) else (remove_child branch n, in_children n ! branch))"

subsection \<open>The branches of a mask\<close>

definition trailing_zeros :: "16 word \<Rightarrow> nat" where
  "trailing_zeros m = length (takeWhile (\<lambda>i. \<not> bit m i) [0..<16])"

definition branch_count :: "inner_node \<Rightarrow> nat" where
  "branch_count n = length (filter (bit (in_branch n)) [0..<16])"

definition single_branch :: "inner_node \<Rightarrow> nat option" where
  "single_branch n = (if branch_count n = 1 then Some (trailing_zeros (in_branch n)) else None)"

lemma length_takeWhile_lt: "\<exists>x\<in>set xs. \<not> P x \<Longrightarrow> length (takeWhile P xs) < length xs"
  by (induction xs) auto

lemma trailing_zeros_least:
  assumes "m \<noteq> 0"
  shows "trailing_zeros m < 16" "bit m (trailing_zeros m)" "\<And>i. i < trailing_zeros m \<Longrightarrow> \<not> bit m i"
proof -
  have "\<exists>j<16. bit m j"
  proof (rule ccontr)
    assume "\<not> (\<exists>j<16. bit m j)"
    then have "m = 0" by (intro bit_word_eqI) simp
    then show False using assms by simp
  qed
  then have "\<exists>j\<in>set [0..<16]. \<not> \<not> bit m j" by auto
  then have "trailing_zeros m < length [0..<16::nat]" unfolding trailing_zeros_def
    by (rule length_takeWhile_lt)
  then show lt: "trailing_zeros m < 16" by simp
  show "bit m (trailing_zeros m)"
    using nth_length_takeWhile [of "\<lambda>i. \<not> bit m i" "[0..<16]"] lt unfolding trailing_zeros_def by simp
  show "\<not> bit m i" if "i < trailing_zeros m" for i
  proof -
    have "takeWhile (\<lambda>i. \<not> bit m i) [0..<16] ! i = i"
      using that lt unfolding trailing_zeros_def by (simp add: takeWhile_nth)
    moreover have "takeWhile (\<lambda>i. \<not> bit m i) [0..<16] ! i \<in> set (takeWhile (\<lambda>i. \<not> bit m i) [0..<16])"
      using that unfolding trailing_zeros_def by (rule nth_mem)
    ultimately show ?thesis using set_takeWhileD [of i "\<lambda>i. \<not> bit m i" "[0..<16]"] by simp
  qed
qed

lemma clear_lowest_bit:
  assumes "m \<noteq> 0"
  shows "bit (m AND (m - 1)) i \<longleftrightarrow> bit m i \<and> i \<noteq> trailing_zeros m"
proof -
  note tz = trailing_zeros_least [OF assms]
  let ?k = "trailing_zeros m"
  define x where "x = m AND NOT (mask (Suc ?k))"
  have bx: "bit x j \<longleftrightarrow> bit m j \<and> ?k < j" for j
    by (auto simp: x_def bit_simps less_Suc_eq dest: bit_imp_le_length)
  have "bit m j \<longleftrightarrow> bit x j \<or> j = ?k" for j using tz(2) tz(3) [of j] unfolding bx by (cases j ?k rule: linorder_cases) auto
  then have "m = x OR push_bit ?k 1" using tz(1) by (intro bit_word_eqI) (auto simp: bit_or_iff bit_exp_iff)
  moreover have "x OR push_bit ?k 1 = x + push_bit ?k 1"
    by (rule disjunctive_add [symmetric]) (auto simp: bx bit_exp_iff)
  ultimately have "m = x + 2 ^ ?k" by (simp only: push_bit_of_1)
  then have "m - 1 = x + mask ?k" by (simp only: mask_eq_exp_minus_1 add_diff_eq)
  also have "\<dots> = x OR mask ?k" by (rule disjunctive_add) (auto simp: bx bit_mask_iff)
  finally have "bit (m - 1) i \<longleftrightarrow> bit x i \<or> (i < 16 \<and> i < ?k)" by (simp add: bit_or_iff bit_mask_iff)
  then show ?thesis using tz(3) [of i] unfolding bit_and_iff bx by (cases i ?k rule: linorder_cases) auto
qed

function mask_branches :: "16 word \<Rightarrow> nat list" where
  "mask_branches m = (if m = 0 then [] else trailing_zeros m # mask_branches (m AND (m - 1)))"
  by pat_completeness auto
termination
proof (relation "measure unat")
  fix m :: "16 word" assume m: "m \<noteq> 0"
  have "unat (m AND (m - 1)) \<le> unat (m - 1)" using word_and_le1 [of m "m - 1"] by (simp only: word_le_nat_alt)
  also have "unat (m - 1) < unat m" using m by (rule measure_unat)
  finally show "(m AND (m - 1), m) \<in> measure unat" by simp
qed simp

declare mask_branches.simps [simp del]

lemma mask_branches_filter: "mask_branches m = filter (bit m) [0..<16]"
proof (induction m rule: mask_branches.induct)
  case (1 m)
  show ?case
  proof (cases "m = 0")
    case False
    note tz = trailing_zeros_least [OF False]
    have "filter (bit m) [0..<16] = trailing_zeros m # filter (bit (m AND (m - 1))) [0..<16]"
    proof (rule sorted_distinct_set_unique)
      show "set (filter (bit m) [0..<16]) = set (trailing_zeros m # filter (bit (m AND (m - 1))) [0..<16])"
        using tz by (auto simp: clear_lowest_bit [OF False])
      show "sorted (trailing_zeros m # filter (bit (m AND (m - 1))) [0..<16])"
        using tz(3) by (auto simp: clear_lowest_bit [OF False] sorted_wrt_filter not_less [symmetric])
    qed (simp_all add: clear_lowest_bit [OF False] sorted_wrt_filter)
    then show ?thesis using 1 False by (simp add: mask_branches.simps [of m])
  qed (simp add: mask_branches.simps)
qed

lemma set_mask_branches: "b \<in> set (mask_branches m) \<longleftrightarrow> bit m b"
  using bit_imp_le_length [of m b] by (auto simp: mask_branches_filter)

lemma is_empty_branch_bit: "is_empty_branch n b \<longleftrightarrow> \<not> bit (in_branch n) b"
proof
  assume "is_empty_branch n b"
  then have "\<not> bit (in_branch n AND push_bit b 1) b" unfolding is_empty_branch_def by (simp only: bit_0_eq bot_apply) simp
  then show "\<not> bit (in_branch n) b" using bit_imp_le_length [of "in_branch n" b] by (auto simp: bit_and_iff bit_exp_iff)
next
  assume "\<not> bit (in_branch n) b"
  then show "is_empty_branch n b" unfolding is_empty_branch_def
    by (intro bit_word_eqI) (auto simp: bit_and_iff bit_exp_iff)
qed

lemma single_branch_iff: "single_branch n = Some b \<longleftrightarrow> {i. bit (in_branch n) i} = {b}"
proof
  assume l: "single_branch n = Some b"
  then have one: "length (mask_branches (in_branch n)) = 1" "b = trailing_zeros (in_branch n)"
    by (auto simp: single_branch_def branch_count_def mask_branches_filter split: if_splits)
  then have "in_branch n \<noteq> 0" by (auto simp: mask_branches.simps)
  then have "mask_branches (in_branch n) = [b]"
    using one by (subst (asm) mask_branches.simps, subst mask_branches.simps) simp
  then show "{i. bit (in_branch n) i} = {b}" using set_mask_branches [of _ "in_branch n"] by auto
next
  assume r: "{i. bit (in_branch n) i} = {b}"
  then have b: "bit (in_branch n) i \<longleftrightarrow> i = b" for i by auto
  then have "bit (in_branch n) b" by simp
  then have "in_branch n \<noteq> 0" "b < 16" using bit_imp_le_length [of "in_branch n" b] by auto
  then have "trailing_zeros (in_branch n) = b" using trailing_zeros_least(2) [of "in_branch n"] by (simp add: b)
  moreover have "filter (bit (in_branch n)) [0..<16] = [b]"
    by (rule sorted_distinct_set_unique) (use b \<open>b < 16\<close> in \<open>auto simp: sorted_wrt_filter\<close>)
  ultimately show "single_branch n = Some b" by (simp add: single_branch_def branch_count_def)
qed

lemma branch_count_0: "branch_count n = 0 \<longleftrightarrow> (\<forall>i. \<not> bit (in_branch n) i)"
proof -
  have "branch_count n = 0 \<longleftrightarrow> (\<forall>i\<in>set [0..<16]. \<not> bit (in_branch n) i)" by (simp only: branch_count_def length_0_conv filter_empty_conv)
  then show ?thesis using bit_imp_le_length [of "in_branch n"] by auto
qed

subsection \<open>Store records\<close>

definition hash_of_bytes :: "bytes \<Rightarrow> hash256" where
  "hash_of_bytes bs = foldl (\<lambda>h b. push_bit 8 h OR ucast b) 0 bs"

definition STORE_TAG_INNER :: byte where
  "STORE_TAG_INNER = 0x00"

definition STORE_TAG_LEAF :: byte where
  "STORE_TAG_LEAF = 0x01"

definition serialize_inner :: "hash256 list \<Rightarrow> bytes" where
  "serialize_inner child_hashes = STORE_TAG_INNER # concat (map as_bytes child_hashes)"

definition serialize_leaf :: "hash256 \<Rightarrow> bytes \<Rightarrow> bytes" where
  "serialize_leaf key data = STORE_TAG_LEAF # as_bytes key @ data"

definition deserialize_node :: "bytes \<Rightarrow> hash256 \<Rightarrow> leaf_ctor \<Rightarrow> shamap_error + shamap_node" where
  "deserialize_node bs h ctor =
     (case bs of [] \<Rightarrow> Inl DeserializeError
      | tag # body \<Rightarrow>
          if tag = STORE_TAG_INNER \<and> length body = BRANCH_FACTOR * 32 then
            Inr (Inner (set_cached_hash h
              (fold (\<lambda>i n. let c = hash_of_bytes (take 32 (drop (i * 32) body))
                 in if c \<noteq> 0 then set_child_hash i c n else n) [0..<BRANCH_FACTOR] inner_new)))
          else if tag = STORE_TAG_LEAF \<and> 32 \<le> length body then
            Inr (Leaf (ctor (hash_of_bytes (take 32 body)) (drop 32 body)))
          else Inl DeserializeError)"

type_synonym node_fetch = "hash256 \<Rightarrow> shamap_error + bytes option"

definition fetch_child :: "node_fetch option \<Rightarrow> leaf_ctor \<Rightarrow> hash256 \<Rightarrow> shamap_error + shamap_node" where
  "fetch_child store ctor h =
     (case store of None \<Rightarrow> Inl MissingStore
      | Some fetch \<Rightarrow>
          (case fetch h of Inl e \<Rightarrow> Inl e
           | Inr None \<Rightarrow> Inl (NodeNotFound h)
           | Inr (Some bs) \<Rightarrow> deserialize_node bs h ctor))"

definition child_with_store :: "inner_node \<Rightarrow> nat \<Rightarrow> node_fetch option \<Rightarrow> leaf_ctor \<Rightarrow> shamap_error + shamap_node option" where
  "child_with_store n branch store ctor =
     (if is_empty_branch n branch then Inr None
      else (case in_children n ! branch of
          Some node \<Rightarrow> Inr (Some node)
        | None \<Rightarrow> (case fetch_child store ctor (in_hashes n ! branch) of Inl e \<Rightarrow> Inl e | Inr node \<Rightarrow> Inr (Some node))))"

definition ensure_loaded :: "nat \<Rightarrow> node_fetch option \<Rightarrow> leaf_ctor \<Rightarrow> inner_node \<Rightarrow> inner_node \<times> (shamap_error + unit)" where
  "ensure_loaded branch store ctor n =
     (if is_empty_branch n branch then (n, Inr ())
      else if in_children n ! branch \<noteq> None then (n, Inr ())
      else (case fetch_child store ctor (in_hashes n ! branch) of
          Inl e \<Rightarrow> (n, Inl e)
        | Inr node \<Rightarrow> (InnerNode (in_hashes n) ((in_children n)[branch := Some node]) (in_branch n) (in_hash n), Inr ())))"

lemma bit_hash_of_bytes:
  "bit (hash_of_bytes bs) n \<longleftrightarrow> n < 256 \<and> n div 8 < length bs \<and> bit (bs ! (length bs - 1 - n div 8)) (n mod 8)"
proof (induction bs arbitrary: n rule: rev_induct)
  case Nil
  then show ?case by (simp add: hash_of_bytes_def)
next
  case (snoc b bs)
  have step: "hash_of_bytes (bs @ [b]) = push_bit 8 (hash_of_bytes bs) OR ucast b" by (simp add: hash_of_bytes_def)
  show ?case
  proof (cases "n < 8")
    case True
    then show ?thesis by (simp add: step bit_or_iff bit_push_bit_iff bit_ucast_iff nth_append)
  next
    case False
    then have d: "n div 8 = Suc ((n - 8) div 8)" "n mod 8 = (n - 8) mod 8" by (simp_all add: le_div_geq le_mod_geq)
    have "bit (hash_of_bytes (bs @ [b])) n \<longleftrightarrow> n < 256 \<and> bit (hash_of_bytes bs) (n - 8)"
      using False bit_imp_le_length [of b n] by (auto simp: step bit_or_iff bit_push_bit_iff bit_ucast_iff)
    also have "\<dots> \<longleftrightarrow> n < 256 \<and> (n - 8) div 8 < length bs \<and> bit (bs ! (length bs - 1 - (n - 8) div 8)) ((n - 8) mod 8)"
      using snoc.IH [of "n - 8"] by auto
    finally show ?thesis by (auto simp: d nth_append)
  qed
qed

lemma as_bytes_hash_of_bytes:
  assumes "length bs = 32"
  shows "as_bytes (hash_of_bytes bs) = bs"
proof (rule nth_equalityI)
  fix i assume "i < length (as_bytes (hash_of_bytes bs))"
  then have i: "i < 32" by simp
  have "hash_byte (hash_of_bytes bs) i = bs ! i"
  proof (rule bit_word_eqI)
    fix j assume "j < LENGTH(8)"
    then have "(8 * (31 - i) + j) div 8 = 31 - i" "(8 * (31 - i) + j) mod 8 = j" "j < 8" "8 * (31 - i) + j < 256" by auto
    then show "bit (hash_byte (hash_of_bytes bs) i) j = bit (bs ! i) j"
      using i assms unfolding bit_hash_byte bit_hash_of_bytes by simp
  qed
  then show "as_bytes (hash_of_bytes bs) ! i = bs ! i" using i by (simp add: as_bytes_def)
qed (simp add: assms)

lemma hash_of_bytes_as_bytes [simp]: "hash_of_bytes (as_bytes h) = h"
  using as_bytes_hash_of_bytes [of "as_bytes h"] by (simp add: as_bytes_inj)

lemma chunk_as_bytes: "i < length hs \<Longrightarrow> take 32 (drop (i * 32) (concat (map as_bytes hs))) = as_bytes (hs ! i)"
proof (induction hs arbitrary: i)
  case (Cons h hs)
  then show ?case by (cases i) (simp_all add: add.commute [of 32])
qed simp

definition nonzero_mask :: "hash256 list \<Rightarrow> 16 word \<Rightarrow> bool" where
  "nonzero_mask hs m \<longleftrightarrow> (\<forall>i. bit m i \<longleftrightarrow> i < length hs \<and> hs ! i \<noteq> 0)"

lemma nonzero_mask_snoc:
  assumes "nonzero_mask hs m" and "length hs < 16"
  shows "nonzero_mask (hs @ [c]) (if c \<noteq> 0 then m OR push_bit (length hs) 1 else m)"
  unfolding nonzero_mask_def
proof
  fix i
  have i: "bit m j \<longleftrightarrow> j < length hs \<and> hs ! j \<noteq> 0" for j using assms(1) by (simp add: nonzero_mask_def)
  show "bit (if c \<noteq> 0 then m OR push_bit (length hs) 1 else m) i \<longleftrightarrow> i < length (hs @ [c]) \<and> (hs @ [c]) ! i \<noteq> 0"
    using assms(2) by (cases i "length hs" rule: linorder_cases) (auto simp: i bit_or_iff bit_exp_iff nth_append)
qed

abbreviation put_hash :: "hash256 list \<Rightarrow> nat \<Rightarrow> inner_node \<Rightarrow> inner_node" where
  "put_hash hs i n \<equiv> (let c = hs ! i in if c \<noteq> 0 then set_child_hash i c n else n)"

lemma put_hash_next:
  assumes "length hs = 16" and "k < 16"
  shows "put_hash hs k (InnerNode (take k hs @ replicate (16 - k) 0) cs m h)
    = InnerNode (take (Suc k) hs @ replicate (16 - Suc k) 0) cs (if hs ! k \<noteq> 0 then m OR push_bit k 1 else m) h"
proof -
  have "take (Suc k) hs = take k hs @ [hs ! k]" using assms by (simp add: take_Suc_conv_app_nth)
  moreover have "replicate (16 - k) (0 :: hash256) = 0 # replicate (16 - Suc k) 0" using assms(2) by (simp add: Suc_diff_Suc [symmetric])
  moreover have "(take k hs @ 0 # r)[k := c] = take k hs @ c # r" for c r using assms by (simp add: list_update_append)
  ultimately show ?thesis by (simp add: set_child_hash_def)
qed

lemma set_child_hashes:
  assumes "length hs = 16" and "k \<le> 16"
  shows "\<exists>m. fold (put_hash hs) [0..<k] inner_new
      = InnerNode (take k hs @ replicate (16 - k) 0) (replicate 16 None) m 0 \<and> nonzero_mask (take k hs) m"
  using assms(2)
proof (induction k)
  case 0
  then show ?case by (simp add: inner_new_def BRANCH_FACTOR_def nonzero_mask_def)
next
  case (Suc k)
  then obtain m where m: "fold (put_hash hs) [0..<k] inner_new
      = InnerNode (take k hs @ replicate (16 - k) 0) (replicate 16 None) m 0" "nonzero_mask (take k hs) m" by auto
  have k: "k < 16" "length (take k hs) = k" "take (Suc k) hs = take k hs @ [hs ! k]"
    using Suc.prems assms(1) by (simp_all add: take_Suc_conv_app_nth)
  have "length (take k hs) < 16" using k(1) by (simp only: k(2))
  from nonzero_mask_snoc [OF m(2) this, of "hs ! k"]
  have "nonzero_mask (take (Suc k) hs) (if hs ! k \<noteq> 0 then m OR push_bit k 1 else m)" by (simp only: k(2,3))
  moreover have "fold (put_hash hs) [0..<Suc k] inner_new = put_hash hs k (fold (put_hash hs) [0..<k] inner_new)" by simp
  ultimately show ?case unfolding m(1) put_hash_next [OF assms(1) k(1)] by blast
qed

lemma deserialize_inner:
  assumes "length hs = 16"
  shows "\<exists>m. deserialize_node (serialize_inner hs) h ctor = Inr (Inner (InnerNode hs (replicate 16 None) m h)) \<and> nonzero_mask hs m"
proof -
  have "length (concat (map as_bytes hs)) = length hs * 32" by (induction hs) simp_all
  then have "deserialize_node (serialize_inner hs) h ctor
      = Inr (Inner (set_cached_hash h (fold (put_hash hs) [0..<16] inner_new)))"
    using assms by (auto simp: deserialize_node_def serialize_inner_def BRANCH_FACTOR_def chunk_as_bytes intro!: fold_cong arg_cong [of _ _ "set_cached_hash h"])
  then show ?thesis using set_child_hashes [OF assms order.refl] assms by (auto simp: set_cached_hash_def)
qed

lemma deserialize_leaf: "deserialize_node (serialize_leaf key data) h ctor = Inr (Leaf (ctor key data))"
  by (simp add: deserialize_node_def serialize_leaf_def STORE_TAG_LEAF_def STORE_TAG_INNER_def)

subsection \<open>The in-memory store\<close>

text \<open>A lock of the standard library is poisoned once a thread has panicked while holding it; every
  operation of the store then answers with an error.\<close>

record mem_store =
  ms_data :: "(hash256, bytes) hmap"
  ms_poisoned :: bool

definition mem_new :: mem_store where
  "mem_new = \<lparr>ms_data = [], ms_poisoned = False\<rparr>"

definition mem_fetch :: "mem_store \<Rightarrow> node_fetch" where
  "mem_fetch s h = (if ms_poisoned s then Inl InvalidNode else Inr (hm_get (ms_data s) h))"

definition mem_store_batch :: "(hash256 \<times> bytes) list \<Rightarrow> mem_store \<Rightarrow> mem_store \<times> (shamap_error + unit)" where
  "mem_store_batch entries s =
     (if ms_poisoned s then (s, Inl InvalidNode)
      else (s\<lparr>ms_data := fold (\<lambda>(h, bs) m. hm_insert h bs m) entries (ms_data s)\<rparr>, Inr ()))"

definition mem_delete_batch :: "hash256 list \<Rightarrow> mem_store \<Rightarrow> mem_store \<times> (shamap_error + unit)" where
  "mem_delete_batch hs s =
     (if ms_poisoned s then (s, Inl InvalidNode)
      else (s\<lparr>ms_data := fold hm_remove hs (ms_data s)\<rparr>, Inr ()))"

definition mem_len :: "mem_store \<Rightarrow> nat" where
  "mem_len s = (if ms_poisoned s then 0 else length (ms_data s))"

end
