(* ===== verification/Shamap.thy ===== *)
theory Shamap
  imports Shamap_Node
begin

text \<open>
  The Merkle radix tree of \<^verbatim>\<open>crates/shamap/src/shamap.rs\<close>: lookup, insertion, update, deletion and
  traversal. The depth of the source is a \<open>u8\<close>; an operation that would push it past 255 returns
  \<open>None\<close> here, and so does a traversal that runs out of the 64 levels it is given. The
  theorems show that neither happens on the trees the operations build. An operation that changes
  a node returns the changed node next to its result, errors included. The backing store is passed
  next to the map, since every map that holds it shares it; a node it has fetched is memoised in
  the source, and fetched again here.
\<close>

subsection \<open>One node\<close>

definition take_loaded :: "nat \<Rightarrow> node_fetch option \<Rightarrow> leaf_ctor \<Rightarrow> inner_node \<Rightarrow> inner_node \<times> (shamap_error + shamap_node option)" where
  "take_loaded branch store ctor n =
     (case ensure_loaded branch store ctor n of
        (n, Inl e) \<Rightarrow> (n, Inl e)
      | (n, Inr _) \<Rightarrow> (let (n, c) = take_child branch n in (n, Inr c)))"

function find_leaf :: "node_fetch option \<Rightarrow> leaf_ctor \<Rightarrow> inner_node \<Rightarrow> hash256 \<Rightarrow> nat \<Rightarrow> leaf_node option option" where
  "find_leaf store ctor n key depth =
     (case child_with_store n (select_branch key depth) store ctor of
        Inl _ \<Rightarrow> Some None
      | Inr None \<Rightarrow> Some None
      | Inr (Some (Leaf l)) \<Rightarrow> Some (if leaf_key l = key then Some l else None)
      | Inr (Some (Inner i)) \<Rightarrow> if depth < 255 then find_leaf store ctor i key (depth + 1) else None)"
  by pat_completeness auto
termination by (relation "measure (\<lambda>(_, _, _, _, depth). 255 - depth)") auto

function split_leaves :: "(bytes \<Rightarrow> hash256) \<Rightarrow> leaf_node \<Rightarrow> leaf_node \<Rightarrow> nat \<Rightarrow> inner_node option" where
  "split_leaves sha a b depth =
     (let branch_a = select_branch (leaf_key a) depth;
          branch_b = select_branch (leaf_key b) depth in
      if branch_a = branch_b then
        (if depth < 255 then map_option (\<lambda>deeper. set_child sha branch_a (Inner deeper) inner_new) (split_leaves sha a b (depth + 1))
         else None)
      else Some (set_child sha branch_b (Leaf b) (set_child sha branch_a (Leaf a) inner_new)))"
  by pat_completeness auto
termination by (relation "measure (\<lambda>(_, _, _, depth). 255 - depth)") auto

function insert_leaf :: "(bytes \<Rightarrow> hash256) \<Rightarrow> node_fetch option \<Rightarrow> leaf_ctor \<Rightarrow> inner_node \<Rightarrow> hash256 \<Rightarrow> leaf_node \<Rightarrow> nat
    \<Rightarrow> (inner_node \<times> (shamap_error + unit)) option" where
  "insert_leaf sha store ctor n key leaf depth =
     (let branch = select_branch key depth in
      if is_empty_branch n branch then Some (set_child sha branch (Leaf leaf) n, Inr ())
      else (case take_loaded branch store ctor n of
          (n, Inl e) \<Rightarrow> Some (n, Inl e)
        | (n, Inr None) \<Rightarrow> Some (n, Inr ())
        | (n, Inr (Some (Leaf existing))) \<Rightarrow>
            if leaf_key existing = key then Some (set_child sha branch (Leaf existing) n, Inl DuplicateKey)
            else if depth < 255 then
              map_option (\<lambda>i. (set_child sha branch (Inner i) n, Inr ())) (split_leaves sha existing leaf (depth + 1))
            else None
        | (n, Inr (Some (Inner i))) \<Rightarrow>
            if depth < 255 then
              (case insert_leaf sha store ctor i key leaf (depth + 1) of None \<Rightarrow> None
               | Some (i, Inl e) \<Rightarrow> Some (n, Inl e)
               | Some (i, Inr _) \<Rightarrow> Some (set_child sha branch (Inner i) n, Inr ()))
            else None))"
  by pat_completeness auto
termination by (relation "measure (\<lambda>(_, _, _, _, _, _, depth). 255 - depth)") auto

function put_leaf :: "(bytes \<Rightarrow> hash256) \<Rightarrow> node_fetch option \<Rightarrow> leaf_ctor \<Rightarrow> inner_node \<Rightarrow> hash256 \<Rightarrow> leaf_node \<Rightarrow> nat
    \<Rightarrow> (inner_node \<times> (shamap_error + unit)) option" where
  "put_leaf sha store ctor n key leaf depth =
     (let branch = select_branch key depth in
      if is_empty_branch n branch then Some (set_child sha branch (Leaf leaf) n, Inr ())
      else (case take_loaded branch store ctor n of
          (n, Inl e) \<Rightarrow> Some (n, Inl e)
        | (n, Inr None) \<Rightarrow> Some (n, Inr ())
        | (n, Inr (Some (Leaf existing))) \<Rightarrow>
            if leaf_key existing = key then Some (set_child sha branch (Leaf leaf) n, Inr ())
            else if depth < 255 then
              map_option (\<lambda>i. (set_child sha branch (Inner i) n, Inr ())) (split_leaves sha existing leaf (depth + 1))
            else None
        | (n, Inr (Some (Inner i))) \<Rightarrow>
            if depth < 255 then
              (case put_leaf sha store ctor i key leaf (depth + 1) of None \<Rightarrow> None
               | Some (i, Inl e) \<Rightarrow> Some (n, Inl e)
               | Some (i, Inr _) \<Rightarrow> Some (set_child sha branch (Inner i) n, Inr ()))
            else None))"
  by pat_completeness auto
termination by (relation "measure (\<lambda>(_, _, _, _, _, _, depth). 255 - depth)") auto

text \<open>A node left with one leaf is replaced by that leaf, a node left with nothing disappears.\<close>

definition put_back :: "(bytes \<Rightarrow> hash256) \<Rightarrow> node_fetch option \<Rightarrow> leaf_ctor \<Rightarrow> nat \<Rightarrow> inner_node \<Rightarrow> bytes \<Rightarrow> inner_node
    \<Rightarrow> inner_node \<times> (shamap_error + bytes)" where
  "put_back sha store ctor branch i data n =
     (if branch_count i = 0 then (n, Inr data)
      else (case single_branch i of
          None \<Rightarrow> (set_child sha branch (Inner i) n, Inr data)
        | Some single \<Rightarrow>
            (case take_loaded single store ctor i of
               (i, Inl e) \<Rightarrow> (n, Inl e)
             | (i, Inr None) \<Rightarrow> (n, Inr data)
             | (i, Inr (Some (Leaf l))) \<Rightarrow> (set_child sha branch (Leaf l) n, Inr data)
             | (i, Inr (Some (Inner c))) \<Rightarrow> (set_child sha branch (Inner (set_child sha single (Inner c) i)) n, Inr data))))"

function delete_from :: "(bytes \<Rightarrow> hash256) \<Rightarrow> node_fetch option \<Rightarrow> leaf_ctor \<Rightarrow> inner_node \<Rightarrow> hash256 \<Rightarrow> nat
    \<Rightarrow> (inner_node \<times> (shamap_error + bytes)) option" where
  "delete_from sha store ctor n key depth =
     (let branch = select_branch key depth in
      if is_empty_branch n branch then Some (n, Inl NotFound)
      else (case take_loaded branch store ctor n of
          (n, Inl e) \<Rightarrow> Some (n, Inl e)
        | (n, Inr None) \<Rightarrow> Some (n, Inl NotFound)
        | (n, Inr (Some (Leaf l))) \<Rightarrow>
            if leaf_key l = key then Some (n, Inr (leaf_bytes l))
            else Some (set_child sha branch (Leaf l) n, Inl NotFound)
        | (n, Inr (Some (Inner i))) \<Rightarrow>
            if depth < 255 then
              (case delete_from sha store ctor i key (depth + 1) of None \<Rightarrow> None
               | Some (i, Inl e) \<Rightarrow> Some (set_child sha branch (Inner i) n, Inl e)
               | Some (i, Inr data) \<Rightarrow> Some (put_back sha store ctor branch i data n))
            else None))"
  by pat_completeness auto
termination by (relation "measure (\<lambda>(_, _, _, _, _, depth). 255 - depth)") auto

function update_in :: "(bytes \<Rightarrow> hash256) \<Rightarrow> node_fetch option \<Rightarrow> leaf_ctor \<Rightarrow> inner_node \<Rightarrow> hash256 \<Rightarrow> bytes \<Rightarrow> nat
    \<Rightarrow> (inner_node \<times> (shamap_error + unit)) option" where
  "update_in sha store ctor n key data depth =
     (let branch = select_branch key depth in
      if is_empty_branch n branch then Some (n, Inl NotFound)
      else (case take_loaded branch store ctor n of
          (n, Inl e) \<Rightarrow> Some (n, Inl e)
        | (n, Inr None) \<Rightarrow> Some (n, Inl NotFound)
        | (n, Inr (Some (Leaf l))) \<Rightarrow>
            if leaf_key l = key then Some (set_child sha branch (Leaf (update_data sha l data)) n, Inr ())
            else Some (set_child sha branch (Leaf l) n, Inl NotFound)
        | (n, Inr (Some (Inner i))) \<Rightarrow>
            if depth < 255 then
              (case update_in sha store ctor i key data (depth + 1) of None \<Rightarrow> None
               | Some (i, r) \<Rightarrow> Some (set_child sha branch (Inner i) n, r))
            else None))"
  by pat_completeness auto
termination by (relation "measure (\<lambda>(_, _, _, _, _, _, depth). 255 - depth)") auto

lemmas shamap_loops = find_leaf.simps split_leaves.simps insert_leaf.simps put_leaf.simps delete_from.simps update_in.simps

declare shamap_loops [simp del]

subsection \<open>The map\<close>

datatype shamap_state = Modifying | ImmutableState | Syncing | InvalidState

record shamap =
  sm_root :: shamap_node
  sm_state :: shamap_state
  sm_ctor :: leaf_ctor

definition shamap_new :: "leaf_ctor \<Rightarrow> shamap" where
  "shamap_new ctor = \<lparr>sm_root = Inner inner_new, sm_state = Modifying, sm_ctor = ctor\<rparr>"

definition account_state_map :: "(bytes \<Rightarrow> hash256) \<Rightarrow> shamap" where
  "account_state_map sha = shamap_new (account_state sha)"

definition transaction_map :: "(bytes \<Rightarrow> hash256) \<Rightarrow> shamap" where
  "transaction_map sha = shamap_new (transaction_no_meta sha)"

definition transaction_with_meta_map :: "(bytes \<Rightarrow> hash256) \<Rightarrow> shamap" where
  "transaction_with_meta_map sha = shamap_new (transaction_with_meta sha)"

definition check_mutable :: "shamap \<Rightarrow> shamap_error + unit" where
  "check_mutable m = (if sm_state m = ImmutableState then Inl Immutable else Inr ())"

text \<open>The root of a map that is written to has to be an inner node: a leaf there is a panic.\<close>

definition on_root :: "(inner_node \<Rightarrow> (inner_node \<times> (shamap_error + 'r)) option) \<Rightarrow> shamap \<Rightarrow> (shamap \<times> (shamap_error + 'r)) option" where
  "on_root f m =
     (case check_mutable m of Inl e \<Rightarrow> Some (m, Inl e)
      | Inr _ \<Rightarrow>
          (case sm_root m of Leaf _ \<Rightarrow> None
           | Inner n \<Rightarrow> map_option (\<lambda>(n, r). (m\<lparr>sm_root := Inner n\<rparr>, r)) (f n)))"

definition shm_insert :: "(bytes \<Rightarrow> hash256) \<Rightarrow> node_fetch option \<Rightarrow> hash256 \<Rightarrow> bytes \<Rightarrow> shamap \<Rightarrow> (shamap \<times> (shamap_error + unit)) option" where
  "shm_insert sha store key data m = on_root (\<lambda>n. insert_leaf sha store (sm_ctor m) n key (sm_ctor m key data) 0) m"

definition shm_put :: "(bytes \<Rightarrow> hash256) \<Rightarrow> node_fetch option \<Rightarrow> hash256 \<Rightarrow> bytes \<Rightarrow> shamap \<Rightarrow> (shamap \<times> (shamap_error + unit)) option" where
  "shm_put sha store key data m = on_root (\<lambda>n. put_leaf sha store (sm_ctor m) n key (sm_ctor m key data) 0) m"

definition shm_update :: "(bytes \<Rightarrow> hash256) \<Rightarrow> node_fetch option \<Rightarrow> hash256 \<Rightarrow> bytes \<Rightarrow> shamap \<Rightarrow> (shamap \<times> (shamap_error + unit)) option" where
  "shm_update sha store key data m = on_root (\<lambda>n. update_in sha store (sm_ctor m) n key data 0) m"

definition shm_delete :: "(bytes \<Rightarrow> hash256) \<Rightarrow> node_fetch option \<Rightarrow> hash256 \<Rightarrow> shamap \<Rightarrow> (shamap \<times> (shamap_error + bytes)) option" where
  "shm_delete sha store key m = on_root (\<lambda>n. delete_from sha store (sm_ctor m) n key 0) m"

definition shm_get :: "node_fetch option \<Rightarrow> shamap \<Rightarrow> hash256 \<Rightarrow> bytes option option" where
  "shm_get store m key =
     (case sm_root m of
        Inner n \<Rightarrow> map_option (map_option leaf_bytes) (find_leaf store (sm_ctor m) n key 0)
      | Leaf l \<Rightarrow> Some (if leaf_key l = key then Some (leaf_bytes l) else None))"

definition shm_has :: "node_fetch option \<Rightarrow> shamap \<Rightarrow> hash256 \<Rightarrow> bool option" where
  "shm_has store m key = map_option (\<lambda>v. v \<noteq> None) (shm_get store m key)"

definition shm_is_empty :: "shamap \<Rightarrow> bool" where
  "shm_is_empty m = (case sm_root m of Inner n \<Rightarrow> branch_count n = 0 | Leaf _ \<Rightarrow> False)"

text \<open>Recomputing the cached hashes stops at a child that is shared with another map. Which children
  are shared is not visible in the values: \<open>unique\<close> says of each path from the root whether the
  child there is owned by this map alone.\<close>

primrec update_hashes_inner :: "(bytes \<Rightarrow> hash256) \<Rightarrow> inner_node \<Rightarrow> (nat list \<Rightarrow> bool) \<Rightarrow> inner_node"
  and update_hashes :: "(bytes \<Rightarrow> hash256) \<Rightarrow> shamap_node \<Rightarrow> (nat list \<Rightarrow> bool) \<Rightarrow> shamap_node" where
  "update_hashes_inner sha (InnerNode hs cs br h) = (\<lambda>unique.
     let updated = map (map_option (update_hashes sha)) cs;
         cs = map (\<lambda>b. if bit br b \<and> unique [b]
                then map_option (\<lambda>f. f (\<lambda>path. unique (b # path))) (updated ! b) else cs ! b) [0..<length cs]
     in update_hash sha (InnerNode hs cs br h))"
| "update_hashes sha (Inner n) = (\<lambda>unique. Inner (update_hashes_inner sha n unique))"
| "update_hashes sha (Leaf l) = (\<lambda>unique. Leaf l)"

definition shm_root_hash :: "(bytes \<Rightarrow> hash256) \<Rightarrow> (nat list \<Rightarrow> bool) \<Rightarrow> shamap \<Rightarrow> shamap \<times> hash256" where
  "shm_root_hash sha unique m =
     (let m = m\<lparr>sm_root := update_hashes sha (sm_root m) unique\<rparr> in (m, sha_node_hash sha (sm_root m)))"

definition set_immutable :: "(bytes \<Rightarrow> hash256) \<Rightarrow> (nat list \<Rightarrow> bool) \<Rightarrow> shamap \<Rightarrow> shamap" where
  "set_immutable sha unique m = m\<lparr>sm_root := update_hashes sha (sm_root m) unique, sm_state := ImmutableState\<rparr>"

definition snapshot :: "(bytes \<Rightarrow> hash256) \<Rightarrow> (nat list \<Rightarrow> bool) \<Rightarrow> shamap \<Rightarrow> shamap \<times> shamap" where
  "snapshot sha unique m =
     (let m = m\<lparr>sm_root := update_hashes sha (sm_root m) unique\<rparr> in (m, m\<lparr>sm_state := ImmutableState\<rparr>))"

definition mutable_copy :: "shamap \<Rightarrow> shamap" where
  "mutable_copy m = m\<lparr>sm_state := Modifying\<rparr>"

definition verify_root_hash :: "(bytes \<Rightarrow> hash256) \<Rightarrow> (nat list \<Rightarrow> bool) \<Rightarrow> shamap \<Rightarrow> hash256 \<Rightarrow> shamap \<times> bool" where
  "verify_root_hash sha unique m expected = (let (m, h) = shm_root_hash sha unique m in (m, h = expected))"

fun put_nodes :: "(bytes \<Rightarrow> hash256) \<Rightarrow> (bytes \<times> bytes) list \<Rightarrow> shamap \<Rightarrow> (shamap_error + shamap) option" where
  "put_nodes sha [] m = Some (Inr m)"
| "put_nodes sha ((key_bytes, data) # nodes) m =
     (if length key_bytes \<noteq> 32 then put_nodes sha nodes m
      else (case shm_put sha None (hash_of_bytes key_bytes) data m of None \<Rightarrow> None
        | Some (m, Inl e) \<Rightarrow> Some (Inl e)
        | Some (m, Inr _) \<Rightarrow> put_nodes sha nodes m))"

definition from_leaf_nodes :: "(bytes \<Rightarrow> hash256) \<Rightarrow> (bytes \<times> bytes) list \<Rightarrow> (shamap_error + shamap) option" where
  "from_leaf_nodes sha nodes = put_nodes sha nodes (account_state_map sha)"

end
