(* ===== verification/Shamap_Contents.thy ===== *)
theory Shamap_Contents
  imports Shamap
begin

text \<open>
  What a tree holds. \<open>holds\<close> relates an inner node at a depth to the entries below it: it fixes the
  whole shape (a branch without entries is empty, one with a single entry is a leaf, one with more
  is an inner node), every child hash and the cached hash, and it lets a child be in memory or only
  in the backing store. \<open>merkle\<close> is the hash of that tree, computed from the entries alone. The
  lemmas show what lookup, insertion, update and deletion do to the entries.
\<close>

type_synonym contents = "hash256 \<Rightarrow> bytes option"

definition part :: "nat \<Rightarrow> nat \<Rightarrow> contents \<Rightarrow> contents" where
  "part d b M = M |` {k. select_branch k d = b}"

definition without :: "nat \<Rightarrow> nat \<Rightarrow> contents \<Rightarrow> contents" where
  "without d b M = M |` {k. select_branch k d \<noteq> b}"

definition single :: "contents \<Rightarrow> bool" where
  "single P \<longleftrightarrow> (\<exists>k v. P = [k \<mapsto> v])"

definition only_leaf :: "leaf_ctor \<Rightarrow> contents \<Rightarrow> leaf_node" where
  "only_leaf ctor P = (let k = THE k. k \<in> dom P in ctor k (the (P k)))"

definition slot_hash :: "leaf_ctor \<Rightarrow> (contents \<Rightarrow> hash256) \<Rightarrow> contents \<Rightarrow> hash256" where
  "slot_hash ctor inner P =
     (if P = Map.empty then 0 else if single P then leaf_hash (only_leaf ctor P) else inner P)"

primrec merkle :: "(bytes \<Rightarrow> hash256) \<Rightarrow> leaf_ctor \<Rightarrow> nat \<Rightarrow> nat \<Rightarrow> contents \<Rightarrow> hash256" where
  "merkle sha ctor 0 = (\<lambda>d M. 0)"
| "merkle sha ctor (Suc j) = (\<lambda>d M.
     sha (INNER_NODE_PREFIX @ concat (map as_bytes (map (\<lambda>b. slot_hash ctor (merkle sha ctor j (Suc d)) (part d b M)) [0..<16]))))"

definition root_digest :: "(bytes \<Rightarrow> hash256) \<Rightarrow> leaf_ctor \<Rightarrow> contents \<Rightarrow> hash256" where
  "root_digest sha ctor M = (if M = Map.empty then 0 else merkle sha ctor 64 0 M)"

definition node_ok :: "leaf_ctor \<Rightarrow> (contents \<Rightarrow> inner_node \<Rightarrow> bool) \<Rightarrow> contents \<Rightarrow> shamap_node \<Rightarrow> bool" where
  "node_ok ctor ok P node \<longleftrightarrow>
     (case node of Leaf l \<Rightarrow> single P \<and> l = only_leaf ctor P | Inner i \<Rightarrow> P \<noteq> Map.empty \<and> \<not> single P \<and> ok P i)"

definition slot_ok :: "node_fetch option \<Rightarrow> leaf_ctor \<Rightarrow> (contents \<Rightarrow> hash256) \<Rightarrow> (contents \<Rightarrow> inner_node \<Rightarrow> bool) \<Rightarrow> contents
    \<Rightarrow> inner_node \<Rightarrow> nat \<Rightarrow> bool" where
  "slot_ok store ctor inner ok P n b \<longleftrightarrow>
     (if P = Map.empty then \<not> bit (in_branch n) b \<and> in_hashes n ! b = 0 \<and> in_children n ! b = None
      else bit (in_branch n) b \<and> in_hashes n ! b = slot_hash ctor inner P
        \<and> (\<exists>node. (case in_children n ! b of Some c \<Rightarrow> Inr c | None \<Rightarrow> fetch_child store ctor (in_hashes n ! b)) = Inr node
             \<and> node_ok ctor ok P node))"

primrec holds :: "(bytes \<Rightarrow> hash256) \<Rightarrow> node_fetch option \<Rightarrow> leaf_ctor \<Rightarrow> nat \<Rightarrow> nat \<Rightarrow> contents \<Rightarrow> inner_node \<Rightarrow> bool" where
  "holds sha store ctor 0 = (\<lambda>d M n. False)"
| "holds sha store ctor (Suc j) = (\<lambda>d M n.
     length (in_hashes n) = 16 \<and> length (in_children n) = 16
     \<and> (in_hash n = 0 \<or> M \<noteq> Map.empty \<and> in_hash n = merkle sha ctor (Suc j) d M)
     \<and> (\<forall>b<16. slot_ok store ctor (merkle sha ctor j (Suc d)) (holds sha store ctor j (Suc d)) (part d b M) n b))"

definition leaf_kinds :: "(bytes \<Rightarrow> hash256) \<Rightarrow> leaf_ctor set" where
  "leaf_kinds sha = {account_state sha, transaction_no_meta sha, transaction_with_meta sha}"

subsection \<open>Parts of the entries\<close>

lemma part_upd: "part d b (M(k \<mapsto> v)) = (if select_branch k d = b then (part d b M)(k \<mapsto> v) else part d b M)"
  by (auto simp: part_def restrict_map_def)

lemma part_del: "part d b (M(k := None)) = (part d b M)(k := None)"
  by (auto simp: part_def restrict_map_def)

lemma part_without: "part d b (without d b' M) = (if b = b' then Map.empty else part d b M)"
  by (auto simp: part_def without_def restrict_map_def)

lemma without_part: "without d b M ++ part d b M = M"
  by (auto simp: part_def without_def restrict_map_def map_add_def split: option.splits)

lemma without_without: "without d b (without d b M) = without d b M"
  by (auto simp: without_def restrict_map_def)

lemma part_dom: "k \<in> dom (part d b M) \<Longrightarrow> select_branch k d = b"
  by (auto simp: part_def restrict_map_def split: if_splits)

lemma part_apply: "part d b M k = (if select_branch k d = b then M k else None)"
  by (simp add: part_def restrict_map_def)

lemma part_add: "(\<And>k. k \<in> dom P \<Longrightarrow> select_branch k d = b) \<Longrightarrow>
    part d b' (without d b M ++ P) = (if b' = b then P else part d b' M)"
  by (rule ext) (force simp: part_def without_def restrict_map_def map_add_def split: option.splits)

lemma part_Nil_iff: "(\<forall>b<16. part d b M = Map.empty) \<longleftrightarrow> M = Map.empty"
proof
  assume *: "\<forall>b<16. part d b M = Map.empty"
  show "M = Map.empty"
  proof
    fix k
    have "part d (select_branch k d) M = Map.empty" using * select_branch_lt [of k d] by (simp add: BRANCH_FACTOR_def)
    then have "part d (select_branch k d) M k = None" by simp
    then show "M k = None" by (simp add: part_apply)
  qed
qed (simp add: part_def)

lemma select_branch_16: "select_branch k d < 16"
  using select_branch_lt [of k d] by (simp add: BRANCH_FACTOR_def)

lemma single_upd [simp]: "single [k \<mapsto> v]"
  by (auto simp: single_def)

lemma single_not_empty: "single P \<Longrightarrow> P \<noteq> Map.empty"
  by (auto simp: single_def)

lemma only_leaf_upd [simp]: "only_leaf ctor [k \<mapsto> v] = ctor k v"
  by (simp add: only_leaf_def)

lemma single_two: "k \<noteq> k' \<Longrightarrow> P k = Some v \<Longrightarrow> P k' = Some v' \<Longrightarrow> \<not> single P"
  by (auto simp: single_def split: if_splits)

lemma not_single_two:
  assumes "P \<noteq> Map.empty" and "\<not> single P"
  obtains k v k' v' where "P k = Some v" "P k' = Some v'" "k \<noteq> k'"
proof -
  obtain k v where k: "P k = Some v" using assms(1) by (meson not_Some_eq ext)
  then have "P \<noteq> [k \<mapsto> v]" using assms(2) by (auto simp: single_def)
  then obtain k' where "P k' \<noteq> [k \<mapsto> v] k'" by (meson ext)
  then show thesis using k that by (cases "P k'") (auto split: if_splits)
qed

lemma slot_hash_simps [simp]:
  "slot_hash ctor inner Map.empty = 0"
  "slot_hash ctor inner [k \<mapsto> v] = leaf_hash (ctor k v)"
  "P \<noteq> Map.empty \<Longrightarrow> \<not> single P \<Longrightarrow> slot_hash ctor inner P = inner P"
  by (auto simp: slot_hash_def)

lemma kind_access [simp]:
  "ctor \<in> leaf_kinds sha \<Longrightarrow> leaf_key (ctor k v) = k"
  "ctor \<in> leaf_kinds sha \<Longrightarrow> leaf_bytes (ctor k v) = v"
  "ctor \<in> leaf_kinds sha \<Longrightarrow> update_data sha (ctor k v) w = ctor k w"
  by (auto simp: leaf_kinds_def account_state_def transaction_no_meta_def transaction_with_meta_def
      leaf_key_def leaf_bytes_def update_data_def Let_def)

subsection \<open>Taking and setting a child\<close>

lemma holds_SucD:
  assumes "holds sha store ctor (Suc j) d M n"
  shows "length (in_hashes n) = 16" "length (in_children n) = 16"
    "in_hash n = 0 \<or> M \<noteq> Map.empty \<and> in_hash n = merkle sha ctor (Suc j) d M"
    "\<And>b. b < 16 \<Longrightarrow> slot_ok store ctor (merkle sha ctor j (Suc d)) (holds sha store ctor j (Suc d)) (part d b M) n b"
  using assms by simp_all

lemma slot_bit: "slot_ok store ctor inner ok P n b \<Longrightarrow> bit (in_branch n) b \<longleftrightarrow> P \<noteq> Map.empty"
  by (simp add: slot_ok_def split: if_splits)

lemma slot_hash_ok: "slot_ok store ctor inner ok P n b \<Longrightarrow> in_hashes n ! b = slot_hash ctor inner P"
  by (auto simp: slot_ok_def split: if_splits)

lemma slot_ok_cong:
  assumes "in_hashes n' ! b = in_hashes n ! b" "in_children n' ! b = in_children n ! b" "bit (in_branch n') b = bit (in_branch n) b"
  shows "slot_ok store ctor inner ok P n' b = slot_ok store ctor inner ok P n b"
  unfolding slot_ok_def assms ..

lemma holds_empty_branch:
  assumes "holds sha store ctor (Suc j) d M n" and "b < 16"
  shows "is_empty_branch n b \<longleftrightarrow> part d b M = Map.empty"
  using slot_bit [OF holds_SucD(4) [OF assms]] by (simp add: is_empty_branch_bit)

lemma holds_branch_0:
  assumes "holds sha store ctor (Suc j) d M n"
  shows "in_branch n = 0 \<longleftrightarrow> M = Map.empty"
proof -
  have "in_branch n = 0 \<longleftrightarrow> (\<forall>b<16. \<not> bit (in_branch n) b)"
    by (auto intro: bit_word_eqI)
  also have "\<dots> \<longleftrightarrow> (\<forall>b<16. part d b M = Map.empty)"
    using slot_bit [OF holds_SucD(4) [OF assms]] by blast
  finally show ?thesis unfolding part_Nil_iff .
qed

lemma holds_compute_hash:
  assumes "holds sha store ctor (Suc j) d M n"
  shows "compute_hash sha n = merkle sha ctor (Suc j) d M"
proof -
  have "in_hashes n = map (\<lambda>b. slot_hash ctor (merkle sha ctor j (Suc d)) (part d b M)) [0..<16]"
    using holds_SucD(1) [OF assms] slot_hash_ok [OF holds_SucD(4) [OF assms]] by (intro nth_equalityI) simp_all
  then show ?thesis by (simp add: compute_hash_def)
qed

lemma holds_hash:
  assumes "holds sha store ctor j d M n"
  shows "inner_node_hash sha n = (if M = Map.empty then 0 else merkle sha ctor j d M)"
proof (cases j)
  case 0
  then show ?thesis using assms by simp
next
  case (Suc i)
  then show ?thesis using holds_SucD(3) holds_branch_0 holds_compute_hash assms unfolding Suc inner_node_hash_def by metis
qed

lemma node_ok_hash:
  assumes "node_ok ctor (holds sha store ctor j d) P node"
  shows "sha_node_hash sha node = slot_hash ctor (merkle sha ctor j d) P" "P \<noteq> Map.empty"
  using assms holds_hash single_not_empty by (auto simp: node_ok_def slot_hash_def split: shamap_node.splits)

lemma child_with_store_holds:
  assumes "holds sha store ctor (Suc j) d M n" and "b < 16" and "part d b M \<noteq> Map.empty"
  shows "\<exists>node. child_with_store n b store ctor = Inr (Some node) \<and> node_ok ctor (holds sha store ctor j (Suc d)) (part d b M) node"
  using holds_SucD(4) [OF assms(1,2)] assms(3) holds_empty_branch [OF assms(1,2)]
  by (auto simp: slot_ok_def child_with_store_def split: option.splits)

lemma set_child_holds:
  assumes "holds sha store ctor (Suc j) d M n" and "b < 16" and "node_ok ctor (holds sha store ctor j (Suc d)) P node"
    and "\<And>k. k \<in> dom P \<Longrightarrow> select_branch k d = b"
  shows "holds sha store ctor (Suc j) d (without d b M ++ P) (set_child sha b node n)"
proof -
  note n = holds_SucD [OF assms(1)]
  have "slot_ok store ctor (merkle sha ctor j (Suc d)) (holds sha store ctor j (Suc d)) (part d b' (without d b M ++ P)) (set_child sha b node n) b'"
    if b': "b' < 16" for b'
  proof (cases "b' = b")
    case True
    have "bit (in_branch (set_child sha b node n)) b" using assms(2) by (simp add: set_child_def bit_or_iff bit_exp_iff)
    then show ?thesis using True assms(2,3) n(1,2) node_ok_hash [OF assms(3)]
      by (simp add: part_add assms(4) slot_ok_def) (simp add: set_child_def)
  next
    case False
    then have "slot_ok store ctor (merkle sha ctor j (Suc d)) (holds sha store ctor j (Suc d)) (part d b' M) (set_child sha b node n) b'"
      using n(4) [OF b'] by (subst slot_ok_cong [of _ _ n]) (auto simp: set_child_def bit_or_iff bit_exp_iff)
    then show ?thesis using False by (simp add: part_add assms(4))
  qed
  then show ?thesis using n(1,2) by (auto simp: set_child_def)
qed

lemma remove_child_holds:
  assumes "holds sha store ctor (Suc j) d M n" and "b < 16"
  shows "holds sha store ctor (Suc j) d (without d b M) (remove_child b n)"
proof -
  note n = holds_SucD [OF assms(1)]
  have "slot_ok store ctor (merkle sha ctor j (Suc d)) (holds sha store ctor j (Suc d)) (part d b' (without d b M)) (remove_child b n) b'"
    if b': "b' < 16" for b'
  proof (cases "b' = b")
    case True
    then show ?thesis using assms(2) n(1,2) by (simp add: part_without slot_ok_def) (simp add: remove_child_def bit_and_iff bit_not_iff bit_exp_iff)
  next
    case False
    then show ?thesis using n(4) [OF b']
      by (subst slot_ok_cong [of _ _ n]) (auto simp: part_without remove_child_def bit_and_iff bit_not_iff bit_exp_iff b')
  qed
  then show ?thesis using n(1,2) by (auto simp: remove_child_def)
qed

lemma take_loaded_holds:
  assumes "holds sha store ctor (Suc j) d M n" and "b < 16" and "part d b M \<noteq> Map.empty"
  obtains n' node where "take_loaded b store ctor n = (n', Inr (Some node))"
    "node_ok ctor (holds sha store ctor j (Suc d)) (part d b M) node" "holds sha store ctor (Suc j) d (without d b M) n'"
proof -
  note n = holds_SucD [OF assms(1)]
  have e: "\<not> is_empty_branch n b" using holds_empty_branch [OF assms(1,2)] assms(3) by simp
  obtain node where node: "(case in_children n ! b of Some c \<Rightarrow> Inr c | None \<Rightarrow> fetch_child store ctor (in_hashes n ! b)) = Inr node"
    "node_ok ctor (holds sha store ctor j (Suc d)) (part d b M) node"
    using n(4) [OF assms(2)] assms(3) by (auto simp: slot_ok_def)
  have "take_loaded b store ctor n = (remove_child b n, Inr (Some node))"
  proof (cases "in_children n ! b")
    case None
    then show ?thesis using e node(1) n(2) assms(2)
      by (simp add: take_loaded_def ensure_loaded_def take_child_def remove_child_def is_empty_branch_def)
  next
    case (Some c)
    then show ?thesis using e node(1) by (simp add: take_loaded_def ensure_loaded_def take_child_def)
  qed
  then show thesis using that node(2) remove_child_holds [OF assms(1,2)] by blast
qed

lemma inner_new_holds: "holds sha store ctor (Suc j) d Map.empty inner_new"
  by (auto simp: inner_new_def BRANCH_FACTOR_def slot_ok_def part_def)

declare holds.simps(2) [simp del]

subsection \<open>Lookup, insertion, update and deletion\<close>

lemma find_leaf_holds:
  assumes "holds sha store ctor j d M n" and "d + j \<le> 255" and "ctor \<in> leaf_kinds sha"
  shows "find_leaf store ctor n key d = Some (map_option (ctor key) (M key))"
  using assms(1,2)
proof (induction j arbitrary: d M n)
  case (Suc j)
  let ?b = "select_branch key d"
  note b = select_branch_16 [of key d]
  have M: "part d ?b M key = M key" by (simp add: part_apply)
  show ?case
  proof (cases "part d ?b M = Map.empty")
    case True
    then have "child_with_store n ?b store ctor = Inr None" "M key = None"
      using holds_empty_branch [OF Suc.prems(1) b] M by (auto simp: child_with_store_def)
    then show ?thesis by (simp add: find_leaf.simps [of store ctor n])
  next
    case False
    then obtain node where node: "child_with_store n ?b store ctor = Inr (Some node)"
      "node_ok ctor (holds sha store ctor j (Suc d)) (part d ?b M) node"
      using child_with_store_holds [OF Suc.prems(1) b] by blast
    show ?thesis
    proof (cases node)
      case (Inner i)
      then have "find_leaf store ctor i key (Suc d) = Some (map_option (ctor key) (part d ?b M key))"
        using node(2) Suc.IH [of "Suc d" "part d ?b M" i] Suc.prems(2) by (simp add: node_ok_def)
      then show ?thesis using node(1) Inner Suc.prems(2) by (simp add: find_leaf.simps [of store ctor n] M)
    next
      case (Leaf l)
      then obtain k v where k: "part d ?b M = [k \<mapsto> v]" "l = ctor k v" using node(2) by (auto simp: node_ok_def single_def)
      then have "M key = (if key = k then Some v else None)" using M by (simp add: k(1))
      then show ?thesis using node(1) Leaf k(2) assms(3) by (auto simp: find_leaf.simps [of store ctor n])
    qed
  qed
qed simp

definition agree_below :: "nat \<Rightarrow> hash256 \<Rightarrow> contents \<Rightarrow> bool" where
  "agree_below d key M \<longleftrightarrow> (\<forall>k\<in>dom M. \<forall>i<d. select_branch k i = select_branch key i)"

lemma agree_below_part: "agree_below d key M \<Longrightarrow> agree_below (Suc d) key (part d (select_branch key d) M)"
  by (auto simp: agree_below_def part_def less_Suc_eq)

lemma agree_below_64:
  assumes "agree_below d key M" and "64 \<le> d" and "k \<in> dom M"
  shows "k = key"
  by (rule select_branch_inj) (use assms in \<open>auto simp: agree_below_def\<close>)

lemma split_leaves_holds:
  assumes "k \<noteq> k'" and "\<And>i. i < d \<Longrightarrow> select_branch k i = select_branch k' i" and "d + j = 64" and "ctor \<in> leaf_kinds sha"
  shows "\<exists>n. split_leaves sha (ctor k v) (ctor k' v') d = Some n \<and> holds sha store ctor j d [k \<mapsto> v, k' \<mapsto> v'] n"
  using assms(2,3)
proof (induction j arbitrary: d)
  case 0
  have "k = k'" by (rule select_branch_inj, rule "0.prems"(1)) (use "0.prems"(2) in simp)
  then show ?case using assms(1) by simp
next
  case (Suc j)
  let ?b = "select_branch k d"
  have e: "without d b Map.empty = Map.empty" for b by (simp add: without_def)
  show ?case
  proof (cases "select_branch k' d = ?b")
    case True
    then have "select_branch k i = select_branch k' i" if "i < Suc d" for i using that Suc.prems(1) by (auto simp: less_Suc_eq)
    moreover have "Suc d + j = 64" using Suc.prems(2) by simp
    ultimately obtain n where n: "split_leaves sha (ctor k v) (ctor k' v') (Suc d) = Some n" "holds sha store ctor j (Suc d) [k \<mapsto> v, k' \<mapsto> v'] n"
      using Suc.IH [of "Suc d"] by blast
    have "\<not> single [k \<mapsto> v, k' \<mapsto> v']" by (rule single_two [of k k' _ v v']) (simp_all add: assms(1))
    then have ok: "node_ok ctor (holds sha store ctor j (Suc d)) [k \<mapsto> v, k' \<mapsto> v'] (Inner n)" using n(2) by (simp add: node_ok_def)
    have "holds sha store ctor (Suc j) d (without d ?b Map.empty ++ [k \<mapsto> v, k' \<mapsto> v']) (set_child sha ?b (Inner n) inner_new)"
      by (rule set_child_holds [OF inner_new_holds select_branch_16 ok]) (auto simp: True split: if_splits)
    moreover have "split_leaves sha (ctor k v) (ctor k' v') d = Some (set_child sha ?b (Inner n) inner_new)"
      using n(1) True Suc.prems(2) assms(4) by (simp add: split_leaves.simps [of sha "ctor k v" _ d])
    ultimately show ?thesis unfolding e empty_map_add by blast
  next
    case False
    have ok: "node_ok ctor (holds sha store ctor j (Suc d)) [x \<mapsto> y] (Leaf (ctor x y))" for x y by (simp add: node_ok_def)
    have "holds sha store ctor (Suc j) d (without d ?b Map.empty ++ [k \<mapsto> v]) (set_child sha ?b (Leaf (ctor k v)) inner_new)"
      by (rule set_child_holds [OF inner_new_holds select_branch_16 ok]) simp
    then have 1: "holds sha store ctor (Suc j) d [k \<mapsto> v] (set_child sha ?b (Leaf (ctor k v)) inner_new)" unfolding e empty_map_add .
    have w: "without d (select_branch k' d) [k \<mapsto> v] = [k \<mapsto> v]" using False by (auto simp: without_def restrict_map_def)
    have "holds sha store ctor (Suc j) d (without d (select_branch k' d) [k \<mapsto> v] ++ [k' \<mapsto> v'])
        (set_child sha (select_branch k' d) (Leaf (ctor k' v')) (set_child sha ?b (Leaf (ctor k v)) inner_new))"
      by (rule set_child_holds [OF 1 select_branch_16 ok]) simp
    moreover have "split_leaves sha (ctor k v) (ctor k' v') d
        = Some (set_child sha (select_branch k' d) (Leaf (ctor k' v')) (set_child sha ?b (Leaf (ctor k v)) inner_new))"
      using False assms(4) by (simp add: split_leaves.simps [of sha "ctor k v" _ d])
    ultimately show ?thesis unfolding w map_add_upds map_add_empty map_add_upd by blast
  qed
qed

lemma set_child_upd:
  assumes "holds sha store ctor (Suc j) d M' n" and "without d (select_branch key d) M' = without d (select_branch key d) M"
    and "node_ok ctor (holds sha store ctor j (Suc d)) ((part d (select_branch key d) M)(key := r)) node"
  shows "holds sha store ctor (Suc j) d (M(key := r)) (set_child sha (select_branch key d) node n)"
proof -
  have "without d (select_branch key d) M ++ (part d (select_branch key d) M)(key := r) = M(key := r)"
    by (rule ext) (auto simp: without_def part_def restrict_map_def map_add_def split: option.splits)
  moreover have "holds sha store ctor (Suc j) d (without d (select_branch key d) M' ++ (part d (select_branch key d) M)(key := r))
      (set_child sha (select_branch key d) node n)"
    by (rule set_child_holds [OF assms(1) select_branch_16 assms(3)]) (auto simp: part_def restrict_map_def split: if_splits)
  ultimately show ?thesis by (simp add: assms(2))
qed

lemma set_child_same:
  assumes "holds sha store ctor (Suc j) d (without d b M) n" and "b < 16"
    and "node_ok ctor (holds sha store ctor j (Suc d)) (part d b M) node"
  shows "holds sha store ctor (Suc j) d M (set_child sha b node n)"
proof -
  have "holds sha store ctor (Suc j) d (without d b (without d b M) ++ part d b M) (set_child sha b node n)"
    by (rule set_child_holds [OF assms]) (auto simp: part_def restrict_map_def split: if_splits)
  then show ?thesis by (simp only: without_without without_part)
qed

lemma drop_child:
  assumes "(part d (select_branch key d) M)(key := None) = Map.empty"
  shows "without d (select_branch key d) M = M(key := None)"
proof
  fix k
  have "((part d (select_branch key d) M)(key := None)) k = None" using assms by (rule fun_cong)
  then show "without d (select_branch key d) M k = (M(key := None)) k"
    by (auto simp: without_def part_def restrict_map_def split: if_splits)
qed

lemma node_okE [consumes 1, case_names Leaf Inner]:
  assumes "node_ok ctor ok P node"
  obtains k v where "node = Leaf (ctor k v)" "P = [k \<mapsto> v]"
    | i where "node = Inner i" "P \<noteq> Map.empty" "\<not> single P" "ok P i"
  using assms by (cases node) (auto simp: node_ok_def single_def)

lemma node_ok_intros:
  "node_ok ctor ok [k \<mapsto> v] (Leaf (ctor k v))"
  "P \<noteq> Map.empty \<Longrightarrow> \<not> single P \<Longrightarrow> ok P i \<Longrightarrow> node_ok ctor ok P (Inner i)"
  by (simp_all add: node_ok_def)

lemma not_single_upd: "P \<noteq> Map.empty \<Longrightarrow> \<not> single P \<Longrightarrow> \<not> single (P(k \<mapsto> v))"
proof -
  assume "P \<noteq> Map.empty" "\<not> single P"
  then obtain x y z w where "P x = Some y" "P z = Some w" "x \<noteq> z" by (rule not_single_two)
  then obtain x' y' where "x' \<noteq> k" "P x' = Some y'" by metis
  then show ?thesis using single_two [of x' k "P(k \<mapsto> v)" y' v] by simp
qed

lemma split_node_ok:
  assumes "k \<noteq> key" and "agree_below (Suc d) key [k \<mapsto> v]" and "Suc d + j = 64" and "ctor \<in> leaf_kinds sha"
  obtains i where "split_leaves sha (ctor k v) (ctor key data) (d + 1) = Some i"
    "node_ok ctor (holds sha store ctor j (Suc d)) [k \<mapsto> v, key \<mapsto> data] (Inner i)"
proof -
  have "select_branch k i = select_branch key i" if "i < Suc d" for i using assms(2) that by (simp add: agree_below_def)
  from split_leaves_holds [OF assms(1) this assms(3,4), of v data store]
  obtain i where i: "split_leaves sha (ctor k v) (ctor key data) (Suc d) = Some i" "holds sha store ctor j (Suc d) [k \<mapsto> v, key \<mapsto> data] i" by blast
  have "\<not> single [k \<mapsto> v, key \<mapsto> data]" by (rule single_two [of k key _ v data]) (simp_all add: assms(1))
  then have "node_ok ctor (holds sha store ctor j (Suc d)) [k \<mapsto> v, key \<mapsto> data] (Inner i)" using i(2) by (intro node_ok_intros) simp_all
  then show thesis using that i(1) by simp
qed

lemma put_leaf_holds:
  assumes "holds sha store ctor j d M n" and "d + j = 64" and "agree_below d key M" and "ctor \<in> leaf_kinds sha"
  shows "\<exists>n'. put_leaf sha store ctor n key (ctor key data) d = Some (n', Inr ()) \<and> holds sha store ctor j d (M(key \<mapsto> data)) n'"
  using assms(1-3)
proof (induction j arbitrary: d M n)
  case (Suc j)
  let ?b = "select_branch key d" let ?P = "part d ?b M" let ?put = "put_leaf sha store ctor"
  note set = set_child_upd [where r = "Some data"]
  show ?case
  proof (cases "?P = Map.empty")
    case True
    then have "holds sha store ctor (Suc j) d (M(key \<mapsto> data)) (set_child sha ?b (Leaf (ctor key data)) n)"
      using node_ok_intros(1) by (intro set [OF Suc.prems(1) refl]) simp
    moreover have "?put n key (ctor key data) d = Some (set_child sha ?b (Leaf (ctor key data)) n, Inr ())"
      using True holds_empty_branch [OF Suc.prems(1) select_branch_16] by (simp add: put_leaf.simps [of sha store ctor n])
    ultimately show ?thesis by blast
  next
    case False
    obtain n' node where n': "take_loaded ?b store ctor n = (n', Inr (Some node))"
      "node_ok ctor (holds sha store ctor j (Suc d)) ?P node" "holds sha store ctor (Suc j) d (without d ?b M) n'"
      by (rule take_loaded_holds [OF Suc.prems(1) select_branch_16 False])
    note put = put_leaf.simps [of sha store ctor n] and e = holds_empty_branch [OF Suc.prems(1) select_branch_16]
    note upd = set [OF n'(3) without_without]
    have d: "d < 255" "Suc d + j = 64" using Suc.prems(2) by simp_all
    have ag: "agree_below (Suc d) key ?P" using Suc.prems(3) by (rule agree_below_part)
    from n'(2) show ?thesis
    proof (cases rule: node_okE)
      case (Leaf k v)
      show ?thesis
      proof (cases "k = key")
        case True
        then have "node_ok ctor (holds sha store ctor j (Suc d)) (?P(key \<mapsto> data)) (Leaf (ctor key data))"
          using Leaf(2) node_ok_intros(1) by simp
        moreover have "?put n key (ctor key data) d = Some (set_child sha ?b (Leaf (ctor key data)) n', Inr ())"
          using True False Leaf(1) n'(1) e assms(4) by (simp add: put)
        ultimately show ?thesis using upd by blast
      next
        case neq: False
        obtain i where i: "split_leaves sha (ctor k v) (ctor key data) (d + 1) = Some i"
          "node_ok ctor (holds sha store ctor j (Suc d)) (?P(key \<mapsto> data)) (Inner i)"
          using split_node_ok [OF neq _ d(2) assms(4)] ag Leaf(2) by metis
        have "?put n key (ctor key data) d = Some (set_child sha ?b (Inner i) n', Inr ())"
          using i(1) neq False Leaf(1) n'(1) e assms(4) d(1) by (simp add: put)
        then show ?thesis using upd [OF i(2)] by blast
      qed
    next
      case (Inner i)
      obtain i' where i': "?put i key (ctor key data) (Suc d) = Some (i', Inr ())" "holds sha store ctor j (Suc d) (?P(key \<mapsto> data)) i'"
        using Suc.IH [OF Inner(4) d(2) ag] by blast
      have "node_ok ctor (holds sha store ctor j (Suc d)) (?P(key \<mapsto> data)) (Inner i')"
        using i'(2) not_single_upd [OF Inner(2,3)] by (intro node_ok_intros) auto
      moreover have "?put n key (ctor key data) d = Some (set_child sha ?b (Inner i') n', Inr ())"
        using i'(1) False Inner(1) n'(1) e d(1) by (simp add: put)
      ultimately show ?thesis using upd by blast
    qed
  qed
qed simp

lemma insert_leaf_fresh:
  assumes "holds sha store ctor j d M n" and "d + j = 64" and "M key = None" and "ctor \<in> leaf_kinds sha"
  shows "insert_leaf sha store ctor n key leaf d = put_leaf sha store ctor n key leaf d"
  using assms(1-3)
proof (induction j arbitrary: d M n)
  case (Suc j)
  let ?b = "select_branch key d" let ?P = "part d ?b M"
  note unf = insert_leaf.simps [of sha store ctor n] put_leaf.simps [of sha store ctor n]
  show ?case
  proof (cases "?P = Map.empty")
    case True
    then show ?thesis using holds_empty_branch [OF Suc.prems(1) select_branch_16] by (simp add: unf)
  next
    case False
    obtain n' node where n': "take_loaded ?b store ctor n = (n', Inr (Some node))"
      "node_ok ctor (holds sha store ctor j (Suc d)) ?P node" by (rule take_loaded_holds [OF Suc.prems(1) select_branch_16 False])
    have P: "?P key = None" using Suc.prems(3) by (simp add: part_apply)
    from n'(2) show ?thesis
    proof (cases rule: node_okE)
      case (Leaf k v)
      then have "k \<noteq> key" using P by auto
      then show ?thesis using Leaf(1) n'(1) False holds_empty_branch [OF Suc.prems(1) select_branch_16] assms(4) by (simp add: unf)
    next
      case (Inner i)
      have "insert_leaf sha store ctor i key leaf (Suc d) = put_leaf sha store ctor i key leaf (Suc d)"
        by (rule Suc.IH [OF Inner(4) _ P]) (use Suc.prems(2) in simp)
      then show ?thesis using Inner(1) n'(1) False holds_empty_branch [OF Suc.prems(1) select_branch_16] by (simp add: unf)
    qed
  qed
qed simp

lemma insert_leaf_duplicate:
  assumes "holds sha store ctor j d M n" and "d + j = 64" and "M key = Some v" and "ctor \<in> leaf_kinds sha"
  shows "\<exists>n'. insert_leaf sha store ctor n key leaf d = Some (n', Inl DuplicateKey)
    \<and> holds sha store ctor j d (if single (part d (select_branch key d) M) then M else without d (select_branch key d) M) n'"
  using assms(1-3)
proof (induction j arbitrary: d M n)
  case (Suc j)
  let ?b = "select_branch key d" let ?P = "part d ?b M"
  have P: "?P key = Some v" "?P \<noteq> Map.empty" using Suc.prems(3) by (auto simp: part_apply dest: fun_cong [of _ _ key])
  obtain n' node where n': "take_loaded ?b store ctor n = (n', Inr (Some node))"
    "node_ok ctor (holds sha store ctor j (Suc d)) ?P node" "holds sha store ctor (Suc j) d (without d ?b M) n'"
    by (rule take_loaded_holds [OF Suc.prems(1) select_branch_16 P(2)])
  note unf = insert_leaf.simps [of sha store ctor n] holds_empty_branch [OF Suc.prems(1) select_branch_16]
  from n'(2) show ?case
  proof (cases rule: node_okE)
    case (Leaf k w)
    then have k: "k = key" using P(1) by (auto split: if_splits)
    have "insert_leaf sha store ctor n key leaf d = Some (set_child sha ?b node n', Inl DuplicateKey)"
      using Leaf(1) n'(1) P(2) k assms(4) by (simp add: unf)
    moreover have "single ?P" using Leaf(2) by (auto simp: single_def)
    ultimately show ?thesis using set_child_same [OF n'(3) select_branch_16 n'(2)] by (simp only: if_True) blast
  next
    case (Inner i)
    obtain i' where "insert_leaf sha store ctor i key leaf (Suc d) = Some (i', Inl DuplicateKey)"
      using Suc.IH [OF Inner(4) _ P(1)] Suc.prems(2) by auto
    then have "insert_leaf sha store ctor n key leaf d = Some (n', Inl DuplicateKey)"
      using Inner(1) n'(1) P(2) Suc.prems(2) by (simp add: unf)
    then show ?thesis using n'(3) Inner(3) by auto
  qed
qed simp

lemma update_in_holds:
  assumes "holds sha store ctor j d M n" and "d + j = 64" and "ctor \<in> leaf_kinds sha"
  shows "\<exists>n'. update_in sha store ctor n key data d = Some (n', if M key = None then Inl NotFound else Inr ())
    \<and> holds sha store ctor j d (if M key = None then M else M(key \<mapsto> data)) n'"
  using assms(1,2)
proof (induction j arbitrary: d M n)
  case (Suc j)
  let ?b = "select_branch key d" let ?P = "part d ?b M" let ?upd = "update_in sha store ctor"
  have P: "?P key = M key" by (simp add: part_apply)
  note unf = update_in.simps [of sha store ctor n] holds_empty_branch [OF Suc.prems(1) select_branch_16]
  show ?case
  proof (cases "?P = Map.empty")
    case True
    then have "?upd n key data d = Some (n, Inl NotFound)" "M key = None" using P by (auto simp: unf)
    then show ?thesis using Suc.prems(1) by auto
  next
    case False
    obtain n' node where n': "take_loaded ?b store ctor n = (n', Inr (Some node))"
      "node_ok ctor (holds sha store ctor j (Suc d)) ?P node" "holds sha store ctor (Suc j) d (without d ?b M) n'"
      by (rule take_loaded_holds [OF Suc.prems(1) select_branch_16 False])
    note same = set_child_same [OF n'(3) select_branch_16] and upd = set_child_upd [OF n'(3) without_without, of "Some data"]
    from n'(2) show ?thesis
    proof (cases rule: node_okE)
      case (Leaf k v)
      show ?thesis
      proof (cases "k = key")
        case True
        then have "?upd n key data d = Some (set_child sha ?b (Leaf (ctor key data)) n', Inr ())"
          using Leaf(1) n'(1) False assms(3) by (simp add: unf)
        moreover have "holds sha store ctor (Suc j) d (M(key \<mapsto> data)) (set_child sha ?b (Leaf (ctor key data)) n')"
          by (rule upd) (use Leaf(2) True node_ok_intros(1) in simp)
        moreover have "M key \<noteq> None" using P True unfolding Leaf(2) by (metis fun_upd_same option.distinct(1))
        ultimately show ?thesis by (simp only: if_False) blast
      next
        case neq: False
        then have "?upd n key data d = Some (set_child sha ?b node n', Inl NotFound)" using Leaf(1) n'(1) False assms(3) by (simp add: unf)
        moreover have "M key = None" using P Leaf(2) neq by simp
        ultimately show ?thesis using same [OF n'(2)] by auto
      qed
    next
      case (Inner i)
      obtain i' where i': "?upd i key data (Suc d) = Some (i', if M key = None then Inl NotFound else Inr ())"
        "holds sha store ctor j (Suc d) (if M key = None then ?P else ?P(key \<mapsto> data)) i'"
        using Suc.IH [OF Inner(4)] Suc.prems(2) P by auto
      have eq: "?upd n key data d = Some (set_child sha ?b (Inner i') n', if M key = None then Inl NotFound else Inr ())"
        using Inner(1) n'(1) False i'(1) Suc.prems(2) by (simp add: unf)
      have "holds sha store ctor (Suc j) d (if M key = None then M else M(key \<mapsto> data)) (set_child sha ?b (Inner i') n')"
      proof (cases "M key")
        case None
        then show ?thesis using same [of "Inner i'"] i'(2) Inner(2,3) node_ok_intros(2) by simp
      next
        case (Some v)
        have "node_ok ctor (holds sha store ctor j (Suc d)) (?P(key \<mapsto> data)) (Inner i')"
          using Some i'(2) not_single_upd [OF Inner(2,3)] by (intro node_ok_intros) auto
        from upd [OF this] show ?thesis using Some by simp
      qed
      then show ?thesis using eq by blast
    qed
  qed
qed simp

lemma branch_count_holds:
  assumes "holds sha store ctor (Suc j) d M n"
  shows "branch_count n = 0 \<longleftrightarrow> M = Map.empty"
proof -
  have "branch_count n = 0 \<longleftrightarrow> in_branch n = 0" unfolding branch_count_0 by (auto intro: bit_word_eqI)
  then show ?thesis using holds_branch_0 [OF assms] by simp
qed

lemma holds_bit:
  assumes "holds sha store ctor (Suc j) d M n"
  shows "bit (in_branch n) b \<longleftrightarrow> b < 16 \<and> part d b M \<noteq> Map.empty"
  using slot_bit [OF holds_SucD(4) [OF assms], of b] bit_imp_le_length [of "in_branch n" b] by auto

lemma single_branch_holds:
  assumes "holds sha store ctor (Suc j) d M n" and "single_branch n = Some s"
  shows "s < 16" "part d s M = M" "M \<noteq> Map.empty"
proof -
  have bit: "b < 16 \<and> part d b M \<noteq> Map.empty \<longleftrightarrow> b = s" for b
    using assms(2) holds_bit [OF assms(1), of b] unfolding single_branch_iff by blast
  then show "s < 16" by blast
  show "part d s M = M"
  proof
    fix k
    have "part d (select_branch k d) M k = M k" by (simp add: part_apply)
    moreover have "part d (select_branch k d) M = Map.empty" if "select_branch k d \<noteq> s"
      using that bit [of "select_branch k d"] select_branch_16 [of k d] by blast
    ultimately show "part d s M k = M k" by (cases "select_branch k d = s") (auto simp: part_apply)
  qed
  then show "M \<noteq> Map.empty" using bit [of s] by auto
qed

lemma single_branch_of_single:
  assumes "holds sha store ctor (Suc j) d M n" and "single M"
  shows "single_branch n \<noteq> None"
proof -
  obtain k v where M: "M = [k \<mapsto> v]" using assms(2) by (auto simp: single_def)
  have "part d b M = (if b = select_branch k d then M else Map.empty)" for b
    by (rule ext) (simp add: part_apply M)
  then have "bit (in_branch n) b \<longleftrightarrow> b = select_branch k d" for b
    using select_branch_16 [of k d] single_not_empty [OF assms(2)] by (simp add: holds_bit [OF assms(1)])
  then have "{b. bit (in_branch n) b} = {select_branch k d}" by auto
  then show ?thesis unfolding single_branch_iff [symmetric] by simp
qed

lemma put_back_holds:
  assumes "holds sha store ctor (Suc j) d (without d b M) n" and "b = select_branch key d"
    and "holds sha store ctor j (Suc d) P i" and "P = (part d b M)(key := None)" and "P \<noteq> Map.empty"
  shows "\<exists>n'. put_back sha store ctor b i data n = (n', Inr data) \<and> holds sha store ctor (Suc j) d (M(key := None)) n'"
proof -
  obtain j' where j: "j = Suc j'" using assms(3) by (cases j) auto
  note i = assms(3) [unfolded j]
  have bc: "branch_count i \<noteq> 0" using branch_count_holds [OF i] assms(5) by simp
  have upd: "holds sha store ctor (Suc j) d (M(key := None)) (set_child sha b node n)"
    if "node_ok ctor (holds sha store ctor j (Suc d)) P node" for node
    using set_child_upd [OF assms(1) [unfolded assms(2)] without_without, of None node] that unfolding assms(2,4) by blast
  show ?thesis
  proof (cases "single_branch i")
    case None
    then have "\<not> single P" using single_branch_of_single [OF i] by blast
    then have "node_ok ctor (holds sha store ctor j (Suc d)) P (Inner i)" using assms(3,5) by (intro node_ok_intros)
    then show ?thesis using upd None bc by (simp add: put_back_def)
  next
    case (Some s)
    note s = single_branch_holds [OF i Some]
    obtain i' node where i': "take_loaded s store ctor i = (i', Inr (Some node))"
      "node_ok ctor (holds sha store ctor j' (Suc (Suc d))) (part (Suc d) s P) node" "holds sha store ctor (Suc j') (Suc d) (without (Suc d) s P) i'"
      using take_loaded_holds [OF i s(1)] s(2,3) by metis
    from i'(2) show ?thesis
    proof (cases rule: node_okE)
      case (Leaf k v)
      then have "node_ok ctor (holds sha store ctor j (Suc d)) P (Leaf (ctor k v))" using s(2) node_ok_intros(1) by metis
      then show ?thesis using upd Some bc i'(1) Leaf(1) by (simp add: put_back_def)
    next
      case (Inner c)
      have "holds sha store ctor j (Suc d) P (set_child sha s node i')"
        using set_child_same [OF i'(3) s(1) i'(2)] unfolding j .
      then have "node_ok ctor (holds sha store ctor j (Suc d)) P (Inner (set_child sha s node i'))"
        using Inner(2,3) unfolding s(2) by (intro node_ok_intros)
      then show ?thesis using upd Some bc i'(1) Inner(1) by (simp add: put_back_def)
    qed
  qed
qed

lemma delete_from_holds:
  assumes "holds sha store ctor j d M n" and "d + j = 64" and "ctor \<in> leaf_kinds sha"
  shows "\<exists>n'. delete_from sha store ctor n key d = Some (n', case M key of None \<Rightarrow> Inl NotFound | Some v \<Rightarrow> Inr v)
    \<and> holds sha store ctor j d (M(key := None)) n'"
  using assms(1,2)
proof (induction j arbitrary: d M n)
  case (Suc j)
  let ?b = "select_branch key d" let ?P = "part d ?b M" let ?del = "delete_from sha store ctor"
  have P: "?P key = M key" by (simp add: part_apply)
  have absent: "M key = None \<Longrightarrow> M(key := None) = M" by (simp add: fun_upd_idem)
  note unf = delete_from.simps [of sha store ctor n] holds_empty_branch [OF Suc.prems(1) select_branch_16]
  show ?case
  proof (cases "?P = Map.empty")
    case True
    then have "?del n key d = Some (n, Inl NotFound)" "M key = None" using P by (auto simp: unf)
    then show ?thesis using Suc.prems(1) absent by auto
  next
    case False
    obtain n' node where n': "take_loaded ?b store ctor n = (n', Inr (Some node))"
      "node_ok ctor (holds sha store ctor j (Suc d)) ?P node" "holds sha store ctor (Suc j) d (without d ?b M) n'"
      by (rule take_loaded_holds [OF Suc.prems(1) select_branch_16 False])
    note same = set_child_same [OF n'(3) select_branch_16]
    from n'(2) show ?thesis
    proof (cases rule: node_okE)
      case (Leaf k v)
      show ?thesis
      proof (cases "k = key")
        case True
        then have "?del n key d = Some (n', Inr v)" using Leaf(1) n'(1) False assms(3) by (simp add: unf)
        moreover have "M key = Some v" using P True unfolding Leaf(2) by (metis fun_upd_same)
        moreover have "without d ?b M = M(key := None)" by (rule drop_child) (simp add: Leaf(2) True)
        then have "holds sha store ctor (Suc j) d (M(key := None)) n'" using n'(3) by (simp only:)
        ultimately show ?thesis by (simp only: option.case) blast
      next
        case neq: False
        then have "?del n key d = Some (set_child sha ?b node n', Inl NotFound)" using Leaf(1) n'(1) False assms(3) by (simp add: unf)
        moreover have "M key = None" using P Leaf(2) neq by simp
        ultimately show ?thesis using same [OF n'(2)] absent by simp
      qed
    next
      case (Inner i)
      have "Suc d + j = 64" using Suc.prems(2) by simp
      from Suc.IH [OF Inner(4) this, unfolded P]
      obtain i' where i': "?del i key (Suc d) = Some (i', case M key of None \<Rightarrow> Inl NotFound | Some v \<Rightarrow> Inr v)"
        "holds sha store ctor j (Suc d) (?P(key := None)) i'" by blast
      show ?thesis
      proof (cases "M key")
        case None
        then have "?P(key := None) = ?P" using P by (simp add: fun_upd_idem)
        then have "node_ok ctor (holds sha store ctor j (Suc d)) ?P (Inner i')" using i'(2) Inner(2,3) by (intro node_ok_intros) auto
        moreover have "?del n key d = Some (set_child sha ?b (Inner i') n', Inl NotFound)"
          using Inner(1) n'(1) False i'(1) None Suc.prems(2) by (simp add: unf)
        ultimately show ?thesis using same absent None by auto
      next
        case (Some v)
        obtain k w k' w' where "?P k = Some w" "?P k' = Some w'" "k \<noteq> k'" using Inner(2,3) by (rule not_single_two)
        then have "?P(key := None) \<noteq> Map.empty" by (metis fun_upd_apply option.distinct(1))
        then obtain n'' where "put_back sha store ctor ?b i' v n' = (n'', Inr v)" "holds sha store ctor (Suc j) d (M(key := None)) n''"
          using put_back_holds [OF n'(3) refl i'(2) refl, of v] by blast
        moreover have "?del n key d = Some (put_back sha store ctor ?b i' v n')"
          using Inner(1) n'(1) False i'(1) Some Suc.prems(2) by (simp add: unf)
        ultimately show ?thesis unfolding Some by (simp only: option.case) blast
      qed
    qed
  qed
qed simp


subsection \<open>Cached hashes\<close>

lemma update_hashes_inner_unfold:
  "update_hashes_inner sha n unique = update_hash sha (InnerNode (in_hashes n)
     (map (\<lambda>b. if bit (in_branch n) b \<and> unique [b]
        then map_option (\<lambda>c. update_hashes sha c (\<lambda>path. unique (b # path))) (in_children n ! b) else in_children n ! b)
      [0..<length (in_children n)]) (in_branch n) (in_hash n))"
  by (cases n) (auto simp: option.map_comp comp_def intro!: arg_cong [of _ _ "update_hash sha"])

lemma update_hashes_inner_holds:
  assumes "holds sha store ctor j d M n"
  shows "holds sha store ctor j d M (update_hashes_inner sha n unique)"
  using assms
proof (induction j arbitrary: d M n unique)
  case (Suc j)
  note n = holds_SucD [OF Suc.prems]
  let ?n = "update_hashes_inner sha n unique"
  have node: "node_ok ctor (holds sha store ctor j (Suc d)) P (update_hashes sha c u)"
    if "node_ok ctor (holds sha store ctor j (Suc d)) P c" for P c u
    using that Suc.IH by (cases c) (auto simp: node_ok_def)
  have slot: "slot_ok store ctor (merkle sha ctor j (Suc d)) (holds sha store ctor j (Suc d)) (part d b M) ?n b" if "b < 16" for b
    using n(4) [OF that] n(2) that node
    by (auto simp: slot_ok_def update_hashes_inner_unfold update_hash_def set_cached_hash_def split: option.splits if_splits)
  have "compute_hash sha ?n = merkle sha ctor (Suc j) d M" "in_branch ?n = in_branch n"
    using holds_compute_hash [OF Suc.prems] by (simp_all add: compute_hash_def update_hashes_inner_unfold update_hash_def set_cached_hash_def)
  moreover have "in_hash ?n = (if in_branch n = 0 then 0 else compute_hash sha n)"
    by (simp add: compute_hash_def update_hashes_inner_unfold update_hash_def set_cached_hash_def)
  ultimately have "in_hash ?n = 0 \<or> M \<noteq> Map.empty \<and> in_hash ?n = merkle sha ctor (Suc j) d M"
    using holds_branch_0 [OF Suc.prems] holds_compute_hash [OF Suc.prems] by auto
  moreover have "length (in_hashes ?n) = 16" "length (in_children ?n) = 16"
    using n(1,2) by (simp_all add: update_hashes_inner_unfold update_hash_def set_cached_hash_def)
  ultimately show ?case using slot by (simp add: holds.simps(2))
qed simp

end
