(* ===== verification/Shamap_Properties.thy ===== *)
theory Shamap_Properties
  imports Shamap_Contents
begin

text \<open>
  What the tree promises to the ledger: any sequence of writes answers and behaves like a map from
  keys to data, the root hash is a function of the entries alone and binds them, the root of a
  candidate transaction set computed from ids is the root of the tree that holds it, and what a
  refused insertion does to the other entries.
\<close>

definition represents :: "(bytes \<Rightarrow> hash256) \<Rightarrow> node_fetch option \<Rightarrow> contents \<Rightarrow> shamap \<Rightarrow> bool" where
  "represents sha store M m \<longleftrightarrow> sm_ctor m \<in> leaf_kinds sha \<and> (\<exists>n. sm_root m = Inner n \<and> holds sha store (sm_ctor m) 64 0 M n)"

subsection \<open>Sequences of writes\<close>

datatype shamap_op = PutOp hash256 bytes | InsertOp hash256 bytes | UpdateOp hash256 bytes | DeleteOp hash256

definition no_data :: "(shamap \<times> (shamap_error + unit)) option \<Rightarrow> (shamap \<times> (shamap_error + bytes option)) option" where
  "no_data = map_option (\<lambda>(m, r). (m, map_sum id (\<lambda>_. None) r))"

fun shm_step :: "(bytes \<Rightarrow> hash256) \<Rightarrow> node_fetch option \<Rightarrow> shamap_op \<Rightarrow> shamap \<Rightarrow> (shamap \<times> (shamap_error + bytes option)) option" where
  "shm_step sha store (PutOp k v) m = no_data (shm_put sha store k v m)"
| "shm_step sha store (InsertOp k v) m = no_data (shm_insert sha store k v m)"
| "shm_step sha store (UpdateOp k v) m = no_data (shm_update sha store k v m)"
| "shm_step sha store (DeleteOp k) m = map_option (\<lambda>(m, r). (m, map_sum id Some r)) (shm_delete sha store k m)"

fun shm_run :: "(bytes \<Rightarrow> hash256) \<Rightarrow> node_fetch option \<Rightarrow> shamap_op list \<Rightarrow> shamap \<Rightarrow> (shamap \<times> (shamap_error + bytes option) list) option" where
  "shm_run sha store [] m = Some (m, [])"
| "shm_run sha store (c # ops) m =
     (case shm_step sha store c m of None \<Rightarrow> None
      | Some (m, r) \<Rightarrow> map_option (\<lambda>(m, rs). (m, r # rs)) (shm_run sha store ops m))"

text \<open>The same on a map. A duplicate insertion keeps the entries only if the existing entry is the
  only one whose key starts with its nibble; otherwise it loses every entry that starts with it.\<close>

fun map_step :: "shamap_op \<Rightarrow> contents \<Rightarrow> contents \<times> (shamap_error + bytes option)" where
  "map_step (PutOp k v) M = (M(k \<mapsto> v), Inr None)"
| "map_step (InsertOp k v) M =
     (if M k = None then (M(k \<mapsto> v), Inr None)
      else (if single (part 0 (select_branch k 0) M) then M else without 0 (select_branch k 0) M, Inl DuplicateKey))"
| "map_step (UpdateOp k v) M = (if M k = None then (M, Inl NotFound) else (M(k \<mapsto> v), Inr None))"
| "map_step (DeleteOp k) M = (M(k := None), case M k of None \<Rightarrow> Inl NotFound | Some v \<Rightarrow> Inr (Some v))"

fun map_run :: "shamap_op list \<Rightarrow> contents \<Rightarrow> contents \<times> (shamap_error + bytes option) list" where
  "map_run [] M = (M, [])"
| "map_run (c # ops) M = (let (M, r) = map_step c M; (M, rs) = map_run ops M in (M, r # rs))"

lemma represents_shamap_new: "ctor \<in> leaf_kinds sha \<Longrightarrow> represents sha store Map.empty (shamap_new ctor)"
proof -
  have "(64 :: nat) = Suc 63" by simp
  then have "holds sha store ctor 64 0 Map.empty inner_new" using inner_new_holds by metis
  then show "ctor \<in> leaf_kinds sha \<Longrightarrow> ?thesis" by (simp add: represents_def shamap_new_def)
qed

lemma agree_below_0 [simp]: "agree_below 0 key M"
  by (simp add: agree_below_def)

lemma on_root_represents:
  assumes "represents sha store M m" and "sm_state m \<noteq> ImmutableState"
    and "\<And>n. holds sha store (sm_ctor m) 64 0 M n \<Longrightarrow> \<exists>n'. f n = Some (n', r) \<and> holds sha store (sm_ctor m) 64 0 M' n'"
  shows "\<exists>m'. on_root f m = Some (m', r) \<and> represents sha store M' m' \<and> sm_state m' = sm_state m \<and> sm_ctor m' = sm_ctor m"
  using assms by (force simp: represents_def on_root_def check_mutable_def)

lemma shm_insert_duplicate:
  assumes "represents sha store M m" and "sm_state m \<noteq> ImmutableState" and "M k = Some w"
  shows "\<exists>m'. shm_insert sha store k v m = Some (m', Inl DuplicateKey)
    \<and> represents sha store (if single (part 0 (select_branch k 0) M) then M else without 0 (select_branch k 0) M) m'
    \<and> sm_state m' = sm_state m \<and> sm_ctor m' = sm_ctor m"
  unfolding shm_insert_def
  by (rule on_root_represents [OF assms(1,2)], rule insert_leaf_duplicate) (use assms(1,3) in \<open>simp_all add: represents_def\<close>)

lemma shm_step_represents:
  assumes "represents sha store M m" and "sm_state m \<noteq> ImmutableState"
  shows "\<exists>m'. shm_step sha store c m = Some (m', snd (map_step c M)) \<and> represents sha store (fst (map_step c M)) m'
    \<and> sm_state m' = sm_state m \<and> sm_ctor m' = sm_ctor m"
proof -
  have ctor: "sm_ctor m \<in> leaf_kinds sha" using assms(1) by (simp add: represents_def)
  note on = on_root_represents [OF assms]
  show ?thesis
  proof (cases c)
    case (PutOp k v)
    have "\<exists>m'. shm_put sha store k v m = Some (m', Inr ()) \<and> represents sha store (M(k \<mapsto> v)) m' \<and> sm_state m' = sm_state m \<and> sm_ctor m' = sm_ctor m"
      unfolding shm_put_def by (rule on, rule put_leaf_holds) (simp_all add: ctor)
    then show ?thesis by (auto simp: PutOp no_data_def)
  next
    case (InsertOp k v)
    show ?thesis
    proof (cases "M k")
      case None
      have "\<exists>m'. shm_insert sha store k v m = Some (m', Inr ()) \<and> represents sha store (M(k \<mapsto> v)) m' \<and> sm_state m' = sm_state m \<and> sm_ctor m' = sm_ctor m"
        unfolding shm_insert_def
      proof (rule on)
        fix n assume n: "holds sha store (sm_ctor m) 64 0 M n"
        then show "\<exists>n'. insert_leaf sha store (sm_ctor m) n k (sm_ctor m k v) 0 = Some (n', Inr ()) \<and> holds sha store (sm_ctor m) 64 0 (M(k \<mapsto> v)) n'"
          using put_leaf_holds [OF n, of k v] insert_leaf_fresh [OF n _ None] ctor by simp
      qed
      then show ?thesis using None by (auto simp: InsertOp no_data_def)
    next
      case (Some w)
      then show ?thesis using shm_insert_duplicate [OF assms Some, of v] by (force simp: InsertOp no_data_def)
    qed
  next
    case (UpdateOp k v)
    have "\<exists>m'. shm_update sha store k v m = Some (m', if M k = None then Inl NotFound else Inr ())
        \<and> represents sha store (if M k = None then M else M(k \<mapsto> v)) m' \<and> sm_state m' = sm_state m \<and> sm_ctor m' = sm_ctor m"
      unfolding shm_update_def by (rule on, rule update_in_holds) (simp_all add: ctor)
    then show ?thesis by (cases "M k = None") (auto simp: UpdateOp no_data_def)
  next
    case (DeleteOp k)
    have "\<exists>m'. shm_delete sha store k m = Some (m', case M k of None \<Rightarrow> Inl NotFound | Some v \<Rightarrow> Inr v)
        \<and> represents sha store (M(k := None)) m' \<and> sm_state m' = sm_state m \<and> sm_ctor m' = sm_ctor m"
      unfolding shm_delete_def by (rule on, rule delete_from_holds) (simp_all add: ctor)
    then show ?thesis by (cases "M k") (auto simp: DeleteOp)
  qed
qed

lemma shm_run_represents:
  assumes "represents sha store M m" and "sm_state m \<noteq> ImmutableState"
  shows "\<exists>m'. shm_run sha store ops m = Some (m', snd (map_run ops M)) \<and> represents sha store (fst (map_run ops M)) m' \<and> sm_ctor m' = sm_ctor m \<and> sm_state m' = sm_state m"
  using assms
proof (induction ops arbitrary: M m)
  case (Cons c ops)
  obtain m' where m': "shm_step sha store c m = Some (m', snd (map_step c M))" "represents sha store (fst (map_step c M)) m'"
    "sm_state m' = sm_state m" "sm_ctor m' = sm_ctor m" using shm_step_represents [OF Cons.prems] by blast
  obtain m'' where "shm_run sha store ops m' = Some (m'', snd (map_run ops (fst (map_step c M))))"
    "represents sha store (fst (map_run ops (fst (map_step c M)))) m''" "sm_ctor m'' = sm_ctor m" "sm_state m'' = sm_state m"
    using Cons.IH [OF m'(2)] m'(3,4) Cons.prems(2) by auto
  then show ?case using m'(1) by (auto simp: case_prod_beta Let_def)
qed simp

lemma shm_run_new:
  assumes "ctor \<in> leaf_kinds sha"
  shows "\<exists>m. shm_run sha store ops (shamap_new ctor) = Some (m, snd (map_run ops Map.empty))
    \<and> represents sha store (fst (map_run ops Map.empty)) m \<and> sm_ctor m = ctor \<and> sm_state m \<noteq> ImmutableState"
  using shm_run_represents [OF represents_shamap_new [OF assms], of store ops] by (auto simp: shamap_new_def)

lemma represents_get: "represents sha store M m \<Longrightarrow> shm_get store m k = Some (M k)"
  using find_leaf_holds [of sha store "sm_ctor m" 64 0 M _ k]
  by (auto simp: represents_def shm_get_def option.map_comp comp_def option.map_ident)

lemma represents_root_hash:
  assumes "represents sha store M m"
  shows "snd (shm_root_hash sha unique m) = root_digest sha (sm_ctor m) M"
proof -
  obtain n where n: "sm_root m = Inner n" "holds sha store (sm_ctor m) 64 0 M n" using assms by (auto simp: represents_def)
  show ?thesis using holds_hash [OF update_hashes_inner_holds [OF n(2), of unique]] n(1)
    by (simp add: shm_root_hash_def root_digest_def)
qed

text \<open>C19: The tree refines a map from keys to data. Whatever sequence of insertions, updates, replacements
  and deletions is applied to a new map of one of the three kinds, it never fails to return, every
  answer (success, deleted data, duplicate or missing key) is the one the map gives, every lookup
  finds exactly the data of the map, and the root hash is the digest of the map's entries, whichever
  nodes are shared with other maps.\<close>

theorem shamap_refines_map:
  assumes "ctor \<in> leaf_kinds sha"
  shows "\<exists>m. shm_run sha store ops (shamap_new ctor) = Some (m, snd (map_run ops Map.empty))
    \<and> (\<forall>k. shm_get store m k = Some (fst (map_run ops Map.empty) k))
    \<and> (\<forall>unique. snd (shm_root_hash sha unique m) = root_digest sha ctor (fst (map_run ops Map.empty)))"
proof -
  obtain m where m: "shm_run sha store ops (shamap_new ctor) = Some (m, snd (map_run ops Map.empty))"
    "represents sha store (fst (map_run ops Map.empty)) m" "sm_ctor m = ctor"
    using shm_run_new [OF assms, of store ops] by blast
  show ?thesis using m(1) represents_get [OF m(2)] represents_root_hash [OF m(2), unfolded m(3)] by (intro exI [of _ m]) simp
qed

definition toy_sha :: "bytes \<Rightarrow> hash256" where
  "toy_sha bs = of_nat (length bs)"

theorem shamap_refines_map_witness:
  "\<exists>m. shm_run toy_sha None [PutOp 1 [7], UpdateOp 1 [9], DeleteOp 2] (shamap_new (account_state toy_sha)) = Some (m, [Inr None, Inr None, Inl NotFound])
    \<and> shm_get None m 1 = Some (Some [9]) \<and> shm_get None m 2 = Some None"
  using shamap_refines_map [of "account_state toy_sha" toy_sha None "[PutOp 1 [7], UpdateOp 1 [9], DeleteOp 2]"]
  by (auto simp: leaf_kinds_def Let_def)

subsection \<open>What a refused insertion loses\<close>

text \<open>C29: An insertion that is refused because the key is present empties the branch of the root the key is
  in, unless the key is alone there: the entries of all other keys with the same first nibble, and the
  refused key itself, are gone although the caller was told that nothing was inserted.\<close>

theorem refused_insert_loses_entries:
  assumes "represents sha store M m" and "sm_state m \<noteq> ImmutableState" and "M k = Some v"
    and "k' \<noteq> k" and "M k' \<noteq> None" and "select_branch k' 0 = select_branch k 0"
  shows "\<exists>m'. shm_insert sha store k w m = Some (m', Inl DuplicateKey)
    \<and> (\<forall>x. shm_get store m' x = Some (if select_branch x 0 = select_branch k 0 then None else M x))"
proof -
  have "\<not> single (part 0 (select_branch k 0) M)"
    using assms(3-6) single_two [of k k' "part 0 (select_branch k 0) M"] by (auto simp: part_apply)
  then obtain m' where "shm_insert sha store k w m = Some (m', Inl DuplicateKey)" "represents sha store (without 0 (select_branch k 0) M) m'"
    using shm_insert_duplicate [OF assms(1-3), of w] by auto
  moreover from this(2) have "shm_get store m' x = Some (without 0 (select_branch k 0) M x)" for x by (rule represents_get)
  ultimately show ?thesis by (simp add: without_def restrict_map_def)
qed

theorem refused_insert_loses_entries_witness:
  "\<exists>m m'. shm_get None m 1 = Some (Some [7]) \<and> shm_insert toy_sha None 1 [9] m = Some (m', Inl DuplicateKey) \<and> shm_get None m' 1 = Some None
    \<and> shm_get None m 2 = Some (Some [8]) \<and> shm_get None m' 2 = Some None"
proof -
  obtain m where m: "represents toy_sha None [1 \<mapsto> [7], 2 \<mapsto> [8]] m" "sm_state m \<noteq> ImmutableState"
    using shm_run_new [of "account_state toy_sha" toy_sha None "[PutOp 1 [7], PutOp 2 [8]]"] by (auto simp: leaf_kinds_def Let_def)
  have s: "select_branch 1 0 = 0" "select_branch 2 0 = 0" by code_simp+
  obtain m' where "shm_insert toy_sha None 1 [9] m = Some (m', Inl DuplicateKey)"
    "\<forall>x. shm_get None m' x = Some (if select_branch x 0 = 0 then None else [1 \<mapsto> [7], 2 \<mapsto> [8]] x)"
    using refused_insert_loses_entries [OF m, of 1 "[7]" 2 "[9]"] s by auto
  then show ?thesis using represents_get [OF m(1), of 1] represents_get [OF m(1), of 2] s by (intro exI [of _ m] exI [of _ m']) simp
qed

subsection \<open>The root of a candidate set\<close>

definition self_keyed :: "(bytes \<Rightarrow> hash256) \<Rightarrow> contents \<Rightarrow> bool" where
  "self_keyed sha M \<longleftrightarrow> (\<forall>k v. M k = Some v \<longrightarrow> sha (TRANSACTION_ID_PREFIX @ v) = k)"

lemma self_keyed_leaf: "self_keyed sha M \<Longrightarrow> M k = Some v \<Longrightarrow> leaf_hash (transaction_no_meta sha k v) = k"
  by (simp add: self_keyed_def leaf_hash_def transaction_no_meta_def hash_tx_no_meta_def)

lemma those_map_Some: "those (map (\<lambda>x. Some (f x)) xs) = Some (map f xs)"
  by (induction xs) simp_all

lemma inner_hash_merkle:
  assumes "distinct ids" and "set ids = dom M" and "self_keyed sha M" and "same_prefix ids d" and "d + j = 64" and "0 < j"
  shows "inner_hash sha j ids d = Some (merkle sha (transaction_no_meta sha) j d M)"
  using assms
proof (induction j arbitrary: ids d M)
  case (Suc j)
  let ?ids = "\<lambda>b. filter (\<lambda>id. select_branch id d = b) ids" and ?slot = "slot_hash (transaction_no_meta sha) (merkle sha (transaction_no_meta sha) j (Suc d))"
  have "child_hash (inner_hash sha j) (?ids b) (d + 1) = Some (?slot (part d b M))" for b
  proof -
    have ids: "set (?ids b) = dom (part d b M)" "distinct (?ids b)" using Suc.prems(1,2) by (auto simp: part_def)
    have keyed: "self_keyed sha (part d b M)" using Suc.prems(3) by (auto simp: self_keyed_def part_def restrict_map_def)
    have pre: "same_prefix (?ids b) (Suc d)" using Suc.prems(4) by (rule same_prefix_bucket)
    consider "?ids b = []" | x where "?ids b = [x]" | x y zs where "?ids b = x # y # zs" by (cases "?ids b"; cases "tl (?ids b)") auto
    then show ?thesis
    proof cases
      case 1
      then have "dom (part d b M) = {}" using ids(1) by simp
      then have "part d b M = Map.empty" by simp
      then show ?thesis using 1 by (simp add: child_hash_def)
    next
      case 2
      then obtain v where "part d b M = [x \<mapsto> v]" using ids(1) by (metis dom_eq_singleton_conv empty_set list.simps(15))
      then show ?thesis using 2 self_keyed_leaf [OF keyed, of x v] by (simp add: child_hash_def)
    next
      case 3
      then have "x \<noteq> y" "x \<in> dom (part d b M)" "y \<in> dom (part d b M)" using ids by auto
      then have many: "\<not> single (part d b M)" "part d b M \<noteq> Map.empty" using single_two [of x y "part d b M"] by auto
      have "0 < j" using same_prefix_64 [OF _ ids(2)] pre 3 Suc.prems(5) by (cases j) auto
      then have "inner_hash sha j (?ids b) (Suc d) = Some (merkle sha (transaction_no_meta sha) j (Suc d) (part d b M))"
        using Suc.IH [OF ids(2,1) keyed pre] Suc.prems(5) by simp
      then show ?thesis using 3 many by (simp add: child_hash_def)
    qed
  qed
  then show ?case by (simp add: BRANCH_FACTOR_def comp_def those_map_Some)
qed simp

text \<open>C24: The root of a candidate set, computed from the transaction ids alone, is the root hash of the
  transaction tree that holds those transactions, provided each id is the hash of its transaction.\<close>

theorem candidate_root_is_tree_root:
  assumes "represents sha store M m" and "sm_ctor m = transaction_no_meta sha"
    and "\<forall>k v. M k = Some v \<longrightarrow> sha (TRANSACTION_ID_PREFIX @ v) = k" and "set ids = dom M"
  shows "transaction_set_root sha ids = snd (shm_root_hash sha unique m)"
proof -
  have "transaction_set_root_fuel sha 64 ids = Some (root_digest sha (transaction_no_meta sha) M)"
  proof (cases "ids = []")
    case True
    then have "dom M = {}" using assms(4) by simp
    then show ?thesis using True by (simp add: transaction_set_root_fuel_def root_digest_def)
  next
    case False
    then have "M \<noteq> Map.empty" using assms(4) by auto
    moreover have "inner_hash sha 64 (sort_dedup ids) 0 = Some (merkle sha (transaction_no_meta sha) 64 0 M)"
      using assms(3,4) by (intro inner_hash_merkle) (simp_all add: self_keyed_def same_prefix_def)
    ultimately show ?thesis using False by (simp add: transaction_set_root_fuel_def root_digest_def)
  qed
  then show ?thesis unfolding represents_root_hash [OF assms(1)] by (simp add: transaction_set_root_def assms(2))
qed

theorem candidate_root_is_tree_root_witness:
  "\<exists>m. shm_run toy_sha None [PutOp 5 [7]] (transaction_map toy_sha) = Some (m, [Inr None])
    \<and> transaction_set_root toy_sha [5, 5] = snd (shm_root_hash toy_sha (\<lambda>_. True) m)"
proof -
  obtain m where m: "represents toy_sha None [5 \<mapsto> [7]] m" "sm_ctor m = transaction_no_meta toy_sha"
    "shm_run toy_sha None [PutOp 5 [7]] (transaction_map toy_sha) = Some (m, [Inr None])"
    using shm_run_new [of "transaction_no_meta toy_sha" toy_sha None "[PutOp 5 [7]]"]
    by (auto simp: leaf_kinds_def Let_def transaction_map_def)
  have "\<forall>k v. [5 \<mapsto> [7]] k = Some v \<longrightarrow> toy_sha (TRANSACTION_ID_PREFIX @ v) = k"
    by (auto simp: toy_sha_def TRANSACTION_ID_PREFIX_def split: if_splits)
  then show ?thesis using candidate_root_is_tree_root [OF m(1,2), of "[5, 5]" "\<lambda>_. True"] m(3) by auto
qed

subsection \<open>The root hash binds the entries\<close>

definition leaf_input :: "bytes \<Rightarrow> contents \<Rightarrow> bytes" where
  "leaf_input prefix P = (let k = THE k. k \<in> dom P in prefix @ the (P k) @ as_bytes k)"

definition slot_inputs :: "bytes \<Rightarrow> (contents \<Rightarrow> bytes set) \<Rightarrow> contents \<Rightarrow> bytes set" where
  "slot_inputs prefix inner P = (if P = Map.empty then {} else if single P then {leaf_input prefix P} else inner P)"

text \<open>Everything the digest of some entries feeds to the hash function.\<close>

primrec hash_inputs :: "(bytes \<Rightarrow> hash256) \<Rightarrow> leaf_ctor \<Rightarrow> bytes \<Rightarrow> nat \<Rightarrow> nat \<Rightarrow> contents \<Rightarrow> bytes set" where
  "hash_inputs sha ctor prefix 0 = (\<lambda>d M. {})"
| "hash_inputs sha ctor prefix (Suc j) = (\<lambda>d M.
     insert (INNER_NODE_PREFIX @ concat (map as_bytes (map (\<lambda>b. slot_hash ctor (merkle sha ctor j (Suc d)) (part d b M)) [0..<16])))
       (\<Union>b<16. slot_inputs prefix (hash_inputs sha ctor prefix j (Suc d)) (part d b M)))"

definition root_inputs :: "(bytes \<Rightarrow> hash256) \<Rightarrow> leaf_ctor \<Rightarrow> bytes \<Rightarrow> contents \<Rightarrow> bytes set" where
  "root_inputs sha ctor prefix M = (if M = Map.empty then {} else hash_inputs sha ctor prefix 64 0 M)"

definition keyed_kind :: "(bytes \<Rightarrow> hash256) \<Rightarrow> leaf_ctor \<Rightarrow> bytes \<Rightarrow> bool" where
  "keyed_kind sha ctor prefix \<longleftrightarrow>
     ctor = account_state sha \<and> prefix = LEAF_NODE_PREFIX \<or> ctor = transaction_with_meta sha \<and> prefix = TX_NODE_PREFIX"

lemma leaf_input_upd [simp]: "leaf_input prefix [k \<mapsto> v] = prefix @ v @ as_bytes k"
  by (simp add: leaf_input_def)

lemma keyed_leaf: "keyed_kind sha ctor prefix \<Longrightarrow> leaf_hash (ctor k v) = sha (prefix @ v @ as_bytes k)"
  by (auto simp: keyed_kind_def leaf_hash_def account_state_def transaction_with_meta_def hash_account_state_def hash_tx_with_meta_def Let_def)

lemma keyed_prefix: "keyed_kind sha ctor prefix \<Longrightarrow> prefix @ x \<noteq> INNER_NODE_PREFIX @ y"
  by (auto simp: keyed_kind_def LEAF_NODE_PREFIX_def TX_NODE_PREFIX_def INNER_NODE_PREFIX_def)

lemma keyed_leaf_inj:
  assumes "prefix @ v @ as_bytes k = prefix @ v' @ as_bytes k'"
  shows "k = k' \<and> v = v'"
proof -
  have "v @ as_bytes k = v' @ as_bytes k'" using assms by simp
  moreover from this have "length v = length v'" by (metis add_right_cancel length_append length_as_bytes)
  ultimately show ?thesis by (simp add: as_bytes_inj)
qed

lemma concat_as_bytes_inj: "length xs = length ys \<Longrightarrow> concat (map as_bytes xs) = concat (map as_bytes ys) \<Longrightarrow> xs = ys"
  by (induction xs ys rule: list_induct2) (simp_all add: as_bytes_inj)

definition common_prefix :: "nat \<Rightarrow> contents \<Rightarrow> bool" where
  "common_prefix d M \<longleftrightarrow> (\<forall>k\<in>dom M. \<forall>k'\<in>dom M. \<forall>i<d. select_branch k i = select_branch k' i)"

lemma common_prefix_part: "common_prefix d M \<Longrightarrow> common_prefix (Suc d) (part d b M)"
  unfolding common_prefix_def part_def by (auto simp: less_Suc_eq restrict_map_def split: if_splits; blast)

lemma common_prefix_single:
  assumes "common_prefix 64 M" and "M \<noteq> Map.empty"
  shows "single M"
proof (rule ccontr)
  assume "\<not> single M"
  with assms(2) obtain k v k' v' where k: "M k = Some v" "M k' = Some v'" "k \<noteq> k'" by (rule not_single_two)
  have "k = k'" by (rule select_branch_inj) (use assms(1) k in \<open>auto simp: common_prefix_def\<close>)
  then show False using k(3) by simp
qed

lemma slot_input:
  assumes "keyed_kind sha ctor prefix" and "slot_inputs prefix (hash_inputs sha ctor prefix j d) P \<subseteq> A" and "P \<noteq> Map.empty"
    and "\<not> single P \<Longrightarrow> 0 < j"
  shows "\<exists>x\<in>A. slot_hash ctor (merkle sha ctor j d) P = sha x
    \<and> (if single P then x = leaf_input prefix P else \<exists>y. x = INNER_NODE_PREFIX @ y)"
proof (cases "single P")
  case True
  then obtain k v where P: "P = [k \<mapsto> v]" by (auto simp: single_def)
  have "leaf_input prefix P \<in> A" using assms(2,3) True by (simp add: slot_inputs_def)
  moreover have "slot_hash ctor (merkle sha ctor j d) P = sha (leaf_input prefix P)" using keyed_leaf [OF assms(1)] by (simp add: P)
  ultimately show ?thesis using True by auto
next
  case False
  then obtain i where "j = Suc i" using assms(4) by (cases j) auto
  then show ?thesis using assms(2,3) False by (auto simp: slot_inputs_def)
qed

lemma slot_inj:
  assumes "keyed_kind sha ctor prefix" and "inj_on sha A" and "0 \<notin> sha ` A"
    and "slot_inputs prefix (hash_inputs sha ctor prefix j d) P \<subseteq> A" and "slot_inputs prefix (hash_inputs sha ctor prefix j d) P' \<subseteq> A"
    and "\<And>Q. Q \<in> {P, P'} \<Longrightarrow> Q \<noteq> Map.empty \<Longrightarrow> \<not> single Q \<Longrightarrow> 0 < j"
    and "slot_hash ctor (merkle sha ctor j d) P = slot_hash ctor (merkle sha ctor j d) P'"
    and "\<lbrakk>P \<noteq> Map.empty; P' \<noteq> Map.empty; \<not> single P; \<not> single P'; merkle sha ctor j d P = merkle sha ctor j d P'\<rbrakk> \<Longrightarrow> P = P'"
  shows "P = P'"
proof (cases "P = Map.empty \<or> P' = Map.empty")
  case True
  have "slot_hash ctor (merkle sha ctor j d) Q \<noteq> 0" if "Q \<in> {P, P'}" "Q \<noteq> Map.empty" for Q
    using slot_input [OF assms(1), of j d Q A] assms(3-6) that by (metis image_eqI insertE singletonD)
  then show ?thesis using True assms(7) by (metis insertI1 insertI2 singletonI slot_hash_simps(1))
next
  case False
  obtain x where x: "x \<in> A" "slot_hash ctor (merkle sha ctor j d) P = sha x"
    "if single P then x = leaf_input prefix P else \<exists>y. x = INNER_NODE_PREFIX @ y"
    using slot_input [OF assms(1,4)] False assms(6) [of P] by blast
  obtain x' where x': "x' \<in> A" "slot_hash ctor (merkle sha ctor j d) P' = sha x'"
    "if single P' then x' = leaf_input prefix P' else \<exists>y. x' = INNER_NODE_PREFIX @ y"
    using slot_input [OF assms(1,5)] False assms(6) [of P'] by blast
  have eq: "x = x'" using x x' assms(2,7) by (metis inj_on_def)
  have no: "leaf_input prefix Q \<noteq> INNER_NODE_PREFIX @ y" for Q y
    using keyed_prefix [OF assms(1)] by (simp add: leaf_input_def Let_def)
  show ?thesis
  proof (cases "single P")
    case True
    then have "single P'" using eq x(3) x'(3) no by metis
    then obtain k v k' v' where "P = [k \<mapsto> v]" "P' = [k' \<mapsto> v']" using True by (auto simp: single_def)
    then show ?thesis using eq x(3) x'(3) True \<open>single P'\<close> keyed_leaf_inj [of prefix v k v' k'] by simp
  next
    case nP: False
    then have nP': "\<not> single P'" using eq x(3) x'(3) no by metis
    then show ?thesis using nP False assms(7,8) by simp
  qed
qed

lemma merkle_inj:
  assumes "keyed_kind sha ctor prefix" and "inj_on sha A" and "0 \<notin> sha ` A"
    and "hash_inputs sha ctor prefix j d M \<subseteq> A" and "hash_inputs sha ctor prefix j d M' \<subseteq> A"
    and "common_prefix d M" and "common_prefix d M'" and "d + j = 64" and "0 < j"
    and "merkle sha ctor j d M = merkle sha ctor j d M'"
  shows "M = M'"
  using assms(4-10)
proof (induction j arbitrary: d M M')
  case (Suc j)
  let ?slot = "slot_hash ctor (merkle sha ctor j (Suc d))"
  let ?in = "\<lambda>M. INNER_NODE_PREFIX @ concat (map as_bytes (map (\<lambda>b. ?slot (part d b M)) [0..<16]))"
  have "?in M \<in> A" "?in M' \<in> A" using Suc.prems(1,2) by simp_all
  moreover have "sha (?in M) = sha (?in M')" using Suc.prems(7) by simp
  ultimately have "?in M = ?in M'" using assms(2) by (simp only: inj_on_eq_iff)
  then have "map (\<lambda>b. ?slot (part d b M)) [0..<16] = map (\<lambda>b. ?slot (part d b M')) [0..<16]"
    by (intro concat_as_bytes_inj) simp_all
  then have slots: "?slot (part d b M) = ?slot (part d b M')" if "b < 16" for b using that by simp
  have *: "part d b M = part d b M'" if b: "b < 16" for b
  proof (rule slot_inj [OF assms(1-3) _ _ _ slots [OF b]])
    show in_A: "slot_inputs prefix (hash_inputs sha ctor prefix j (Suc d)) (part d b M) \<subseteq> A"
      "slot_inputs prefix (hash_inputs sha ctor prefix j (Suc d)) (part d b M') \<subseteq> A" using Suc.prems(1,2) b by auto
    show pos: "0 < j" if "Q \<in> {part d b M, part d b M'}" "Q \<noteq> Map.empty" "\<not> single Q" for Q
    proof (rule ccontr)
      assume "\<not> 0 < j"
      then have "common_prefix 64 Q" using that(1) common_prefix_part [OF Suc.prems(3), of b] common_prefix_part [OF Suc.prems(4), of b] Suc.prems(5) by auto
      then show False using common_prefix_single that(2,3) by blast
    qed
    assume many: "part d b M \<noteq> Map.empty" "part d b M' \<noteq> Map.empty" "\<not> single (part d b M)" "\<not> single (part d b M')"
      and eq: "merkle sha ctor j (Suc d) (part d b M) = merkle sha ctor j (Suc d) (part d b M')"
    have "hash_inputs sha ctor prefix j (Suc d) (part d b M) \<subseteq> A" "hash_inputs sha ctor prefix j (Suc d) (part d b M') \<subseteq> A"
      using in_A many by (simp_all add: slot_inputs_def)
    then show "part d b M = part d b M'"
      using Suc.IH [OF _ _ common_prefix_part [OF Suc.prems(3)] common_prefix_part [OF Suc.prems(4)] _ _ eq]
        pos [of "part d b M"] many Suc.prems(5) by simp
  qed
  show ?case
  proof
    fix k
    have "part d (select_branch k d) M k = part d (select_branch k d) M' k" using * select_branch_16 [of k d] by simp
    then show "M k = M' k" by (simp add: part_apply)
  qed
qed simp

lemma root_digest_in:
  assumes "M \<noteq> Map.empty"
  shows "root_digest sha ctor M \<in> sha ` root_inputs sha ctor prefix M"
proof -
  have "merkle sha ctor j 0 M \<in> sha ` hash_inputs sha ctor prefix j 0 M" if "0 < j" for j using that by (cases j) simp_all
  then show ?thesis using assms by (simp add: root_inputs_def root_digest_def)
qed

lemma root_digest_inj:
  assumes "keyed_kind sha ctor prefix" and "inj_on sha (root_inputs sha ctor prefix M \<union> root_inputs sha ctor prefix M')"
    and "0 \<notin> sha ` (root_inputs sha ctor prefix M \<union> root_inputs sha ctor prefix M')" and "root_digest sha ctor M = root_digest sha ctor M'"
  shows "M = M'"
proof -
  show ?thesis
  proof (cases "M = Map.empty \<or> M' = Map.empty")
    case True
    have "root_digest sha ctor N \<noteq> 0" if "N \<in> {M, M'}" "N \<noteq> Map.empty" for N
      using root_digest_in [OF that(2), of sha ctor prefix] assms(3) that(1) by (auto simp: image_Un)
    moreover have "root_digest sha ctor Map.empty = 0" by (simp add: root_digest_def)
    ultimately show ?thesis using True assms(4) by (metis insertCI)
  next
    case False
    show ?thesis
      by (rule merkle_inj [OF assms(1-3), of 64 0]) (use False assms(4) in \<open>auto simp: root_inputs_def root_digest_def common_prefix_def\<close>)
  qed
qed

text \<open>C20: The root hash of a state tree, or of a transaction tree with metadata, binds its entries: two maps
  of the same kind have the same root hash exactly when every lookup gives the same answer, as long as
  the hash function does not collide, and is not zero, on what the two trees feed to it.\<close>

theorem root_hash_binds_entries:
  assumes "represents sha store M m" and "represents sha store M' m'" and "sm_ctor m' = sm_ctor m" and "keyed_kind sha (sm_ctor m) prefix"
    and "inj_on sha (root_inputs sha (sm_ctor m) prefix M \<union> root_inputs sha (sm_ctor m) prefix M')"
    and "0 \<notin> sha ` (root_inputs sha (sm_ctor m) prefix M \<union> root_inputs sha (sm_ctor m) prefix M')"
  shows "snd (shm_root_hash sha unique m) = snd (shm_root_hash sha unique' m') \<longleftrightarrow> (\<forall>k. shm_get store m k = shm_get store m' k)"
proof -
  have "(\<forall>k. shm_get store m k = shm_get store m' k) \<longleftrightarrow> M = M'" using represents_get assms(1,2) by (metis ext option.inject)
  then show ?thesis unfolding represents_root_hash [OF assms(1)] represents_root_hash [OF assms(2)] assms(3)
    using root_digest_inj [OF assms(4-6)] by blast
qed

theorem root_hash_binds_entries_witness:
  "\<exists>m m'. shm_run toy_sha None [PutOp 1 [7]] (account_state_map toy_sha) = Some (m, [Inr None])
    \<and> shm_run toy_sha None [] (account_state_map toy_sha) = Some (m', [])
    \<and> snd (shm_root_hash toy_sha (\<lambda>_. True) m) \<noteq> snd (shm_root_hash toy_sha (\<lambda>_. False) m')"
proof -
  let ?c = "account_state toy_sha" let ?M = "[1 \<mapsto> [7]] :: contents"
  have kind: "?c \<in> leaf_kinds toy_sha" by (simp add: leaf_kinds_def)
  obtain m where m: "represents toy_sha None ?M m" "shm_run toy_sha None [PutOp 1 [7]] (account_state_map toy_sha) = Some (m, [Inr None])" "sm_ctor m = ?c"
    using shm_run_new [OF kind, of None "[PutOp 1 [7]]"] by (auto simp: account_state_map_def Let_def)
  obtain m' where m': "represents toy_sha None Map.empty m'" "shm_run toy_sha None [] (account_state_map toy_sha) = Some (m', [])" "sm_ctor m' = ?c"
    using shm_run_new [OF kind, of None "[]"] by (auto simp: account_state_map_def)
  have p: "part 0 b ?M = (if b = select_branch 1 0 then ?M else Map.empty)" for b by (auto simp: part_def restrict_map_def)
  let ?L = "LEAF_NODE_PREFIX @ [7] @ as_bytes 1"
  have "\<exists>I. hash_inputs toy_sha ?c LEAF_NODE_PREFIX (Suc j) 0 ?M \<subseteq> {I, ?L} \<and> length I = 516" for j
    by (rule exI [of _ "INNER_NODE_PREFIX @ concat (map as_bytes (map (\<lambda>b. slot_hash ?c (merkle toy_sha ?c j (Suc 0)) (part 0 b ?M)) [0..<16]))"])
      (auto simp: p slot_inputs_def INNER_NODE_PREFIX_def length_concat comp_def sum_list_triv split: if_splits)
  from this [of 63] obtain I where I: "root_inputs toy_sha ?c LEAF_NODE_PREFIX ?M \<union> root_inputs toy_sha ?c LEAF_NODE_PREFIX Map.empty \<subseteq> {I, ?L}" "length I = 516"
    by (auto simp: root_inputs_def)
  have inj: "inj_on toy_sha {I, ?L}" "0 \<notin> toy_sha ` {I, ?L}" using I(2) by (auto simp: inj_on_def toy_sha_def LEAF_NODE_PREFIX_def)
  have "keyed_kind toy_sha ?c LEAF_NODE_PREFIX" by (simp add: keyed_kind_def)
  then have "snd (shm_root_hash toy_sha (\<lambda>_. True) m) = snd (shm_root_hash toy_sha (\<lambda>_. False) m') \<longleftrightarrow> (\<forall>k. shm_get None m k = shm_get None m' k)"
    using root_hash_binds_entries [OF m(1) m'(1), unfolded m(3) m'(3), OF refl _ inj_on_subset [OF inj(1) I(1)]] I(1) inj(2) by blast
  moreover have "shm_get None m 1 \<noteq> shm_get None m' 1" using represents_get [OF m(1), of 1] represents_get [OF m'(1), of 1] by simp
  ultimately show ?thesis using m(2) m'(2) by blast
qed

end
