(* ===== verification/Shamap_Store.thy ===== *)
theory Shamap_Store
  imports Shamap_Properties
begin

text \<open>
  Trees and their backing store: \<open>flush\<close>, \<open>from_root_hash\<close>, \<open>syncing_with_store\<close>, \<open>reload_root\<close> and
  \<open>add_raw_node\<close> of \<^verbatim>\<open>crates/shamap/src/shamap.rs\<close>. The trait \<open>NodeStore\<close> is the locale
  \<open>node_store\<close>: what a fetch returns after a batch was stored. The in-memory store is an instance of
  it, and a map flushed to any instance can be loaded back from its root hash.
\<close>

text \<open>The loaded children are those the tree holds. A child that a lookup loaded from the store and
  cached is not one of them here: the code stores such a node once more, under the same hash.\<close>

primrec collect_dirty_inner :: "(bytes \<Rightarrow> hash256) \<Rightarrow> inner_node \<Rightarrow> (hash256 \<times> bytes) list"
  and collect_dirty_nodes :: "(bytes \<Rightarrow> hash256) \<Rightarrow> shamap_node \<Rightarrow> (hash256 \<times> bytes) list" where
  "collect_dirty_inner sha (InnerNode hs cs br h) =
     (let hash = inner_node_hash sha (InnerNode hs cs br h);
          below = map (map_option (collect_dirty_nodes sha)) cs in
      (if hash \<noteq> 0 then [(hash, serialize_inner hs)] else [])
      @ concat (map (\<lambda>b. case below ! b of None \<Rightarrow> [] | Some entries \<Rightarrow> entries) (mask_branches br)))"
| "collect_dirty_nodes sha (Inner n) = collect_dirty_inner sha n"
| "collect_dirty_nodes sha (Leaf l) = [(leaf_hash l, serialize_leaf (leaf_key l) (leaf_bytes l))]"

definition flush :: "((hash256 \<times> bytes) list \<Rightarrow> 's \<Rightarrow> 's \<times> (shamap_error + unit)) \<Rightarrow> (bytes \<Rightarrow> hash256) \<Rightarrow> (nat list \<Rightarrow> bool)
    \<Rightarrow> shamap \<Rightarrow> 's option \<Rightarrow> shamap \<times> 's option \<times> (shamap_error + hash256)" where
  "flush store_batch sha unique m store =
     (let (m, root_hash) = shm_root_hash sha unique m in
      case store of None \<Rightarrow> (m, None, Inr root_hash)
      | Some s \<Rightarrow>
          (let entries = collect_dirty_nodes sha (sm_root m) in
           if entries = [] then (m, Some s, Inr root_hash)
           else (case store_batch entries s of
               (s, Inl e) \<Rightarrow> (m, Some s, Inl e)
             | (s, Inr _) \<Rightarrow> (m, Some s, Inr root_hash))))"

definition from_root_hash :: "hash256 \<Rightarrow> leaf_ctor \<Rightarrow> node_fetch \<Rightarrow> shamap_error + shamap" where
  "from_root_hash root_hash ctor fetch =
     (case fetch root_hash of Inl e \<Rightarrow> Inl e
      | Inr None \<Rightarrow> Inl (NodeNotFound root_hash)
      | Inr (Some bs) \<Rightarrow>
          (case deserialize_node bs root_hash ctor of Inl e \<Rightarrow> Inl e
           | Inr node \<Rightarrow> Inr \<lparr>sm_root = node, sm_state = Modifying, sm_ctor = ctor\<rparr>))"

definition syncing_with_store :: "hash256 \<Rightarrow> leaf_ctor \<Rightarrow> node_fetch \<Rightarrow> shamap" where
  "syncing_with_store root_hash ctor fetch =
     (let root = (case fetch root_hash of
            Inr (Some bs) \<Rightarrow> (case deserialize_node bs root_hash ctor of Inr node \<Rightarrow> node | Inl _ \<Rightarrow> Inner inner_new)
          | _ \<Rightarrow> Inner inner_new)
      in \<lparr>sm_root = root, sm_state = Syncing, sm_ctor = ctor\<rparr>)"

definition reload_root :: "node_fetch option \<Rightarrow> hash256 \<Rightarrow> shamap \<Rightarrow> shamap \<times> (shamap_error + unit)" where
  "reload_root store root_hash m =
     (case store of None \<Rightarrow> (m, Inl MissingStore)
      | Some fetch \<Rightarrow>
          (case fetch root_hash of Inl e \<Rightarrow> (m, Inl e)
           | Inr None \<Rightarrow> (m, Inr ())
           | Inr (Some bs) \<Rightarrow>
               (case deserialize_node bs root_hash (sm_ctor m) of Inl e \<Rightarrow> (m, Inl e)
                | Inr node \<Rightarrow> (m\<lparr>sm_root := node\<rparr>, Inr ()))))"

definition add_raw_node :: "('s \<Rightarrow> node_fetch) \<Rightarrow> ((hash256 \<times> bytes) list \<Rightarrow> 's \<Rightarrow> 's \<times> (shamap_error + unit))
    \<Rightarrow> hash256 \<Rightarrow> bytes \<Rightarrow> 's option \<Rightarrow> 's option \<times> (shamap_error + bool)" where
  "add_raw_node fetch store_batch h data store =
     (case store of None \<Rightarrow> (None, Inl MissingStore)
      | Some s \<Rightarrow>
          (case fetch s h of Inl e \<Rightarrow> (Some s, Inl e)
           | Inr (Some _) \<Rightarrow> (Some s, Inr False)
           | Inr None \<Rightarrow>
               (case store_batch [(h, data)] s of (s, Inl e) \<Rightarrow> (Some s, Inl e) | (s, Inr _) \<Rightarrow> (Some s, Inr True))))"

subsection \<open>More records answer the same questions\<close>

definition extends :: "node_fetch \<Rightarrow> node_fetch \<Rightarrow> bool" where
  "extends f f' \<longleftrightarrow> (\<forall>h bs. f h = Inr (Some bs) \<longrightarrow> f' h = Inr (Some bs))"

lemma fetch_child_extends: "extends f f' \<Longrightarrow> fetch_child (Some f) ctor h = Inr node \<Longrightarrow> fetch_child (Some f') ctor h = Inr node"
  by (auto simp: fetch_child_def extends_def split: sum.splits option.splits)

lemma holds_extends:
  assumes "extends f f'" and "holds sha (Some f) ctor j d M n"
  shows "holds sha (Some f') ctor j d M n"
  using assms(2)
proof (induction j arbitrary: d M n)
  case (Suc j)
  have "node_ok ctor (holds sha (Some f') ctor j (Suc d)) P node" if "node_ok ctor (holds sha (Some f) ctor j (Suc d)) P node" for P node
    using that Suc.IH by (cases node) (simp_all add: node_ok_def)
  then have "slot_ok (Some f') ctor inner (holds sha (Some f') ctor j (Suc d)) P n b"
    if "slot_ok (Some f) ctor inner (holds sha (Some f) ctor j (Suc d)) P n b" for inner P b
    using that fetch_child_extends [OF assms(1)] unfolding slot_ok_def by (auto split: option.splits if_splits)
  then show ?case using Suc.prems by (simp add: holds.simps(2))
qed simp

subsection \<open>A flushed tree can be loaded\<close>

text \<open>No hash of the tree is zero: a zero hash marks an empty branch in a store record.\<close>

primrec nonzero_hashes :: "(bytes \<Rightarrow> hash256) \<Rightarrow> leaf_ctor \<Rightarrow> nat \<Rightarrow> nat \<Rightarrow> contents \<Rightarrow> bool" where
  "nonzero_hashes sha ctor 0 = (\<lambda>d M. True)"
| "nonzero_hashes sha ctor (Suc j) = (\<lambda>d M. merkle sha ctor (Suc j) d M \<noteq> 0 \<and>
     (\<forall>b<16. part d b M \<noteq> Map.empty \<longrightarrow>
        (if single (part d b M) then leaf_hash (only_leaf ctor (part d b M)) \<noteq> 0 else nonzero_hashes sha ctor j (Suc d) (part d b M))))"

lemma collect_dirty_inner_unfold:
  "collect_dirty_inner sha n = (if inner_node_hash sha n \<noteq> 0 then [(inner_node_hash sha n, serialize_inner (in_hashes n))] else [])
     @ concat (map (\<lambda>b. case map (map_option (collect_dirty_nodes sha)) (in_children n) ! b of None \<Rightarrow> [] | Some entries \<Rightarrow> entries)
         (mask_branches (in_branch n)))"
  by (cases n) simp

lemma collect_dirty_child:
  assumes "holds sha store ctor (Suc j) d M n" and "b < 16" and "part d b M \<noteq> Map.empty" and "in_children n ! b = Some c"
  shows "set (collect_dirty_nodes sha c) \<subseteq> set (collect_dirty_inner sha n)"
proof -
  have "b \<in> set (mask_branches (in_branch n))" using holds_bit [OF assms(1), of b] assms(2,3) by (simp add: set_mask_branches)
  moreover have "map (map_option (collect_dirty_nodes sha)) (in_children n) ! b = Some (collect_dirty_nodes sha c)"
    using assms(2,4) holds_SucD(2) [OF assms(1)] by simp
  ultimately show ?thesis unfolding collect_dirty_inner_unfold by force
qed

lemma nonzero_merkle: "0 < j \<Longrightarrow> nonzero_hashes sha ctor j d M \<Longrightarrow> merkle sha ctor j d M \<noteq> 0"
  by (cases j) (simp_all del: merkle.simps)

lemma nonzero_part:
  "nonzero_hashes sha ctor (Suc j) d M \<Longrightarrow> b < 16 \<Longrightarrow> part d b M \<noteq> Map.empty \<Longrightarrow> \<not> single (part d b M) \<Longrightarrow> nonzero_hashes sha ctor j (Suc d) (part d b M)"
  by (simp del: merkle.simps)

lemma nonzero_slot:
  assumes "nonzero_hashes sha ctor (Suc j) d M" and "b < 16" and "node_ok ctor (holds sha store ctor j (Suc d)) (part d b M) node"
  shows "slot_hash ctor (merkle sha ctor j (Suc d)) (part d b M) \<noteq> 0"
  using assms(3)
proof (cases rule: node_okE)
  case (Leaf k v)
  then have one: "single (part d b M)" by (auto simp: single_def)
  then have "leaf_hash (only_leaf ctor (part d b M)) \<noteq> 0"
    using assms(1,2) single_not_empty [OF one] by (simp del: merkle.simps)
  then show ?thesis using Leaf(2) by simp
next
  case (Inner i)
  then have "0 < j" by (cases j) simp_all
  then show ?thesis using nonzero_merkle nonzero_part [OF assms(1,2) Inner(2,3)] Inner(2,3) by simp
qed

lemma fetch_leaf: "f h = Inr (Some (serialize_leaf k v)) \<Longrightarrow> fetch_child (Some f) ctor h = Inr (Leaf (ctor k v))"
  by (simp add: fetch_child_def deserialize_leaf)

lemma node_ok_extends:
  "extends f f' \<Longrightarrow> node_ok ctor (holds sha (Some f) ctor j d) P node \<Longrightarrow> node_ok ctor (holds sha (Some f') ctor j d) P node"
  using holds_extends by (auto simp: node_ok_def split: shamap_node.splits)

lemma flushed_inner_holds:
  assumes "holds sha (Some f) ctor j d M n" and "M \<noteq> Map.empty" and "nonzero_hashes sha ctor j d M" and "extends f f'"
    and "\<And>h bs. (h, bs) \<in> set (collect_dirty_inner sha n) \<Longrightarrow> f' h = Inr (Some bs)" and "ctor \<in> leaf_kinds sha"
  shows "\<exists>n'. fetch_child (Some f') ctor (merkle sha ctor j d M) = Inr (Inner n') \<and> holds sha (Some f') ctor j d M n'"
  using assms(1-3,5)
proof (induction j arbitrary: d M n)
  case (Suc j)
  note n = holds_SucD [OF Suc.prems(1)]
  let ?h = "merkle sha ctor (Suc j) d M"
  have hash: "inner_node_hash sha n = ?h" "?h \<noteq> 0" using holds_hash [OF Suc.prems(1)] Suc.prems(2) nonzero_merkle [OF _ Suc.prems(3)] by (simp_all del: merkle.simps)
  then have "f' ?h = Inr (Some (serialize_inner (in_hashes n)))" by (intro Suc.prems(4)) (simp add: collect_dirty_inner_unfold)
  moreover obtain m where m: "deserialize_node (serialize_inner (in_hashes n)) ?h ctor = Inr (Inner (InnerNode (in_hashes n) (replicate 16 None) m ?h))"
    "nonzero_mask (in_hashes n) m" using deserialize_inner [OF n(1)] by blast
  ultimately have fetched: "fetch_child (Some f') ctor ?h = Inr (Inner (InnerNode (in_hashes n) (replicate 16 None) m ?h))"
    by (simp add: fetch_child_def)
  have "slot_ok (Some f') ctor (merkle sha ctor j (Suc d)) (holds sha (Some f') ctor j (Suc d)) (part d b M)
      (InnerNode (in_hashes n) (replicate 16 None) m ?h) b" if b: "b < 16" for b
  proof (cases "part d b M = Map.empty")
    case True
    then show ?thesis using n(4) [OF b] m(2) b n(1) by (simp add: slot_ok_def nonzero_mask_def)
  next
    case False
    have sh: "in_hashes n ! b = slot_hash ctor (merkle sha ctor j (Suc d)) (part d b M)" using slot_hash_ok [OF n(4) [OF b]] .
    obtain node where node: "(case in_children n ! b of Some c \<Rightarrow> Inr c | None \<Rightarrow> fetch_child (Some f) ctor (in_hashes n ! b)) = Inr node"
      "node_ok ctor (holds sha (Some f) ctor j (Suc d)) (part d b M) node" using n(4) [OF b] False by (auto simp: slot_ok_def)
    have "bit m b" using nonzero_slot [OF Suc.prems(3) b node(2)] sh m(2) b n(1) by (simp add: nonzero_mask_def)
    moreover have "\<exists>node. fetch_child (Some f') ctor (in_hashes n ! b) = Inr node \<and> node_ok ctor (holds sha (Some f') ctor j (Suc d)) (part d b M) node"
    proof (cases "in_children n ! b")
      case None
      then show ?thesis using node fetch_child_extends [OF assms(4)] node_ok_extends [OF assms(4)] by auto
    next
      case (Some c)
      then have c: "node = c" using node(1) by simp
      note dirty = subsetD [OF collect_dirty_child [OF Suc.prems(1) b False Some], THEN Suc.prems(4)]
      from node(2) show ?thesis
      proof (cases rule: node_okE)
        case (Leaf k v)
        then have "f' (leaf_hash (ctor k v)) = Inr (Some (serialize_leaf k v))" using c assms(6) by (intro dirty) auto
        then show ?thesis using fetch_leaf sh Leaf(2) node_ok_intros(1) by force
      next
        case (Inner i)
        have "set (collect_dirty_inner sha i) = set (collect_dirty_nodes sha c)" using c Inner(1) by auto
        then obtain n' where "fetch_child (Some f') ctor (merkle sha ctor j (Suc d) (part d b M)) = Inr (Inner n')" "holds sha (Some f') ctor j (Suc d) (part d b M) n'"
          using Suc.IH [OF Inner(4,2) nonzero_part [OF Suc.prems(3) b Inner(2,3)]] dirty by auto
        then show ?thesis using sh Inner(2,3) by (auto simp: node_ok_def)
      qed
    qed
    ultimately show ?thesis using False sh b by (simp add: slot_ok_def)
  qed
  then show ?case using fetched n(1) Suc.prems(2) by (simp add: holds.simps(2))
qed simp

subsection \<open>Backing stores\<close>

text \<open>No two of the records, and no record and one already in the store, share a hash without being equal.\<close>

definition no_clash :: "(hash256 \<times> bytes) list \<Rightarrow> node_fetch \<Rightarrow> bool" where
  "no_clash entries f \<longleftrightarrow> (\<forall>(h, bs)\<in>set entries. (\<forall>(h', bs')\<in>set entries. h' = h \<longrightarrow> bs' = bs) \<and>
     (case f h of Inr (Some bs') \<Rightarrow> bs' = bs | _ \<Rightarrow> True))"

lemma no_clashD:
  "no_clash entries f \<Longrightarrow> (h, bs) \<in> set entries \<Longrightarrow> (h, bs') \<in> set entries \<Longrightarrow> bs' = bs"
  "no_clash entries f \<Longrightarrow> (h, bs) \<in> set entries \<Longrightarrow> f h = Inr (Some bs') \<Longrightarrow> bs' = bs"
  by (fastforce simp: no_clash_def)+

locale node_store =
  fixes fetch :: "'s \<Rightarrow> node_fetch" and store_batch :: "(hash256 \<times> bytes) list \<Rightarrow> 's \<Rightarrow> 's \<times> (shamap_error + unit)"
  assumes fetch_stored: "store_batch entries s = (s', Inr ()) \<Longrightarrow>
    fetch s' h = (case map_of (rev entries) h of Some bs \<Rightarrow> Inr (Some bs) | None \<Rightarrow> fetch s h)"
begin

lemma stored_entries:
  assumes "store_batch entries s = (s', Inr ())" and "no_clash entries (fetch s)"
  shows "(h, bs) \<in> set entries \<Longrightarrow> fetch s' h = Inr (Some bs)" "extends (fetch s) (fetch s')"
proof -
  show *: "fetch s' h = Inr (Some bs)" if e: "(h, bs) \<in> set entries" for h bs
  proof -
    obtain bs' where "map_of (rev entries) h = Some bs'" using e by (metis map_of_eq_None_iff option.exhaust set_map set_rev image_eqI fst_conv)
    moreover from map_of_SomeD [OF this] have "bs' = bs" using e no_clashD(1) [OF assms(2)] by simp
    ultimately show ?thesis using fetch_stored [OF assms(1), of h] by simp
  qed
  show "extends (fetch s) (fetch s')" unfolding extends_def
  proof (intro allI impI)
    fix h bs assume f: "fetch s h = Inr (Some bs)"
    show "fetch s' h = Inr (Some bs)"
    proof (cases "map_of (rev entries) h")
      case None
      then show ?thesis using f fetch_stored [OF assms(1), of h] by simp
    next
      case (Some bs')
      from map_of_SomeD [OF this] have "(h, bs') \<in> set entries" by simp
      moreover from no_clashD(2) [OF assms(2) this f] have "bs = bs'" .
      ultimately show ?thesis using * by simp
    qed
  qed
qed

lemma flush_reload:
  assumes "represents sha (Some (fetch s)) M m" and "M \<noteq> Map.empty" and "nonzero_hashes sha (sm_ctor m) 64 0 M"
    and "no_clash (collect_dirty_nodes sha (update_hashes sha (sm_root m) unique)) (fetch s)"
    and "snd (store_batch (collect_dirty_nodes sha (update_hashes sha (sm_root m) unique)) s) = Inr ()"
  shows "\<exists>m' s' m''. flush store_batch sha unique m (Some s) = (m', Some s', Inr (root_digest sha (sm_ctor m) M))
    \<and> from_root_hash (root_digest sha (sm_ctor m) M) (sm_ctor m) (fetch s') = Inr m'' \<and> represents sha (Some (fetch s')) M m''
    \<and> sm_ctor m'' = sm_ctor m"
proof -
  let ?c = "sm_ctor m" let ?entries = "collect_dirty_nodes sha (update_hashes sha (sm_root m) unique)"
  obtain n where n: "sm_root m = Inner n" "holds sha (Some (fetch s)) ?c 64 0 M n" "?c \<in> leaf_kinds sha" using assms(1) by (auto simp: represents_def)
  let ?n = "update_hashes_inner sha n unique"
  have n': "holds sha (Some (fetch s)) ?c 64 0 M ?n" using n(2) by (rule update_hashes_inner_holds)
  obtain s' where s': "store_batch ?entries s = (s', Inr ())" using assms(5) by (cases "store_batch ?entries s") auto
  have dig: "root_digest sha ?c M = merkle sha ?c 64 0 M" using assms(2) by (simp add: root_digest_def)
  obtain i where i: "fetch_child (Some (fetch s')) ?c (merkle sha ?c 64 0 M) = Inr (Inner i)" "holds sha (Some (fetch s')) ?c 64 0 M i"
    using flushed_inner_holds [OF n' assms(2,3) stored_entries(2) [OF s' assms(4)] _ n(3)] stored_entries(1) [OF s' assms(4)] n(1) by auto
  have "from_root_hash (root_digest sha ?c M) ?c (fetch s') = Inr \<lparr>sm_root = Inner i, sm_state = Modifying, sm_ctor = ?c\<rparr>"
    using i(1) by (auto simp: from_root_hash_def fetch_child_def dig split: sum.splits option.splits)
  moreover have "represents sha (Some (fetch s')) M \<lparr>sm_root = Inner i, sm_state = Modifying, sm_ctor = ?c\<rparr>" using i(2) n(3) by (simp add: represents_def)
  moreover have "?entries \<noteq> []"
    using holds_hash [OF n'] assms(2) nonzero_merkle [OF _ assms(3)] n(1) by (simp add: collect_dirty_inner_unfold)
  then have "flush store_batch sha unique m (Some s) = (m\<lparr>sm_root := update_hashes sha (sm_root m) unique\<rparr>, Some s', Inr (root_digest sha ?c M))"
    using s' represents_root_hash [OF assms(1), of unique] by (simp add: flush_def shm_root_hash_def Let_def)
  ultimately show ?thesis by auto
qed

end

lemma fold_hm_insert: "hm_get (fold (\<lambda>(h, bs) m. hm_insert h bs m) entries m) h = (case map_of (rev entries) h of Some bs \<Rightarrow> Some bs | None \<Rightarrow> hm_get m h)"
  by (induction entries arbitrary: m) (auto simp: hm_simps map_of_append map_add_def split: option.splits)

interpretation ms: node_store mem_fetch mem_store_batch
  by unfold_locales (auto simp: mem_fetch_def mem_store_batch_def fold_hm_insert split: if_splits option.splits)

definition saved :: shamap where
  "saved = fst (the (shm_put toy_sha (Some (mem_fetch mem_new)) 1 [7] (account_state_map toy_sha)))"

lemma saved_entries: "map fst (collect_dirty_nodes toy_sha (update_hashes toy_sha (sm_root saved) (\<lambda>_. True))) = [516, 37]"
  by code_simp

lemma toy_nonzero: "nonzero_hashes toy_sha (account_state toy_sha) j d [1 \<mapsto> [7]]"
proof (cases j)
  case (Suc i)
  have "part d b [1 \<mapsto> [7]] = (if b = select_branch 1 d then [1 \<mapsto> [7]] else Map.empty)" for b by (auto simp: part_def restrict_map_def)
  moreover have "merkle toy_sha ctor (Suc i) d M = 516" for ctor M
    by (simp add: toy_sha_def length_concat comp_def INNER_NODE_PREFIX_def sum_list_triv)
  moreover have "leaf_hash (account_state toy_sha 1 [7]) = 37"
    by (simp add: leaf_hash_def account_state_def hash_account_state_def toy_sha_def LEAF_NODE_PREFIX_def Let_def)
  ultimately show ?thesis unfolding Suc nonzero_hashes.simps by (simp del: merkle.simps)
qed simp

text \<open>C21: Saving a map and loading it back from its root hash loses nothing: after a flush to the in-memory
  store the map loaded from the returned hash has that root hash and answers every lookup as the saved
  one, provided no two different nodes share a hash and no hash is zero.\<close>

theorem flush_reload_roundtrip:
  assumes "represents sha (Some (mem_fetch s)) M m" and "M \<noteq> Map.empty" and "nonzero_hashes sha (sm_ctor m) 64 0 M"
    and "no_clash (collect_dirty_nodes sha (update_hashes sha (sm_root m) unique)) (mem_fetch s)" and "\<not> ms_poisoned s"
  shows "\<exists>m' s' h m''. flush mem_store_batch sha unique m (Some s) = (m', Some s', Inr h)
    \<and> from_root_hash h (sm_ctor m) (mem_fetch s') = Inr m'' \<and> snd (shm_root_hash sha unique' m'') = h
    \<and> (\<forall>k. shm_get (Some (mem_fetch s')) m'' k = shm_get (Some (mem_fetch s)) m k)"
proof -
  have "snd (mem_store_batch entries s) = Inr ()" for entries using assms(5) by (simp add: mem_store_batch_def)
  from ms.flush_reload [OF assms(1-4) this]
  obtain m' s' m'' where "flush mem_store_batch sha unique m (Some s) = (m', Some s', Inr (root_digest sha (sm_ctor m) M))"
    "from_root_hash (root_digest sha (sm_ctor m) M) (sm_ctor m) (mem_fetch s') = Inr m''"
    "represents sha (Some (mem_fetch s')) M m''" "sm_ctor m'' = sm_ctor m" by blast
  then show ?thesis using represents_root_hash [of sha _ M m'' unique'] represents_get [of sha _ M m''] represents_get [OF assms(1)] by metis
qed

theorem flush_reload_roundtrip_witness:
  "\<exists>m' s' h m''. flush mem_store_batch toy_sha (\<lambda>_. True) saved (Some mem_new) = (m', Some s', Inr h)
    \<and> from_root_hash h (account_state toy_sha) (mem_fetch s') = Inr m'' \<and> shm_get (Some (mem_fetch s')) m'' 1 = Some (Some [7])"
proof -
  have kind: "account_state toy_sha \<in> leaf_kinds toy_sha" by (simp add: leaf_kinds_def)
  have "\<exists>m'. shm_step toy_sha (Some (mem_fetch mem_new)) (PutOp 1 [7]) (account_state_map toy_sha) = Some (m', Inr None)
      \<and> represents toy_sha (Some (mem_fetch mem_new)) [1 \<mapsto> [7]] m' \<and> sm_ctor m' = account_state toy_sha"
    using shm_step_represents [OF represents_shamap_new [OF kind], of "Some (mem_fetch mem_new)" "PutOp 1 [7]"]
    by (auto simp: account_state_map_def shamap_new_def)
  then have r: "represents toy_sha (Some (mem_fetch mem_new)) [1 \<mapsto> [7]] saved" "sm_ctor saved = account_state toy_sha"
    by (auto simp: saved_def no_data_def)
  let ?es = "collect_dirty_nodes toy_sha (update_hashes toy_sha (sm_root saved) (\<lambda>_. True))"
  have "distinct (map fst ?es)" unfolding saved_entries by simp
  then have "no_clash ?es (mem_fetch mem_new)" by (auto simp: no_clash_def mem_fetch_def mem_new_def dest: eq_key_imp_eq_value)
  then show ?thesis
    using flush_reload_roundtrip [OF r(1), where unique = "\<lambda>_. True" and unique' = "\<lambda>_. True"] toy_nonzero represents_get [OF r(1), of 1] r(2)
    by (auto simp: mem_new_def)
qed

end
