(* ===== verification/Shamap_Walk.thy ===== *)
theory Shamap_Walk
  imports Shamap_Properties
begin

text \<open>
  Walking a tree: \<open>for_each\<close>, the two leaf iterators of \<^verbatim>\<open>crates/shamap/src/iterator.rs\<close> and \<open>succ\<close>.
  A recursive walk is given the 64
  levels a tree can have and is \<open>None\<close> beyond them; the iterators are loops over an explicit stack.
\<close>

subsection \<open>Recursive visits\<close>

primrec visit :: "nat \<Rightarrow> node_fetch option \<Rightarrow> leaf_ctor \<Rightarrow> inner_node \<Rightarrow> (hash256 \<times> bytes) list option" where
  "visit 0 store ctor n = None"
| "visit (Suc fuel) store ctor n =
     map_option concat (those (map (\<lambda>branch.
       case child_with_store n branch store ctor of
         Inr (Some (Leaf l)) \<Rightarrow> Some [(leaf_key l, leaf_bytes l)]
       | Inr (Some (Inner i)) \<Rightarrow> visit fuel store ctor i
       | _ \<Rightarrow> Some []) (mask_branches (in_branch n))))"

definition for_each :: "node_fetch option \<Rightarrow> shamap \<Rightarrow> (hash256 \<times> bytes) list option" where
  "for_each store m =
     (case sm_root m of Inner n \<Rightarrow> visit 64 store (sm_ctor m) n | Leaf l \<Rightarrow> Some [(leaf_key l, leaf_bytes l)])"

subsection \<open>Iterators\<close>

function skip_empty :: "inner_node \<Rightarrow> nat \<Rightarrow> nat" where
  "skip_empty n b = (if b < 16 \<and> is_empty_branch n b then skip_empty n (b + 1) else b)"
  by pat_completeness auto
termination by (relation "measure (\<lambda>(_, b). 16 - b)") auto

declare skip_empty.simps [simp del]

text \<open>The entries an iterator yields until its stack is empty. An iteration that never ends is \<open>None\<close>.\<close>

partial_function (option) iter_items :: "node_fetch option \<Rightarrow> leaf_ctor \<Rightarrow> (shamap_node \<times> nat) list \<Rightarrow> (hash256 \<times> bytes) list option" where
  "iter_items store ctor stack =
     (case stack of [] \<Rightarrow> Some []
      | (Leaf l, _) # stack \<Rightarrow> Option.bind (iter_items store ctor stack) (\<lambda>items. Some ((leaf_key l, leaf_bytes l) # items))
      | (Inner n, branch) # stack \<Rightarrow>
          (let b = skip_empty n branch in
           if 16 \<le> b then iter_items store ctor stack
           else (case child_with_store n b store ctor of
               Inr (Some c) \<Rightarrow> iter_items store ctor ((c, 0) # (Inner n, b + 1) # stack)
             | _ \<Rightarrow> iter_items store ctor ((Inner n, b + 1) # stack))))"

definition shm_iter :: "node_fetch option \<Rightarrow> shamap \<Rightarrow> (hash256 \<times> bytes) list option" where
  "shm_iter store m = iter_items store (sm_ctor m) [(sm_root m, 0)]"

partial_function (option) iter_ref_items :: "node_fetch option \<Rightarrow> leaf_ctor \<Rightarrow> (inner_node \<times> nat) list \<Rightarrow> (hash256 \<times> bytes) list option" where
  "iter_ref_items store ctor stack =
     (case stack of [] \<Rightarrow> Some []
      | (n, branch) # stack \<Rightarrow>
          (let b = skip_empty n branch in
           if 16 \<le> b then iter_ref_items store ctor stack
           else (case child_with_store n b store ctor of
               Inr (Some (Leaf l)) \<Rightarrow>
                 Option.bind (iter_ref_items store ctor ((n, b + 1) # stack)) (\<lambda>items. Some ((leaf_key l, leaf_bytes l) # items))
             | Inr (Some (Inner i)) \<Rightarrow> iter_ref_items store ctor ((i, 0) # (n, b + 1) # stack)
             | _ \<Rightarrow> iter_ref_items store ctor ((n, b + 1) # stack))))"

definition shm_iter_ref :: "node_fetch option \<Rightarrow> shamap \<Rightarrow> (hash256 \<times> bytes) list option" where
  "shm_iter_ref store m = iter_ref_items store (sm_ctor m) (case sm_root m of Inner n \<Rightarrow> [(n, 0)] | Leaf _ \<Rightarrow> [])"

definition shm_succ :: "node_fetch option \<Rightarrow> shamap \<Rightarrow> hash256 \<Rightarrow> hash256 option option" where
  "shm_succ store m key = map_option (\<lambda>items. List.find (\<lambda>k. key < k) (map fst items)) (shm_iter store m)"

subsection \<open>Nibbles order the keys\<close>

lemma unat_hash_byte: "unat (hash_byte h i) = unat h div 2 ^ (8 * (31 - i)) mod 256"
  unfolding hash_byte_def unsigned_ucast_eq unsigned_drop_bit_eq
  using unsigned_less [of h, where 'a = nat] by (simp add: take_bit_eq_mod drop_bit_eq_div)

lemma unat_high_nibble: "unat (drop_bit 4 x) = unat x div 16" for x :: byte
proof -
  have "unat (drop_bit 4 x) = drop_bit 4 (unat x)" by (rule unat_drop_bit_eq)
  then show ?thesis by (simp add: drop_bit_eq_div)
qed

lemma unat_low_nibble: "unat (x AND 15) = unat x mod 16" for x :: byte
proof -
  have "x AND 15 = take_bit 4 x" by (simp add: take_bit_eq_mask mask_eq_exp_minus_1)
  then have "unat (x AND 15) = take_bit 4 (unat x)" by (simp only: unsigned_take_bit_eq)
  then show ?thesis by (simp add: take_bit_eq_mod)
qed

lemma select_branch_digit:
  assumes "d < 64"
  shows "select_branch h d = unat h div 16 ^ (63 - d) mod 16"
proof -
  let ?x = "unat h div 2 ^ (8 * (31 - d div 2))"
  have m: "min (d div 2) 31 = d div 2" using assms by simp
  have pow: "(16 :: nat) ^ e = 2 ^ (4 * e)" for e by (simp add: power_mult)
  show ?thesis
  proof (cases "even d")
    case True
    then obtain i where i: "d = 2 * i" by blast
    have "select_branch h d = unat (hash_byte h (d div 2)) div 16"
      using True by (simp only: select_branch_def m Let_def if_True unat_high_nibble)
    also have "\<dots> = ?x mod 256 div 16" by (simp only: unat_hash_byte)
    also have "\<dots> = ?x div 16 mod 16" using div_mult2_eq [of ?x 16 16] by (simp add: mod_mult2_eq [of ?x 16 16, simplified])
    also have "?x div 16 = unat h div 2 ^ (8 * (31 - d div 2) + 4)" by (simp add: div_mult2_eq power_add)
    also have "8 * (31 - d div 2) + 4 = 4 * (63 - d)" using assms by (simp add: i)
    finally show ?thesis by (simp only: pow)
  next
    case False
    then obtain i where i: "d = 2 * i + 1" by (elim oddE)
    have "select_branch h d = unat (hash_byte h (d div 2) AND 15)" using False by (simp only: select_branch_def m Let_def if_False)
    also have "\<dots> = unat (hash_byte h (d div 2)) mod 16" by (rule unat_low_nibble)
    also have "\<dots> = ?x mod 256 mod 16" by (simp only: unat_hash_byte)
    also have "\<dots> = ?x mod 16" by (simp add: mod_mod_cancel)
    also have "8 * (31 - d div 2) = 4 * (63 - d)" using assms by (simp add: i)
    finally show ?thesis by (simp only: pow)
  qed
qed

lemma digits_less:
  assumes "\<And>i. i < d \<Longrightarrow> select_branch k i = select_branch k' i" and "d < 64" and "select_branch k d < select_branch k' d"
  shows "k < k'"
proof -
  have step: "unat h div 16 ^ (64 - Suc i) = 16 * (unat h div 16 ^ (64 - i)) + select_branch h i" if "i < 64" for h i
  proof -
    have "64 - i = Suc (63 - i)" using that by simp
    then have "unat h div 16 ^ (64 - i) = unat h div 16 ^ (63 - i) div 16" by (simp add: div_mult2_eq [symmetric] mult.commute)
    then show ?thesis using select_branch_digit [OF that, of h] by simp
  qed
  have "unat k div 16 ^ (64 - i) = unat k' div 16 ^ (64 - i)" if "i \<le> d" for i
    using that
  proof (induction i)
    case 0
    then show ?case using unsigned_less [of k, where 'a = nat] unsigned_less [of k', where 'a = nat] by simp
  next
    case (Suc i)
    then show ?case using step [of i k] step [of i k'] assms(1) [of i] assms(2) by simp
  qed
  then have "unat k div 16 ^ (63 - d) < unat k' div 16 ^ (63 - d)" using step [of d k] step [of d k'] assms(2,3) by simp
  then have "unat k < unat k'" by (metis div_le_mono leD leI)
  then show ?thesis by (simp add: word_less_nat_alt)
qed

subsection \<open>A walk yields the entries in ascending order\<close>

definition lists :: "(hash256 \<times> bytes) list \<Rightarrow> contents \<Rightarrow> bool" where
  "lists xs M \<longleftrightarrow> sorted_wrt (<) (map fst xs) \<and> map_of xs = M"

lemma lists_keys: "lists xs M \<Longrightarrow> set (map fst xs) = dom M"
  unfolding lists_def by (metis dom_map_of_conv_image_fst set_map)

lemma concat_lists:
  assumes "\<And>b. b < 16 \<Longrightarrow> lists (ys b) (part d b M)" and "common_prefix d M" and "d < 64" and "m \<le> 16"
  shows "lists (concat (map ys [0..<m])) (M |` {k. select_branch k d < m})"
  using assms(4)
proof (induction m)
  case 0
  then show ?case by (auto simp: lists_def restrict_map_def)
next
  case (Suc m)
  let ?xs = "concat (map ys [0..<m])"
  have xs: "lists ?xs (M |` {k. select_branch k d < m})" and ys: "lists (ys m) (part d m M)" using Suc assms(1) [of m] by simp_all
  have "k < k'" if "k \<in> set (map fst ?xs)" "k' \<in> set (map fst (ys m))" for k k'
  proof (rule digits_less [OF _ assms(3)])
    have k: "k \<in> dom M" "select_branch k d < m" and k': "k' \<in> dom M" "select_branch k' d = m"
      using that unfolding lists_keys [OF xs] lists_keys [OF ys] part_def by simp_all
    show "select_branch k i = select_branch k' i" if "i < d" for i using assms(2) k(1) k'(1) that unfolding common_prefix_def by blast
    show "select_branch k d < select_branch k' d" using k(2) k'(2) by simp
  qed
  then have "sorted_wrt (<) (map fst (?xs @ ys m))" using xs ys by (simp add: lists_def sorted_wrt_append)
  moreover have "part d m M ++ M |` {k. select_branch k d < m} = M |` {k. select_branch k d < Suc m}"
  proof
    fix k
    show "(part d m M ++ M |` {k. select_branch k d < m}) k = (M |` {k. select_branch k d < Suc m}) k"
      by (cases "select_branch k d" m rule: linorder_cases) (simp_all add: part_def restrict_map_def map_add_def split: option.split)
  qed
  then have "map_of (?xs @ ys m) = M |` {k. select_branch k d < Suc m}" using xs ys by (simp add: lists_def)
  ultimately show ?case by (simp add: lists_def)
qed

lemma concat_lists_16:
  assumes "\<And>b. b < 16 \<Longrightarrow> lists (ys b) (part d b M)" and "common_prefix d M" and "d < 64"
  shows "lists (concat (map ys [0..<16])) M"
proof -
  have "M |` {k. select_branch k d < 16} = M" using select_branch_16 by (auto simp: restrict_map_def)
  then show ?thesis using concat_lists [OF assms order.refl] by simp
qed

lemma lists_part:
  assumes "holds sha store ctor (Suc j) d M n" and "b < 16" and "ctor \<in> leaf_kinds sha"
    and "\<And>i P. holds sha store ctor j (Suc d) P i \<Longrightarrow> common_prefix (Suc d) P \<Longrightarrow> \<exists>xs. f i = Some xs \<and> lists xs P" and "common_prefix d M"
  shows "\<exists>xs. (case child_with_store n b store ctor of
         Inr (Some (Leaf l)) \<Rightarrow> Some [(leaf_key l, leaf_bytes l)] | Inr (Some (Inner i)) \<Rightarrow> f i | _ \<Rightarrow> Some []) = Some xs \<and> lists xs (part d b M)"
proof (cases "part d b M = Map.empty")
  case True
  then have "child_with_store n b store ctor = Inr None" using holds_empty_branch [OF assms(1,2)] by (simp add: child_with_store_def)
  then show ?thesis using True by (simp add: lists_def)
next
  case False
  then obtain node where node: "child_with_store n b store ctor = Inr (Some node)"
    "node_ok ctor (holds sha store ctor j (Suc d)) (part d b M) node" using child_with_store_holds [OF assms(1,2)] by blast
  from node(2) show ?thesis
  proof (cases rule: node_okE)
    case (Leaf k v)
    then show ?thesis using node(1) assms(3) by (simp add: lists_def)
  next
    case (Inner i)
    then show ?thesis using node(1) assms(4) [OF Inner(4) common_prefix_part [OF assms(5)]] by simp
  qed
qed

lemma concat_map_filter_Nil: "(\<And>x. x \<in> set xs \<Longrightarrow> \<not> P x \<Longrightarrow> f x = []) \<Longrightarrow> concat (map f (filter P xs)) = concat (map f xs)"
  by (induction xs) auto

lemma visit_holds:
  assumes "holds sha store ctor j d M n" and "d + j = 64" and "common_prefix d M" and "j \<le> fuel" and "ctor \<in> leaf_kinds sha"
  shows "\<exists>xs. visit fuel store ctor n = Some xs \<and> lists xs M"
  using assms(1-4)
proof (induction j arbitrary: d M n fuel)
  case (Suc j)
  obtain f where f: "fuel = Suc f" "j \<le> f" using Suc.prems(4) by (cases fuel) auto
  let ?f = "\<lambda>b. case child_with_store n b store ctor of
         Inr (Some (Leaf l)) \<Rightarrow> Some [(leaf_key l, leaf_bytes l)] | Inr (Some (Inner i)) \<Rightarrow> visit f store ctor i | _ \<Rightarrow> Some []"
  have "\<exists>xs. ?f b = Some xs \<and> lists xs (part d b M)" if "b < 16" for b
  proof (rule lists_part [OF Suc.prems(1) that assms(5) _ Suc.prems(3)])
    fix i P assume "holds sha store ctor j (Suc d) P i" "common_prefix (Suc d) P"
    then show "\<exists>xs. visit f store ctor i = Some xs \<and> lists xs P" using Suc.IH [of "Suc d" P i f] Suc.prems(2) f(2) by simp
  qed
  then have "\<forall>b\<in>{..<16}. \<exists>xs. ?f b = Some xs \<and> lists xs (part d b M)" by blast
  from bchoice [OF this] obtain ys where ys: "\<And>b. b < 16 \<Longrightarrow> ?f b = Some (ys b)" "\<And>b. b < 16 \<Longrightarrow> lists (ys b) (part d b M)" by blast
  have "map ?f (mask_branches (in_branch n)) = map (\<lambda>b. Some (ys b)) (mask_branches (in_branch n))"
    by (rule map_cong) (auto simp: mask_branches_filter ys(1))
  then have "visit fuel store ctor n = Some (concat (map ys (mask_branches (in_branch n))))"
    unfolding f(1) by (simp only: visit.simps(2) those_map_Some option.map(2))
  also have "concat (map ys (mask_branches (in_branch n))) = concat (map ys [0..<16])"
    unfolding mask_branches_filter
  proof (rule concat_map_filter_Nil)
    fix b assume "b \<in> set [0..<16]" "\<not> bit (in_branch n) b"
    then have "b < 16" "part d b M = Map.empty" using holds_bit [OF Suc.prems(1), of b] by auto
    then show "ys b = []" using ys(2) [of b] by (auto simp: lists_def)
  qed
  finally show ?case using concat_lists_16 [OF ys(2) Suc.prems(3)] Suc.prems(2) by auto
qed simp

lemma lists_unique:
  assumes "lists xs M" and "lists ys M"
  shows "xs = ys"
proof -
  have eq: "zs = map (\<lambda>k. (k, the (M k))) (map fst zs)" if "lists zs M" for zs
  proof -
    have M: "map_of zs = M" and "distinct (map fst zs)" using that unfolding lists_def strict_sorted_iff by blast+
    then have "M (fst p) = Some (snd p)" if "p \<in> set zs" for p using that map_of_is_SomeI [of zs "fst p" "snd p"] by simp
    then show ?thesis by (intro nth_equalityI) simp_all
  qed
  have "map fst xs = map fst ys"
  proof (rule strict_sorted_equal)
    show "set (map fst xs) = set (map fst ys)" unfolding lists_keys [OF assms(1)] lists_keys [OF assms(2)] ..
  qed (use assms in \<open>simp_all add: lists_def\<close>)
  then show ?thesis using eq [OF assms(1)] eq [OF assms(2)] by (simp only:)
qed

text \<open>How both iterators work through a node: a branch yields the entries below it, then the next one.\<close>

abbreviation yields :: "'a list option \<Rightarrow> 'a list \<Rightarrow> 'a list option \<Rightarrow> bool" where
  "yields r xs rest \<equiv> r = Option.bind rest (\<lambda>items. Some (xs @ items))"

lemma yields_append: "yields r xs s \<Longrightarrow> yields s ys t \<Longrightarrow> yields r (xs @ ys) t"
  by (cases t) simp_all

lemma skip_empty_cases:
  "16 \<le> b \<Longrightarrow> skip_empty n b = b"
  "b < 16 \<Longrightarrow> is_empty_branch n b \<Longrightarrow> skip_empty n b = skip_empty n (b + 1)"
  "\<not> is_empty_branch n b \<Longrightarrow> skip_empty n b = b"
  by (simp_all add: skip_empty.simps [of n b])

lemma child_not_empty: "child_with_store n b store ctor = Inr (Some c) \<Longrightarrow> \<not> is_empty_branch n b"
  by (auto simp: child_with_store_def)

lemma iter_branch_steps:
  "iter_items store ctor ((Inner n, 16) # st) = iter_items store ctor st"
  "b < 16 \<Longrightarrow> is_empty_branch n b \<Longrightarrow> iter_items store ctor ((Inner n, b) # st) = iter_items store ctor ((Inner n, b + 1) # st)"
  "b < 16 \<Longrightarrow> child_with_store n b store ctor = Inr (Some c) \<Longrightarrow>
     iter_items store ctor ((Inner n, b) # st) = iter_items store ctor ((c, 0) # (Inner n, b + 1) # st)"
  "yields (iter_items store ctor ((Leaf l, b) # st)) [(leaf_key l, leaf_bytes l)] (iter_items store ctor st)"
  "iter_items store ctor [] = Some []"
proof -
  show "iter_items store ctor ((Inner n, 16) # st) = iter_items store ctor st" by (subst iter_items.simps) (simp add: skip_empty_cases)
  show "iter_items store ctor ((Inner n, b) # st) = iter_items store ctor ((Inner n, b + 1) # st)" if "b < 16" "is_empty_branch n b"
    unfolding iter_items.simps [of store ctor "(Inner n, b) # st"] iter_items.simps [of store ctor "(Inner n, b + 1) # st"]
    using skip_empty_cases(2) [OF that] by simp
  show "iter_items store ctor ((Inner n, b) # st) = iter_items store ctor ((c, 0) # (Inner n, b + 1) # st)"
    if "b < 16" "child_with_store n b store ctor = Inr (Some c)"
    using that skip_empty_cases(3) [OF child_not_empty [OF that(2)]] by (subst iter_items.simps) simp
  show "yields (iter_items store ctor ((Leaf l, b) # st)) [(leaf_key l, leaf_bytes l)] (iter_items store ctor st)"
    by (subst iter_items.simps) simp
  show "iter_items store ctor [] = Some []" by (subst iter_items.simps) simp
qed

lemma iter_ref_branch_steps:
  "iter_ref_items store ctor ((n, 16) # st) = iter_ref_items store ctor st"
  "b < 16 \<Longrightarrow> is_empty_branch n b \<Longrightarrow> iter_ref_items store ctor ((n, b) # st) = iter_ref_items store ctor ((n, b + 1) # st)"
  "b < 16 \<Longrightarrow> child_with_store n b store ctor = Inr (Some (Inner i)) \<Longrightarrow>
     iter_ref_items store ctor ((n, b) # st) = iter_ref_items store ctor ((i, 0) # (n, b + 1) # st)"
  "b < 16 \<Longrightarrow> child_with_store n b store ctor = Inr (Some (Leaf l)) \<Longrightarrow>
     yields (iter_ref_items store ctor ((n, b) # st)) [(leaf_key l, leaf_bytes l)] (iter_ref_items store ctor ((n, b + 1) # st))"
  "iter_ref_items store ctor [] = Some []"
proof -
  show "iter_ref_items store ctor ((n, 16) # st) = iter_ref_items store ctor st" by (subst iter_ref_items.simps) (simp add: skip_empty_cases)
  show "iter_ref_items store ctor ((n, b) # st) = iter_ref_items store ctor ((n, b + 1) # st)" if "b < 16" "is_empty_branch n b"
    unfolding iter_ref_items.simps [of store ctor "(n, b) # st"] iter_ref_items.simps [of store ctor "(n, b + 1) # st"]
    using skip_empty_cases(2) [OF that] by simp
  show "iter_ref_items store ctor ((n, b) # st) = iter_ref_items store ctor ((i, 0) # (n, b + 1) # st)"
    if "b < 16" "child_with_store n b store ctor = Inr (Some (Inner i))"
    using that skip_empty_cases(3) [OF child_not_empty [OF that(2)]] by (subst iter_ref_items.simps) simp
  show "yields (iter_ref_items store ctor ((n, b) # st)) [(leaf_key l, leaf_bytes l)] (iter_ref_items store ctor ((n, b + 1) # st))"
    if "b < 16" "child_with_store n b store ctor = Inr (Some (Leaf l))"
    using that skip_empty_cases(3) [OF child_not_empty [OF that(2)]] by (subst iter_ref_items.simps) simp
  show "iter_ref_items store ctor [] = Some []" by (subst iter_ref_items.simps) simp
qed

lemma branches_yield:
  assumes "\<And>b st. b < 16 \<Longrightarrow> yields (next b st) (ys b) (next (b + 1) st)" and "\<And>st. next 16 st = rest st" and "b \<le> 16"
  shows "yields (next b st) (concat (map ys [b..<16])) (rest st)"
  using assms(3)
proof (induction rule: inc_induct)
  case base
  then show ?case using assms(2) by (cases "rest st") simp_all
next
  case (step b)
  then show ?case using yields_append [OF assms(1) [OF step(2)]] by (simp add: upt_conv_Cons)
qed

text \<open>A traversal \<open>enter\<close> of inner nodes that steps through the branches of a node yields what it holds.\<close>

locale leaf_iterator =
  fixes store :: "node_fetch option" and ctor :: leaf_ctor
    and enter :: "inner_node \<Rightarrow> nat \<Rightarrow> 'st \<Rightarrow> (hash256 \<times> bytes) list option" and rest :: "'st \<Rightarrow> (hash256 \<times> bytes) list option"
    and push :: "inner_node \<Rightarrow> nat \<Rightarrow> 'st \<Rightarrow> 'st"
  assumes enter_end: "enter n 16 st = rest st"
    and enter_empty: "b < 16 \<Longrightarrow> is_empty_branch n b \<Longrightarrow> enter n b st = enter n (b + 1) st"
    and enter_leaf: "b < 16 \<Longrightarrow> child_with_store n b store ctor = Inr (Some (Leaf l)) \<Longrightarrow>
      yields (enter n b st) [(leaf_key l, leaf_bytes l)] (enter n (b + 1) st)"
    and enter_inner: "b < 16 \<Longrightarrow> child_with_store n b store ctor = Inr (Some (Inner i)) \<Longrightarrow> enter n b st = enter i 0 (push n (b + 1) st)"
    and rest_push: "rest (push n b st) = enter n b st"
begin

lemma enter_holds:
  assumes "holds sha store ctor j d M n" and "d + j = 64" and "common_prefix d M" and kinds: "ctor \<in> leaf_kinds sha"
  shows "\<exists>xs. lists xs M \<and> (\<forall>st. yields (enter n 0 st) xs (rest st))"
  using assms(1-3)
proof (induction j arbitrary: d M n)
  case (Suc j)
  have "\<exists>xs. lists xs (part d b M) \<and> (\<forall>st. yields (enter n b st) xs (enter n (b + 1) st))" if b: "b < 16" for b
  proof (cases "part d b M = Map.empty")
    case True
    then have "enter n b st = enter n (b + 1) st" for st using enter_empty [OF b] holds_empty_branch [OF Suc.prems(1) b] by blast
    then have "\<forall>st. yields (enter n b st) [] (enter n (b + 1) st)" by simp
    moreover have "lists [] (part d b M)" by (simp add: lists_def True)
    ultimately show ?thesis by blast
  next
    case False
    then obtain node where node: "child_with_store n b store ctor = Inr (Some node)"
      "node_ok ctor (holds sha store ctor j (Suc d)) (part d b M) node" using child_with_store_holds [OF Suc.prems(1) b] by blast
    from node(2) show ?thesis
    proof (cases rule: node_okE)
      case (Leaf k v)
      then have "yields (enter n b st) [(leaf_key (ctor k v), leaf_bytes (ctor k v))] (enter n (b + 1) st)" for st
        using enter_leaf [OF b, of n "ctor k v"] node(1) by blast
      moreover have "lists [(leaf_key (ctor k v), leaf_bytes (ctor k v))] (part d b M)" using kinds by (simp add: lists_def Leaf(2))
      ultimately show ?thesis by blast
    next
      case (Inner i)
      have "Suc d + j = 64" using Suc.prems(2) by simp
      from Suc.IH [OF Inner(4) this common_prefix_part [OF Suc.prems(3)]]
      obtain xs where xs: "lists xs (part d b M)" "\<And>st. yields (enter i 0 st) xs (rest st)" by blast
      have "yields (enter n b st) xs (enter n (b + 1) st)" for st
        using xs(2) [of "push n (b + 1) st"] enter_inner [OF b, of n i st] node(1) unfolding Inner(1) rest_push by simp
      then show ?thesis using xs(1) by blast
    qed
  qed
  then have "\<forall>b\<in>{..<16}. \<exists>xs. lists xs (part d b M) \<and> (\<forall>st. yields (enter n b st) xs (enter n (b + 1) st))" by blast
  from bchoice [OF this] obtain ys where ys: "\<And>b. b < 16 \<Longrightarrow> lists (ys b) (part d b M)"
    "\<And>b st. b < 16 \<Longrightarrow> yields (enter n b st) (ys b) (enter n (b + 1) st)" by blast
  have "yields (enter n 0 st) (concat (map ys [0..<16])) (rest st)" for st
    by (rule branches_yield [of "enter n" ys]) (auto simp: ys(2) enter_end)
  moreover have "lists (concat (map ys [0..<16])) M" using Suc.prems(2,3) by (intro concat_lists_16 [OF ys(1)]) simp_all
  ultimately show ?case by blast
qed simp

end

interpretation it: leaf_iterator store ctor "\<lambda>n b st. iter_items store ctor ((Inner n, b) # st)" "iter_items store ctor" "\<lambda>n b st. (Inner n, b) # st"
  for store ctor
  by unfold_locales (simp_all add: iter_branch_steps)

interpretation it_ref: leaf_iterator store ctor "\<lambda>n b st. iter_ref_items store ctor ((n, b) # st)" "iter_ref_items store ctor" "\<lambda>n b st. (n, b) # st"
  for store ctor
  by unfold_locales (simp_all add: iter_ref_branch_steps)

lemma represents_walks:
  assumes "represents sha store M m"
  shows "\<exists>xs. lists xs M \<and> for_each store m = Some xs \<and> shm_iter store m = Some xs \<and> shm_iter_ref store m = Some xs"
proof -
  obtain n where n: "sm_root m = Inner n" "holds sha store (sm_ctor m) 64 0 M n" "sm_ctor m \<in> leaf_kinds sha"
    using assms by (auto simp: represents_def)
  have c: "common_prefix 0 M" by (simp add: common_prefix_def)
  obtain xs where xs: "visit 64 store (sm_ctor m) n = Some xs" "lists xs M" using visit_holds [OF n(2) _ c _ n(3), of 64] by auto
  obtain ys where ys: "lists ys M" "\<And>st. yields (iter_items store (sm_ctor m) ((Inner n, 0) # st)) ys (iter_items store (sm_ctor m) st)"
    using it.enter_holds [OF n(2) _ c n(3)] by auto
  obtain zs where zs: "lists zs M" "\<And>st. yields (iter_ref_items store (sm_ctor m) ((n, 0) # st)) zs (iter_ref_items store (sm_ctor m) st)"
    using it_ref.enter_holds [OF n(2) _ c n(3)] by auto
  have "ys = xs" "zs = xs" using lists_unique xs(2) ys(1) zs(1) by blast+
  then show ?thesis using xs ys(2) [of "[]"] zs(2) [of "[]"] n(1) iter_branch_steps(5) iter_ref_branch_steps(5)
    by (auto simp: for_each_def shm_iter_def shm_iter_ref_def)
qed

lemma find_first_greater:
  "sorted_wrt (<) ks \<Longrightarrow> List.find (\<lambda>k. key < k) ks = None \<longleftrightarrow> (\<forall>k\<in>set ks. k \<le> key)"
  "sorted_wrt (<) ks \<Longrightarrow> List.find (\<lambda>k. key < k) ks = Some k \<longleftrightarrow> k \<in> set ks \<and> key < k \<and> (\<forall>k'\<in>set ks. key < k' \<longrightarrow> k \<le> k')"
  for key :: hash256
  by (induction ks) (auto simp: not_less)

text \<open>C22: Walking a map, by callback or by either iterator, always ends and yields every entry exactly once,
  in ascending order of the keys, and \<open>succ\<close> finds the least key above a given one.\<close>

theorem walks_are_sorted_and_complete:
  assumes "represents sha store M m"
  shows "\<exists>xs. for_each store m = Some xs \<and> shm_iter store m = Some xs \<and> shm_iter_ref store m = Some xs
    \<and> sorted_wrt (<) (map fst xs) \<and> (\<forall>k v. (k, v) \<in> set xs \<longleftrightarrow> shm_get store m k = Some (Some v))
    \<and> (\<forall>key. \<exists>r. shm_succ store m key = Some r \<and>
         (case r of None \<Rightarrow> \<forall>k\<in>dom M. k \<le> key | Some k \<Rightarrow> k \<in> dom M \<and> key < k \<and> (\<forall>k'\<in>dom M. key < k' \<longrightarrow> k \<le> k')))"
proof -
  obtain xs where xs: "lists xs M" "for_each store m = Some xs" "shm_iter store m = Some xs" "shm_iter_ref store m = Some xs"
    using represents_walks [OF assms] by blast
  have s: "sorted_wrt (<) (map fst xs)" and M: "map_of xs = M" using xs(1) by (simp_all add: lists_def)
  have "distinct (map fst xs)" using s by (simp add: strict_sorted_iff)
  then have "(k, v) \<in> set xs \<longleftrightarrow> shm_get store m k = Some (Some v)" for k v
    using represents_get [OF assms, of k] M map_of_eq_Some_iff [of xs k v] by auto
  moreover have "case List.find (\<lambda>k. key < k) (map fst xs) of None \<Rightarrow> \<forall>k\<in>dom M. k \<le> key
      | Some k \<Rightarrow> k \<in> dom M \<and> key < k \<and> (\<forall>k'\<in>dom M. key < k' \<longrightarrow> k \<le> k')" for key
  proof (cases "List.find (\<lambda>k. key < k) (map fst xs)")
    case None
    then show ?thesis using find_first_greater(1) [OF s, of key] unfolding lists_keys [OF xs(1)] by simp
  next
    case (Some a)
    then show ?thesis using find_first_greater(2) [OF s, of key a] unfolding lists_keys [OF xs(1)] by simp
  qed
  ultimately show ?thesis using xs s by (simp add: shm_succ_def)
qed

theorem walks_are_sorted_and_complete_witness:
  "\<exists>m xs. shm_run toy_sha None [PutOp 2 [8], PutOp 1 [7]] (account_state_map toy_sha) = Some (m, [Inr None, Inr None])
    \<and> for_each None m = Some xs \<and> shm_iter None m = Some xs \<and> sorted_wrt (<) (map fst xs) \<and> (1, [7]) \<in> set xs \<and> (2, [8]) \<in> set xs"
proof -
  obtain m where m: "represents toy_sha None [2 \<mapsto> [8], 1 \<mapsto> [7]] m"
    "shm_run toy_sha None [PutOp 2 [8], PutOp 1 [7]] (account_state_map toy_sha) = Some (m, [Inr None, Inr None])"
    using shm_run_new [of "account_state toy_sha" toy_sha None "[PutOp 2 [8], PutOp 1 [7]]"]
    by (auto simp: leaf_kinds_def account_state_map_def Let_def)
  obtain xs where xs: "for_each None m = Some xs" "shm_iter None m = Some xs" "sorted_wrt (<) (map fst xs)"
    "\<forall>k v. (k, v) \<in> set xs \<longleftrightarrow> shm_get None m k = Some (Some v)"
    using walks_are_sorted_and_complete [OF m(1)] by blast
  have "(1, [7]) \<in> set xs" "(2, [8]) \<in> set xs" using xs(4) represents_get [OF m(1)] by simp_all
  then show ?thesis using m(2) xs(1-3) by blast
qed

end
