(* ===== verification/Shamap_Diff.thy ===== *)
theory Shamap_Diff
  imports Shamap_Walk
begin

text \<open>
  Comparing two trees: \<open>find_difference\<close> of \<^verbatim>\<open>crates/shamap/src/shamap.rs\<close>, which walks two trees side by
  side and skips every pair of subtrees with the same hash. The walk is given the 64 levels a tree can
  have. It reports every key whose entry differs, but also keys whose entry is the same: when a branch
  holds a single leaf in one tree and more in the other, the leaf is reported removed and added.
\<close>

datatype diff_entry = Added hash256 | Removed hash256 | Modified hash256

primrec collect_all_leaves_inner :: "nat \<Rightarrow> node_fetch option \<Rightarrow> leaf_ctor \<Rightarrow> bool \<Rightarrow> inner_node \<Rightarrow> diff_entry list option" where
  "collect_all_leaves_inner 0 store ctor added n = None"
| "collect_all_leaves_inner (Suc fuel) store ctor added n =
     map_option concat (those (map (\<lambda>branch.
       case child_with_store n branch store ctor of
         Inr (Some (Leaf l)) \<Rightarrow> Some [if added then Added (leaf_key l) else Removed (leaf_key l)]
       | Inr (Some (Inner i)) \<Rightarrow> collect_all_leaves_inner fuel store ctor added i
       | _ \<Rightarrow> Some []) (mask_branches (in_branch n))))"

fun collect_all_leaves :: "nat \<Rightarrow> node_fetch option \<Rightarrow> leaf_ctor \<Rightarrow> bool \<Rightarrow> shamap_node \<Rightarrow> diff_entry list option" where
  "collect_all_leaves fuel store ctor added (Leaf l) = Some [if added then Added (leaf_key l) else Removed (leaf_key l)]"
| "collect_all_leaves fuel store ctor added (Inner n) = collect_all_leaves_inner fuel store ctor added n"

record diff_sides =
  old_store :: "node_fetch option"
  new_store :: "node_fetch option"
  old_ctor :: leaf_ctor
  new_ctor :: leaf_ctor

fun diff_nodes :: "(bytes \<Rightarrow> hash256) \<Rightarrow> diff_sides \<Rightarrow> (inner_node \<Rightarrow> inner_node \<Rightarrow> diff_entry list option) \<Rightarrow> shamap_node \<Rightarrow> shamap_node \<Rightarrow> diff_entry list option" where
  "diff_nodes sha sides diff_inner old new =
     (if sha_node_hash sha old = sha_node_hash sha new \<and> sha_node_hash sha old \<noteq> 0 then Some []
      else (case (old, new) of
          (Inner old, Inner new) \<Rightarrow> diff_inner old new
        | (Leaf old, Leaf new) \<Rightarrow>
            if leaf_key old = leaf_key new
            then Some (if leaf_bytes old \<noteq> leaf_bytes new then [Modified (leaf_key old)] else [])
            else Some [Removed (leaf_key old), Added (leaf_key new)]
        | (Leaf old, Inner new) \<Rightarrow>
            map_option (\<lambda>ds. Removed (leaf_key old) # ds) (collect_all_leaves_inner 64 (new_store sides) (new_ctor sides) True new)
        | (Inner old, Leaf new) \<Rightarrow>
            map_option (\<lambda>ds. ds @ [Added (leaf_key new)]) (collect_all_leaves_inner 64 (old_store sides) (old_ctor sides) False old)))"

definition loadable :: "inner_node \<Rightarrow> nat \<Rightarrow> node_fetch option \<Rightarrow> leaf_ctor \<Rightarrow> shamap_node option" where
  "loadable n branch store ctor = (case child_with_store n branch store ctor of Inr c \<Rightarrow> c | Inl _ \<Rightarrow> None)"

primrec diff_inner_nodes :: "nat \<Rightarrow> (bytes \<Rightarrow> hash256) \<Rightarrow> diff_sides \<Rightarrow> inner_node \<Rightarrow> inner_node \<Rightarrow> diff_entry list option" where
  "diff_inner_nodes 0 sha sides old new = None"
| "diff_inner_nodes (Suc fuel) sha sides old new =
     map_option concat (those (map (\<lambda>branch.
       case (loadable old branch (old_store sides) (old_ctor sides), loadable new branch (new_store sides) (new_ctor sides)) of
         (None, None) \<Rightarrow> Some []
       | (Some old_c, None) \<Rightarrow> collect_all_leaves 64 (old_store sides) (old_ctor sides) False old_c
       | (None, Some new_c) \<Rightarrow> collect_all_leaves 64 (new_store sides) (new_ctor sides) True new_c
       | (Some old_c, Some new_c) \<Rightarrow>
           if sha_node_hash sha old_c \<noteq> sha_node_hash sha new_c \<or> sha_node_hash sha old_c = 0
           then diff_nodes sha sides (diff_inner_nodes fuel sha sides) old_c new_c else Some []) [0..<16]))"

definition find_difference :: "(bytes \<Rightarrow> hash256) \<Rightarrow> node_fetch option \<Rightarrow> node_fetch option \<Rightarrow> shamap \<Rightarrow> shamap \<Rightarrow> diff_entry list option" where
  "find_difference sha store store' m m' =
     (let sides = \<lparr>old_store = store, new_store = store', old_ctor = sm_ctor m, new_ctor = sm_ctor m'\<rparr>
      in diff_nodes sha sides (diff_inner_nodes 64 sha sides) (sm_root m) (sm_root m'))"

subsection \<open>What has to be reported\<close>

definition leaf_tag :: "bool \<Rightarrow> hash256 \<Rightarrow> diff_entry" where
  "leaf_tag added k = (if added then Added k else Removed k)"

definition reported :: "diff_entry set \<Rightarrow> contents \<Rightarrow> contents \<Rightarrow> hash256 \<Rightarrow> bool" where
  "reported D P P' k \<longleftrightarrow> k \<in> dom P \<and> k \<in> dom P' \<and> Modified k \<in> D \<or> (k \<in> dom P \<longrightarrow> Removed k \<in> D) \<and> (k \<in> dom P' \<longrightarrow> Added k \<in> D)"

definition genuine :: "contents \<Rightarrow> contents \<Rightarrow> diff_entry \<Rightarrow> bool" where
  "genuine P P' e \<longleftrightarrow> (case e of Added k \<Rightarrow> k \<in> dom P' | Removed k \<Rightarrow> k \<in> dom P | Modified k \<Rightarrow> k \<in> dom P \<and> k \<in> dom P' \<and> P k \<noteq> P' k)"

definition covers :: "diff_entry set \<Rightarrow> contents \<Rightarrow> contents \<Rightarrow> bool" where
  "covers D P P' \<longleftrightarrow> (\<forall>k. P k \<noteq> P' k \<longrightarrow> reported D P P' k) \<and> (\<forall>e\<in>D. genuine P P' e)"

lemma map_option_concat_those:
  "map_option (map g) (map_option concat (those (map f xs))) = map_option concat (those (map (\<lambda>x. map_option (map g) (f x)) xs))"
proof -
  have "those (map (\<lambda>x. map_option (map g) (f x)) xs) = map_option (map (map g)) (those (map f xs))"
    by (induction xs) (auto split: option.splits simp: option.map_comp comp_def)
  then show ?thesis by (simp add: option.map_comp comp_def map_concat)
qed

lemma collect_is_visit:
  "collect_all_leaves_inner fuel store ctor added n = map_option (map (\<lambda>e. leaf_tag added (fst e))) (visit fuel store ctor n)"
proof (induction fuel arbitrary: n)
  case (Suc fuel)
  show ?case unfolding visit.simps collect_all_leaves_inner.simps map_option_concat_those
    by (rule arg_cong [where f = "\<lambda>f. map_option concat (those (map f (mask_branches (in_branch n))))"])
      (auto simp: fun_eq_iff Suc.IH leaf_tag_def split: sum.splits option.splits shamap_node.splits)
qed simp

lemma collect_holds:
  assumes "holds sha store ctor j d P n" and "d + j = 64" and "common_prefix d P" and "ctor \<in> leaf_kinds sha"
  shows "\<exists>ds. collect_all_leaves_inner 64 store ctor added n = Some ds \<and> set ds = leaf_tag added ` dom P"
proof -
  obtain xs where xs: "visit 64 store ctor n = Some xs" "lists xs P" using visit_holds [OF assms(1-3) _ assms(4), of 64] assms(2) by auto
  have "set (map (\<lambda>e. leaf_tag added (fst e)) xs) = leaf_tag added ` set (map fst xs)" by auto
  then show ?thesis using xs(1) lists_keys [OF xs(2)] by (simp add: collect_is_visit)
qed

lemma collect_node_holds:
  assumes "node_ok ctor (holds sha store ctor j d) P node" and "d + j = 64" and "common_prefix d P" and "ctor \<in> leaf_kinds sha"
  shows "\<exists>ds. collect_all_leaves 64 store ctor added node = Some ds \<and> set ds = leaf_tag added ` dom P"
  using assms(1)
proof (cases rule: node_okE)
  case (Leaf k v)
  then show ?thesis using assms(4) by (simp add: leaf_tag_def)
next
  case (Inner i)
  then show ?thesis using collect_holds [OF Inner(4) assms(2-4), of added] by simp
qed

lemma covers_both: "covers (leaf_tag False ` dom P \<union> leaf_tag True ` dom P') P P'"
  unfolding covers_def reported_def genuine_def leaf_tag_def by (simp add: ball_Un)

lemma covers_same: "covers {} P P"
  by (simp add: covers_def)

lemma part_dom_iff: "k \<in> dom (part d b M) \<longleftrightarrow> k \<in> dom M \<and> select_branch k d = b"
  by (auto simp: part_def)

lemma genuine_part: "genuine (part d b M) (part d b M') e \<Longrightarrow> genuine M M' e"
  by (cases e) (auto simp: genuine_def part_dom_iff part_apply)

lemma covers_parts:
  assumes "\<And>b. b < 16 \<Longrightarrow> covers (D b) (part d b M) (part d b M')"
  shows "covers (\<Union>b<16. D b) M M'"
  unfolding covers_def
proof (intro conjI allI impI ballI)
  fix k assume k: "M k \<noteq> M' k"
  let ?b = "select_branch k d"
  have "reported (D ?b) (part d ?b M) (part d ?b M') k"
    using assms [OF select_branch_16, of k] k by (simp add: covers_def part_apply)
  then show "reported (\<Union>b<16. D b) M M' k" using select_branch_16 [of k d] unfolding reported_def part_dom_iff by blast
next
  fix e assume "e \<in> (\<Union>b<16. D b)"
  then obtain b where "b < 16" "e \<in> D b" by blast
  then show "genuine M M' e" using assms [of b] genuine_part unfolding covers_def by blast
qed

subsection \<open>Equal hashes, equal entries\<close>

lemma slot_hash_inj:
  assumes "keyed_kind sha ctor prefix" and "inj_on sha A" and "0 \<notin> sha ` A"
    and "slot_inputs prefix (hash_inputs sha ctor prefix j d) P \<subseteq> A" and "slot_inputs prefix (hash_inputs sha ctor prefix j d) P' \<subseteq> A"
    and "common_prefix d P" and "common_prefix d P'" and "d + j = 64"
    and "slot_hash ctor (merkle sha ctor j d) P = slot_hash ctor (merkle sha ctor j d) P'"
  shows "P = P'"
proof (rule slot_inj [OF assms(1-5) _ assms(9)])
  show pos: "0 < j" if "Q \<in> {P, P'}" "Q \<noteq> Map.empty" "\<not> single Q" for Q
    using that common_prefix_single [of Q] assms(6-8) by (cases j) auto
  assume many: "P \<noteq> Map.empty" "P' \<noteq> Map.empty" "\<not> single P" "\<not> single P'" and eq: "merkle sha ctor j d P = merkle sha ctor j d P'"
  then show "P = P'"
    using merkle_inj [OF assms(1-3) _ _ assms(6-8) _ eq] pos [of P] assms(4,5) by (simp add: slot_inputs_def)
qed

subsection \<open>Every change is reported\<close>

lemma keyed_kind_kinds: "keyed_kind sha ctor prefix \<Longrightarrow> ctor \<in> leaf_kinds sha"
  by (auto simp: keyed_kind_def leaf_kinds_def)

lemma diff_nodes_covers:
  assumes "node_ok ctor (holds sha (old_store sides) ctor j d) P old" and "node_ok ctor (holds sha (new_store sides) ctor j d) P' new"
    and "d + j = 64" and "common_prefix d P" and "common_prefix d P'"
    and "slot_inputs prefix (hash_inputs sha ctor prefix j d) P \<subseteq> A" and "slot_inputs prefix (hash_inputs sha ctor prefix j d) P' \<subseteq> A"
    and rec: "\<And>n n'. holds sha (old_store sides) ctor j d P n \<Longrightarrow> holds sha (new_store sides) ctor j d P' n' \<Longrightarrow>
      hash_inputs sha ctor prefix j d P \<subseteq> A \<Longrightarrow> hash_inputs sha ctor prefix j d P' \<subseteq> A \<Longrightarrow> \<exists>ds. diff_inner n n' = Some ds \<and> covers (set ds) P P'"
    and kind: "keyed_kind sha ctor prefix" and inj: "inj_on sha A" and nonzero: "0 \<notin> sha ` A"
    and ctors: "old_ctor sides = ctor" "new_ctor sides = ctor"
  shows "\<exists>ds. diff_nodes sha sides diff_inner old new = Some ds \<and> covers (set ds) P P'"
proof (cases "sha_node_hash sha old = sha_node_hash sha new \<and> sha_node_hash sha old \<noteq> 0")
  case True
  then have "P = P'" using slot_hash_inj [OF kind inj nonzero assms(6,7,4,5,3)] node_ok_hash(1) [OF assms(1)] node_ok_hash(1) [OF assms(2)] by simp
  then show ?thesis using True covers_same [of P'] by auto
next
  case False
  note kinds = keyed_kind_kinds [OF kind]
  have two: "covers {Removed k, Added k'} [k \<mapsto> v] [k' \<mapsto> v']" for k v k' v'
    using covers_both [of "[k \<mapsto> v]" "[k' \<mapsto> v']"] by (simp add: leaf_tag_def insert_commute)
  from assms(1) show ?thesis
  proof (cases rule: node_okE)
    case old: (Leaf k v)
    from assms(2) show ?thesis
    proof (cases rule: node_okE)
      case new: (Leaf k' v')
      show ?thesis
      proof (cases "k = k'")
        case True
        then have "covers (set (if v \<noteq> v' then [Modified k] else [])) P P'"
          using old(2) new(2) by (auto simp: covers_def reported_def genuine_def)
        then show ?thesis using False True old(1) new(1) kinds by auto
      next
        case neq: False
        then show ?thesis using False two old new kinds by auto
      qed
    next
      case new: (Inner i)
      obtain ds where "collect_all_leaves_inner 64 (new_store sides) ctor True i = Some ds" "set ds = leaf_tag True ` dom P'"
        using collect_holds [OF new(4) assms(3,5) kinds] by blast
      then show ?thesis using False old new(1) ctors kinds covers_both [of P P'] by (auto simp: leaf_tag_def)
    qed
  next
    case old: (Inner n)
    obtain ds where ds: "collect_all_leaves_inner 64 (old_store sides) ctor False n = Some ds" "set ds = leaf_tag False ` dom P"
      using collect_holds [OF old(4) assms(3,4) kinds] by blast
    from assms(2) show ?thesis
    proof (cases rule: node_okE)
      case new: (Leaf k' v')
      then show ?thesis using False ds old(1) ctors kinds covers_both [of P P'] by (auto simp: leaf_tag_def)
    next
      case new: (Inner i)
      have "hash_inputs sha ctor prefix j d P \<subseteq> A" "hash_inputs sha ctor prefix j d P' \<subseteq> A"
        using assms(6,7) old(2,3) new(2,3) by (simp_all add: slot_inputs_def)
      from rec [OF old(4) new(4) this] show ?thesis using False old(1) new(1) by auto
    qed
  qed
qed

lemma slot_inputs_part:
  "b < 16 \<Longrightarrow> hash_inputs sha ctor prefix (Suc j) d M \<subseteq> A \<Longrightarrow> slot_inputs prefix (hash_inputs sha ctor prefix j (Suc d)) (part d b M) \<subseteq> A"
  by auto

lemma loadable_holds:
  assumes "holds sha store ctor (Suc j) d M n" and "b < 16"
  shows "case loadable n b store ctor of None \<Rightarrow> part d b M = Map.empty | Some c \<Rightarrow> node_ok ctor (holds sha store ctor j (Suc d)) (part d b M) c"
proof (cases "part d b M = Map.empty")
  case True
  then show ?thesis using holds_empty_branch [OF assms] by (simp add: loadable_def child_with_store_def)
next
  case False
  then show ?thesis using child_with_store_holds [OF assms] by (auto simp: loadable_def)
qed

lemma loadable_part:
  assumes "holds sha store ctor (Suc j) d M n" and "b < 16" and "part d b M \<noteq> Map.empty"
  obtains c where "loadable n b store ctor = Some c" "node_ok ctor (holds sha store ctor j (Suc d)) (part d b M) c"
  using child_with_store_holds [OF assms] by (auto simp: loadable_def)

lemma diff_inner_covers:
  assumes "holds sha (old_store sides) ctor j d M n" and "holds sha (new_store sides) ctor j d M' n'" and "d + j = 64" and "j \<le> fuel"
    and "common_prefix d M" and "common_prefix d M'"
    and "\<And>b. b < 16 \<Longrightarrow> slot_inputs prefix (hash_inputs sha ctor prefix (j - 1) (Suc d)) (part d b M) \<subseteq> A"
    and "\<And>b. b < 16 \<Longrightarrow> slot_inputs prefix (hash_inputs sha ctor prefix (j - 1) (Suc d)) (part d b M') \<subseteq> A"
    and kind: "keyed_kind sha ctor prefix" and inj: "inj_on sha A" and nonzero: "0 \<notin> sha ` A"
    and ctors: "old_ctor sides = ctor" "new_ctor sides = ctor"
  shows "\<exists>ds. diff_inner_nodes fuel sha sides n n' = Some ds \<and> covers (set ds) M M'"
  using assms(1-8)
proof (induction j arbitrary: d M n M' n' fuel)
  case (Suc j)
  obtain f where f: "fuel = Suc f" "j \<le> f" using Suc.prems(4) by (cases fuel) auto
  note kinds = keyed_kind_kinds [OF kind]
  let ?old = "\<lambda>b. loadable n b (old_store sides) (old_ctor sides)" and ?new = "\<lambda>b. loadable n' b (new_store sides) (new_ctor sides)"
  let ?f = "\<lambda>b. case (?old b, ?new b) of
         (None, None) \<Rightarrow> Some []
       | (Some old_c, None) \<Rightarrow> collect_all_leaves 64 (old_store sides) (old_ctor sides) False old_c
       | (None, Some new_c) \<Rightarrow> collect_all_leaves 64 (new_store sides) (new_ctor sides) True new_c
       | (Some old_c, Some new_c) \<Rightarrow>
           if sha_node_hash sha old_c \<noteq> sha_node_hash sha new_c \<or> sha_node_hash sha old_c = 0
           then diff_nodes sha sides (diff_inner_nodes f sha sides) old_c new_c else Some []"
  have "\<exists>ds. ?f b = Some ds \<and> covers (set ds) (part d b M) (part d b M')" if b: "b < 16" for b
  proof -
    let ?P = "part d b M" and ?P' = "part d b M'"
    note cp = common_prefix_part [OF Suc.prems(5), of b] and cp' = common_prefix_part [OF Suc.prems(6), of b]
    have d: "Suc d + j = 64" using Suc.prems(3) by simp
    note ok = loadable_holds [OF Suc.prems(1) b] and ok' = loadable_holds [OF Suc.prems(2) b]
    have in_A: "slot_inputs prefix (hash_inputs sha ctor prefix j (Suc d)) ?P \<subseteq> A"
      and in_A': "slot_inputs prefix (hash_inputs sha ctor prefix j (Suc d)) ?P' \<subseteq> A" using Suc.prems(7,8) [OF b] by simp_all
    show ?thesis
    proof (cases "?old b")
      case None
      then have P: "?P = Map.empty" using ok ctors by simp
      show ?thesis
      proof (cases "?new b")
        case None': None
        then show ?thesis using None P ok' ctors covers_same by simp
      next
        case (Some c)
        then show ?thesis using None P ok' ctors collect_node_holds [OF _ d cp' kinds, of "new_store sides" c True] covers_both [of ?P ?P'] by auto
      qed
    next
      case old: (Some c)
      then have c: "node_ok ctor (holds sha (old_store sides) ctor j (Suc d)) ?P c" using ok ctors by simp
      show ?thesis
      proof (cases "?new b")
        case None
        then show ?thesis using old ok' ctors collect_node_holds [OF c d cp kinds, of False] covers_both [of ?P ?P'] by auto
      next
        case new: (Some c')
        then have c': "node_ok ctor (holds sha (new_store sides) ctor j (Suc d)) ?P' c'" using ok' ctors by simp
        have rec: "\<exists>ds. diff_inner_nodes f sha sides i i' = Some ds \<and> covers (set ds) ?P ?P'"
          if "holds sha (old_store sides) ctor j (Suc d) ?P i" "holds sha (new_store sides) ctor j (Suc d) ?P' i'"
            "hash_inputs sha ctor prefix j (Suc d) ?P \<subseteq> A" "hash_inputs sha ctor prefix j (Suc d) ?P' \<subseteq> A" for i i'
        proof (cases j)
          case 0
          then show ?thesis using that(1) by simp
        next
          case (Suc j')
          show ?thesis by (rule Suc.IH [OF that(1,2) d f(2) cp cp']) (use that(3,4) Suc slot_inputs_part in simp_all)
        qed
        have "\<exists>ds. diff_nodes sha sides (diff_inner_nodes f sha sides) c c' = Some ds \<and> covers (set ds) ?P ?P'"
          by (rule diff_nodes_covers [OF c c' d cp cp' in_A in_A' _ kind inj nonzero ctors], rule rec)
        then obtain ds where ds: "diff_nodes sha sides (diff_inner_nodes f sha sides) c c' = Some ds" "covers (set ds) ?P ?P'" by blast
        show ?thesis
        proof (cases "sha_node_hash sha c \<noteq> sha_node_hash sha c' \<or> sha_node_hash sha c = 0")
          case True
          then show ?thesis using old new ds by simp
        next
          case False
          then have "ds = []" using ds(1) by simp
          then show ?thesis using False old new ds(2) by simp
        qed
      qed
    qed
  qed
  then have "\<forall>b\<in>{..<16}. \<exists>ds. ?f b = Some ds \<and> covers (set ds) (part d b M) (part d b M')" by blast
  from bchoice [OF this] obtain ds where ds: "\<And>b. b < 16 \<Longrightarrow> ?f b = Some (ds b)" "\<And>b. b < 16 \<Longrightarrow> covers (set (ds b)) (part d b M) (part d b M')" by blast
  have "map ?f [0..<16] = map (\<lambda>b. Some (ds b)) [0..<16]" by (rule map_cong [OF refl], rule ds(1)) simp
  then have "diff_inner_nodes fuel sha sides n n' = Some (concat (map ds [0..<16]))"
    unfolding f(1) by (simp only: diff_inner_nodes.simps(2) those_map_Some option.map(2))
  moreover have "set (concat (map ds [0..<16])) = (\<Union>b<16. set (ds b))" by auto
  ultimately show ?case using covers_parts [OF ds(2)] by auto
qed simp

lemma root_slot_inputs:
  assumes "b < 16"
  shows "slot_inputs prefix (hash_inputs sha ctor prefix 63 (Suc 0)) (part 0 b M) \<subseteq> root_inputs sha ctor prefix M"
proof (cases "M = Map.empty")
  case True
  then show ?thesis by (simp add: part_def slot_inputs_def)
next
  case False
  then show ?thesis using slot_inputs_part [OF assms, of sha ctor prefix 63 0 M "root_inputs sha ctor prefix M"] by (simp add: root_inputs_def)
qed

lemma find_difference_inner:
  assumes "represents sha store M m" and "represents sha store' M' m'" and "sm_ctor m' = sm_ctor m" and kind: "keyed_kind sha (sm_ctor m) prefix"
    and inj: "inj_on sha (root_inputs sha (sm_ctor m) prefix M \<union> root_inputs sha (sm_ctor m) prefix M')"
    and nonzero: "0 \<notin> sha ` (root_inputs sha (sm_ctor m) prefix M \<union> root_inputs sha (sm_ctor m) prefix M')"
    and sides: "sides = \<lparr>old_store = store, new_store = store', old_ctor = sm_ctor m, new_ctor = sm_ctor m'\<rparr>"
  obtains n n' ds where "sm_root m = Inner n" "sm_root m' = Inner n'" "holds sha store (sm_ctor m) 64 0 M n" "holds sha store' (sm_ctor m) 64 0 M' n'"
    "diff_inner_nodes 64 sha sides n n' = Some ds" "covers (set ds) M M'"
    "find_difference sha store store' m m' = Some (if M = M' \<and> M \<noteq> Map.empty then [] else ds)"
proof -
  let ?c = "sm_ctor m" let ?A = "root_inputs sha ?c prefix M \<union> root_inputs sha ?c prefix M'"
  obtain n where n: "sm_root m = Inner n" "holds sha store ?c 64 0 M n" using assms(1) by (auto simp: represents_def)
  obtain n' where n': "sm_root m' = Inner n'" "holds sha store' ?c 64 0 M' n'" using assms(2,3) by (auto simp: represents_def)
  have in_A: "slot_inputs prefix (hash_inputs sha ?c prefix (64 - 1) (Suc 0)) (part 0 b N) \<subseteq> ?A" if "b < 16" "N \<in> {M, M'}" for b N
    using root_slot_inputs [OF that(1), of prefix sha ?c N] that(2) by auto
  have "\<exists>ds. diff_inner_nodes 64 sha sides n n' = Some ds \<and> covers (set ds) M M'"
    by (rule diff_inner_covers [OF _ _ _ _ _ _ _ _ kind inj nonzero, where j = 64 and d = 0])
      (use n(2) n'(2) in_A assms(3) in \<open>simp_all add: sides common_prefix_def\<close>)
  then obtain ds where ds: "diff_inner_nodes 64 sha sides n n' = Some ds" "covers (set ds) M M'" by blast
  have h: "sha_node_hash sha (Inner n) = root_digest sha ?c M" "sha_node_hash sha (Inner n') = root_digest sha ?c M'"
    using holds_hash [OF n(2)] holds_hash [OF n'(2)] by (simp_all add: root_digest_def)
  show thesis
  proof (rule that [OF n(1) n'(1) n(2) n'(2) ds])
    have "root_digest sha ?c M = root_digest sha ?c M' \<and> root_digest sha ?c M \<noteq> 0 \<longleftrightarrow> M = M' \<and> M \<noteq> Map.empty"
      using root_digest_inj [OF kind inj nonzero] root_digest_in [of M sha ?c prefix] nonzero by (auto simp: root_digest_def image_Un)
    then show "find_difference sha store store' m m' = Some (if M = M' \<and> M \<noteq> Map.empty then [] else ds)"
      using h ds(1) n(1) n'(1) by (auto simp: find_difference_def sides Let_def)
  qed
qed

text \<open>C23: Comparing two state trees (or two transaction trees with metadata) always returns, reports every
  key whose entry differs, as modified, or as removed and added on the sides that have it, and reports
  an addition only of keys of the new tree, a removal only of keys of the old one and a modification
  only of keys whose data differ, as long as the hash function does not collide on the two trees.\<close>

theorem differences_are_reported:
  assumes "represents sha store M m" and "represents sha store' M' m'" and "sm_ctor m' = sm_ctor m" and "keyed_kind sha (sm_ctor m) prefix"
    and "inj_on sha (root_inputs sha (sm_ctor m) prefix M \<union> root_inputs sha (sm_ctor m) prefix M')"
    and "0 \<notin> sha ` (root_inputs sha (sm_ctor m) prefix M \<union> root_inputs sha (sm_ctor m) prefix M')"
  shows "\<exists>ds. find_difference sha store store' m m' = Some ds
    \<and> (\<forall>k. M k \<noteq> M' k \<longrightarrow> reported (set ds) M M' k) \<and> (\<forall>e\<in>set ds. genuine M M' e)"
proof -
  obtain n n' ds where "sm_root m = Inner n" "sm_root m' = Inner n'" "holds sha store (sm_ctor m) 64 0 M n" "holds sha store' (sm_ctor m) 64 0 M' n'"
    "diff_inner_nodes 64 sha \<lparr>old_store = store, new_store = store', old_ctor = sm_ctor m, new_ctor = sm_ctor m'\<rparr> n n' = Some ds"
    "covers (set ds) M M'"
    "find_difference sha store store' m m' = Some (if M = M' \<and> M \<noteq> Map.empty then [] else ds)" by (rule find_difference_inner [OF assms refl])
  then have "\<exists>ds. find_difference sha store store' m m' = Some ds \<and> covers (set ds) M M'" using covers_same [of M'] by auto
  then show ?thesis unfolding covers_def .
qed

lemma those_Some_nth: "those xs = Some ys \<Longrightarrow> i < length xs \<Longrightarrow> xs ! i = Some (ys ! i) \<and> i < length ys"
proof (induction xs arbitrary: ys i)
  case (Cons x xs)
  then show ?case by (cases i) (auto split: option.splits)
qed simp

lemma diff_inner_branch:
  assumes "diff_inner_nodes (Suc fuel) sha sides n n' = Some ds" and "b < 16"
    and "loadable n b (old_store sides) (old_ctor sides) = Some c" and "loadable n' b (new_store sides) (new_ctor sides) = Some c'"
    and "sha_node_hash sha c \<noteq> sha_node_hash sha c'"
  shows "\<exists>es. diff_nodes sha sides (diff_inner_nodes fuel sha sides) c c' = Some es \<and> set es \<subseteq> set ds"
proof -
  obtain xs where xs: "those (map (\<lambda>branch.
       case (loadable n branch (old_store sides) (old_ctor sides), loadable n' branch (new_store sides) (new_ctor sides)) of
         (None, None) \<Rightarrow> Some []
       | (Some old_c, None) \<Rightarrow> collect_all_leaves 64 (old_store sides) (old_ctor sides) False old_c
       | (None, Some new_c) \<Rightarrow> collect_all_leaves 64 (new_store sides) (new_ctor sides) True new_c
       | (Some old_c, Some new_c) \<Rightarrow>
           if sha_node_hash sha old_c \<noteq> sha_node_hash sha new_c \<or> sha_node_hash sha old_c = 0
           then diff_nodes sha sides (diff_inner_nodes fuel sha sides) old_c new_c else Some []) [0..<16]) = Some xs" "ds = concat xs"
    using assms(1) by (auto simp del: diff_nodes.simps)
  from those_Some_nth [OF xs(1), of b]
  have es: "diff_nodes sha sides (diff_inner_nodes fuel sha sides) c c' = Some (xs ! b)" "xs ! b \<in> set xs"
    using assms(2-5) by (simp_all del: diff_nodes.simps)
  then show ?thesis using xs(2) by (intro exI [of _ "xs ! b"]) (auto simp del: diff_nodes.simps)
qed

text \<open>C30: The comparison also reports entries that have not changed: when the only entry under a first nibble
  stays as it is and another entry joins it there, the old entry is reported as removed and as added.\<close>

theorem unchanged_entry_reported:
  assumes "represents sha store M m" and "represents sha store' M' m'" and "sm_ctor m' = sm_ctor m" and "keyed_kind sha (sm_ctor m) prefix"
    and "inj_on sha (root_inputs sha (sm_ctor m) prefix M \<union> root_inputs sha (sm_ctor m) prefix M')"
    and "0 \<notin> sha ` (root_inputs sha (sm_ctor m) prefix M \<union> root_inputs sha (sm_ctor m) prefix M')"
    and "M k = Some v" and "M' k = Some v" and "\<forall>x\<in>dom M. select_branch x 0 = select_branch k 0 \<longrightarrow> x = k"
    and "k' \<in> dom M'" and "k' \<noteq> k" and "select_branch k' 0 = select_branch k 0"
  shows "\<exists>ds. find_difference sha store store' m m' = Some ds \<and> Removed k \<in> set ds \<and> Added k \<in> set ds"
proof -
  let ?b = "select_branch k 0" let ?c = "sm_ctor m"
  let ?s = "\<lparr>old_store = store, new_store = store', old_ctor = sm_ctor m, new_ctor = sm_ctor m'\<rparr>"
  obtain n n' ds where d: "sm_root m = Inner n" "sm_root m' = Inner n'" "holds sha store ?c 64 0 M n" "holds sha store' ?c 64 0 M' n'"
    "diff_inner_nodes 64 sha ?s n n' = Some ds" "covers (set ds) M M'"
    "find_difference sha store store' m m' = Some (if M = M' \<and> M \<noteq> Map.empty then [] else ds)" by (rule find_difference_inner [OF assms(1-6) refl])
  have P: "part 0 ?b M = [k \<mapsto> v]" using assms(7,9) by (auto simp: part_def restrict_map_def fun_eq_iff)
  have P': "\<not> single (part 0 ?b M')" using assms(8,10-12) single_two [of k k' "part 0 ?b M'" v] by (auto simp: part_apply)
  have ne: "part 0 ?b M \<noteq> Map.empty" "part 0 ?b M' \<noteq> Map.empty" using P assms(8) by (auto simp: part_apply dest: fun_cong [of _ _ k])
  have lev: "(64 :: nat) = Suc 63" by simp
  obtain c where c: "loadable n ?b store ?c = Some c" "node_ok ?c (holds sha store ?c 63 (Suc 0)) (part 0 ?b M) c"
    by (rule loadable_part [OF d(3) [unfolded lev] select_branch_16 ne(1)])
  obtain c' where c': "loadable n' ?b store' ?c = Some c'" "node_ok ?c (holds sha store' ?c 63 (Suc 0)) (part 0 ?b M') c'"
    by (rule loadable_part [OF d(4) [unfolded lev] select_branch_16 ne(2)])
  have leaf: "c = Leaf (?c k v)" using c(2) P by (auto simp: node_ok_def split: shamap_node.splits)
  obtain i where i: "c' = Inner i" "holds sha store' ?c 63 (Suc 0) (part 0 ?b M') i" using c'(2) P' by (auto simp: node_ok_def split: shamap_node.splits)
  have differ: "sha_node_hash sha c \<noteq> sha_node_hash sha c'"
  proof
    assume "sha_node_hash sha c = sha_node_hash sha c'"
    then have eq: "slot_hash ?c (merkle sha ?c 63 (Suc 0)) (part 0 ?b M) = slot_hash ?c (merkle sha ?c 63 (Suc 0)) (part 0 ?b M')"
      unfolding node_ok_hash(1) [OF c(2)] node_ok_hash(1) [OF c'(2)] .
    have "part 0 ?b M = part 0 ?b M'"
      by (rule slot_hash_inj [OF assms(4-6) _ _ _ _ _ eq])
        (use root_slot_inputs [OF select_branch_16, of prefix sha ?c k 0] in \<open>auto simp: common_prefix_def part_dom_iff\<close>)
    then show False using P P' single_upd by metis
  qed
  have "\<exists>es. collect_all_leaves_inner 64 store' ?c True i = Some es \<and> set es = leaf_tag True ` dom (part 0 ?b M')"
    by (rule collect_holds [OF i(2) _ _ keyed_kind_kinds [OF assms(4)]]) (auto simp: common_prefix_def part_dom_iff)
  then obtain es where es: "collect_all_leaves_inner 64 store' ?c True i = Some es" "set es = leaf_tag True ` dom (part 0 ?b M')" by blast
  have "diff_nodes sha ?s (diff_inner_nodes 63 sha ?s) c c' = Some (Removed k # es)"
    using differ leaf i(1) es(1) assms(3) keyed_kind_kinds [OF assms(4)] by simp
  moreover have "\<exists>es'. diff_nodes sha ?s (diff_inner_nodes 63 sha ?s) c c' = Some es' \<and> set es' \<subseteq> set ds"
    by (rule diff_inner_branch [OF d(5) [unfolded lev] select_branch_16 _ _ differ]) (use c(1) c'(1) assms(3) in simp_all)
  moreover have "Added k \<in> set es" unfolding es(2) by (rule rev_image_eqI [of k]) (use assms(8) part_dom_iff [of k 0 ?b M'] in \<open>auto simp: leaf_tag_def\<close>)
  moreover have "M \<noteq> M'" using assms(9-12) by auto
  ultimately show ?thesis using d(7) by (auto simp del: diff_nodes.simps)
qed

subsection \<open>A pair of trees\<close>

definition row_sha :: "bytes \<Rightarrow> hash256" where
  "row_sha bs = of_nat (length bs + (if length bs = 516 then unat (bs ! 35) + unat (bs ! 67) else 0))"

definition key_b :: hash256 where
  "key_b = 0x100000000000000000000000000000000000000000000000000000000000000"

definition one_entry :: contents where
  "one_entry = [0 \<mapsto> [7]]"

definition two_entries :: contents where
  "two_entries = [0 \<mapsto> [7], key_b \<mapsto> [8, 8]]"

abbreviation state_ctor :: leaf_ctor where
  "state_ctor \<equiv> account_state row_sha"

lemma pair_byte: "hash_byte 0 i = 0" "hash_byte key_b 0 = 1"
  by (simp_all add: hash_byte_def key_b_def)

lemma pair_nibbles: "select_branch 0 0 = 0" "select_branch key_b 0 = 0" "select_branch 0 (Suc 0) = 0" "select_branch key_b (Suc 0) = 1" "key_b \<noteq> 0"
  by (simp_all add: select_branch_def pair_byte) (simp add: key_b_def)

lemma pair_parts:
  "part 0 b one_entry = (if b = 0 then one_entry else Map.empty)" "part 0 b two_entries = (if b = 0 then two_entries else Map.empty)"
  "part (Suc 0) b two_entries = (if b = 0 then [0 \<mapsto> [7]] else if b = 1 then [key_b \<mapsto> [8, 8]] else Map.empty)"
  using pair_nibbles by (auto simp: part_def restrict_map_def one_entry_def two_entries_def fun_eq_iff)

lemma pair_single: "single one_entry" "\<not> single two_entries" "one_entry \<noteq> Map.empty" "two_entries \<noteq> Map.empty"
  using single_two [of 0 key_b two_entries "[7]" "[8, 8]"] pair_nibbles(5) by (auto simp: one_entry_def two_entries_def)

lemma one_entry_leaf: "only_leaf ctor one_entry = ctor 0 [7]" "leaf_input prefix one_entry = prefix @ [7] @ as_bytes 0"
  unfolding one_entry_def by (simp_all only: only_leaf_upd leaf_input_upd)

definition hash_row :: "hash256 \<Rightarrow> hash256 \<Rightarrow> bytes" where
  "hash_row x y = INNER_NODE_PREFIX @ as_bytes x @ as_bytes y @ concat (map as_bytes (replicate 14 0))"

lemma row_sha_row: "row_sha (hash_row x y) = of_nat (516 + unat x mod 256 + unat y mod 256)"
proof -
  have "length (hash_row x y) = 516" by (simp add: hash_row_def INNER_NODE_PREFIX_def length_concat sum_list_replicate)
  moreover have "hash_row x y ! 35 = hash_byte x 31" "hash_row x y ! 67 = hash_byte y 31"
    by (simp_all add: hash_row_def INNER_NODE_PREFIX_def as_bytes_def nth_append)
  ultimately show ?thesis unfolding row_sha_def by (simp add: unat_hash_byte)
qed

lemma pair_leaf_inputs: "row_sha (LEAF_NODE_PREFIX @ [7] @ as_bytes 0) = 37" "row_sha (LEAF_NODE_PREFIX @ [8, 8] @ as_bytes key_b) = 38"
  by (simp_all add: row_sha_def LEAF_NODE_PREFIX_def)

lemma pair_leaves: "leaf_hash (state_ctor 0 [7]) = 37" "leaf_hash (state_ctor key_b [8, 8]) = 38"
  using pair_leaf_inputs by (simp_all add: account_state_def leaf_hash_def hash_account_state_def)

lemma pair_rows: "row_sha (hash_row 37 0) = 553" "row_sha (hash_row 591 0) = 595" "row_sha (hash_row 37 38) = 591"
  by (simp_all add: row_sha_row)

lemma upt_16: "[0..<16] = 0 # 1 # [2..<16]"
  by (simp add: upt_rec)

lemma hash_row_map:
  assumes "\<And>b. 1 < b \<Longrightarrow> f b = 0"
  shows "INNER_NODE_PREFIX @ concat (map as_bytes (map f [0..<16])) = hash_row (f 0) (f 1)"
proof -
  have "map f [2..<16] = map (\<lambda>_. 0) [2..<16]" by (rule map_cong [OF refl], rule assms) (simp only: set_upt atLeastLessThan_iff, linarith)
  then have "map f [2..<16] = replicate 14 0" by (simp only: map_replicate_const length_upt) simp
  then show ?thesis unfolding upt_16 hash_row_def by (simp only: list.map concat.simps)
qed

lemma pair_slots:
  "slot_hash state_ctor h (part 0 b one_entry) = (if b = 0 then 37 else 0)"
  "slot_hash state_ctor h (part (Suc 0) b two_entries) = (if b = 0 then 37 else if b = 1 then 38 else 0)"
  "slot_hash state_ctor (merkle row_sha state_ctor (Suc j) (Suc 0)) (part 0 b two_entries) = (if b = 0 then 591 else 0)"
proof -
  show "slot_hash state_ctor h (part 0 b one_entry) = (if b = 0 then 37 else 0)"
    using pair_leaves pair_single by (simp add: pair_parts slot_hash_def one_entry_leaf)
  have two: "slot_hash state_ctor h (part (Suc 0) b two_entries) = (if b = 0 then 37 else if b = 1 then 38 else 0)" for h b
    using pair_leaves by (simp add: pair_parts slot_hash_def)
  then show "slot_hash state_ctor h (part (Suc 0) b two_entries) = (if b = 0 then 37 else if b = 1 then 38 else 0)" .
  have "merkle row_sha state_ctor (Suc j) (Suc 0) two_entries = 591"
    by (simp only: merkle.simps two) (subst hash_row_map, simp_all add: pair_rows)
  then show "slot_hash state_ctor (merkle row_sha state_ctor (Suc j) (Suc 0)) (part 0 b two_entries) = (if b = 0 then 591 else 0)"
    using pair_single by (simp add: pair_parts slot_hash_def del: merkle.simps)
qed

definition pair_inputs :: "bytes set" where
  "pair_inputs = {hash_row 37 0, hash_row 591 0, hash_row 37 38, LEAF_NODE_PREFIX @ [7] @ as_bytes 0, LEAF_NODE_PREFIX @ [8, 8] @ as_bytes key_b}"

lemma hash_inputs_within:
  assumes "\<And>b. 1 < b \<Longrightarrow> slot_hash ctor (merkle sha ctor j (Suc d)) (part d b M) = 0"
    and "hash_row (slot_hash ctor (merkle sha ctor j (Suc d)) (part d 0 M)) (slot_hash ctor (merkle sha ctor j (Suc d)) (part d 1 M)) \<in> A"
    and "\<And>b. slot_inputs prefix (hash_inputs sha ctor prefix j (Suc d)) (part d b M) \<subseteq> A"
  shows "hash_inputs sha ctor prefix (Suc j) d M \<subseteq> A"
proof -
  have "INNER_NODE_PREFIX @ concat (map as_bytes (map (\<lambda>b. slot_hash ctor (merkle sha ctor j (Suc d)) (part d b M)) [0..<16])) \<in> A"
    by (subst hash_row_map, rule assms(1), assumption, rule assms(2))
  then show ?thesis unfolding hash_inputs.simps insert_subset by (simp only: UN_subset_iff assms(3)) simp
qed

lemma pair_root_inputs:
  "root_inputs row_sha state_ctor LEAF_NODE_PREFIX one_entry \<subseteq> pair_inputs"
  "root_inputs row_sha state_ctor LEAF_NODE_PREFIX two_entries \<subseteq> pair_inputs"
proof -
  let ?I = "hash_inputs row_sha state_ctor LEAF_NODE_PREFIX"
  have "?I (Suc j) 0 one_entry \<subseteq> pair_inputs" for j
    by (rule hash_inputs_within, unfold pair_slots) (simp_all add: pair_parts slot_inputs_def pair_single one_entry_leaf pair_inputs_def)
  from this [of 63] show "root_inputs row_sha state_ctor LEAF_NODE_PREFIX one_entry \<subseteq> pair_inputs" by (simp add: root_inputs_def del: hash_inputs.simps)
  have one: "?I (Suc j) (Suc 0) two_entries \<subseteq> pair_inputs" for j
    by (rule hash_inputs_within, unfold pair_slots) (simp_all add: pair_parts slot_inputs_def leaf_input_upd pair_inputs_def)
  have "?I (Suc (Suc j)) 0 two_entries \<subseteq> pair_inputs" for j
    by (rule hash_inputs_within, unfold pair_slots) (use one [of j] in \<open>simp_all add: pair_parts slot_inputs_def pair_single pair_inputs_def del: hash_inputs.simps merkle.simps\<close>)
  from this [of 62] show "root_inputs row_sha state_ctor LEAF_NODE_PREFIX two_entries \<subseteq> pair_inputs" by (simp add: root_inputs_def del: hash_inputs.simps)
qed

lemma pair_hashes: "inj_on row_sha pair_inputs" "0 \<notin> row_sha ` pair_inputs"
  unfolding pair_inputs_def inj_on_def ball_simps image_insert image_empty pair_rows pair_leaf_inputs by auto

lemma pair_trees:
  obtains m m' where "shm_run row_sha None [PutOp 0 [7]] (account_state_map row_sha) = Some (m, [Inr None])"
    "shm_run row_sha None [PutOp 0 [7], PutOp key_b [8, 8]] (account_state_map row_sha) = Some (m', [Inr None, Inr None])"
    "represents row_sha None one_entry m" "represents row_sha None two_entries m'" "sm_ctor m = state_ctor" "sm_ctor m' = state_ctor"
proof -
  have kind: "state_ctor \<in> leaf_kinds row_sha" by (simp add: leaf_kinds_def)
  show thesis
    using that shm_run_new [OF kind, of None "[PutOp 0 [7]]"] shm_run_new [OF kind, of None "[PutOp 0 [7], PutOp key_b [8, 8]]"]
    by (auto simp: account_state_map_def Let_def one_entry_def two_entries_def pair_nibbles)
qed

theorem unchanged_entry_reported_witness:
  "\<exists>m m' ds. shm_run row_sha None [PutOp 0 [7]] (account_state_map row_sha) = Some (m, [Inr None])
    \<and> shm_run row_sha None [PutOp 0 [7], PutOp key_b [8, 8]] (account_state_map row_sha) = Some (m', [Inr None, Inr None])
    \<and> find_difference row_sha None None m m' = Some ds \<and> Removed 0 \<in> set ds \<and> Added 0 \<in> set ds"
proof -
  obtain m m' where m: "shm_run row_sha None [PutOp 0 [7]] (account_state_map row_sha) = Some (m, [Inr None])"
    "shm_run row_sha None [PutOp 0 [7], PutOp key_b [8, 8]] (account_state_map row_sha) = Some (m', [Inr None, Inr None])"
    "represents row_sha None one_entry m" "represents row_sha None two_entries m'" "sm_ctor m = state_ctor" "sm_ctor m' = state_ctor" by (rule pair_trees)
  let ?A = "root_inputs row_sha state_ctor LEAF_NODE_PREFIX one_entry \<union> root_inputs row_sha state_ctor LEAF_NODE_PREFIX two_entries"
  have A: "inj_on row_sha ?A" "0 \<notin> row_sha ` ?A" using pair_root_inputs pair_hashes inj_on_subset [of row_sha pair_inputs ?A] by blast+
  have "\<exists>ds. find_difference row_sha None None m m' = Some ds \<and> Removed 0 \<in> set ds \<and> Added 0 \<in> set ds"
    by (rule unchanged_entry_reported [OF m(3,4), unfolded m(5,6), OF refl _ A, where k = 0 and v = "[7]" and k' = key_b])
      (use pair_nibbles in \<open>auto simp: keyed_kind_def one_entry_def two_entries_def\<close>)
  then show ?thesis using m(1,2) by blast
qed

theorem differences_are_reported_witness:
  "\<exists>m m' ds. shm_run row_sha None [PutOp 0 [7]] (account_state_map row_sha) = Some (m, [Inr None])
    \<and> shm_run row_sha None [PutOp 0 [7], PutOp key_b [8, 8]] (account_state_map row_sha) = Some (m', [Inr None, Inr None])
    \<and> find_difference row_sha None None m m' = Some ds \<and> Added key_b \<in> set ds"
proof -
  obtain m m' where m: "shm_run row_sha None [PutOp 0 [7]] (account_state_map row_sha) = Some (m, [Inr None])"
    "shm_run row_sha None [PutOp 0 [7], PutOp key_b [8, 8]] (account_state_map row_sha) = Some (m', [Inr None, Inr None])"
    "represents row_sha None one_entry m" "represents row_sha None two_entries m'" "sm_ctor m = state_ctor" "sm_ctor m' = state_ctor" by (rule pair_trees)
  let ?A = "root_inputs row_sha state_ctor LEAF_NODE_PREFIX one_entry \<union> root_inputs row_sha state_ctor LEAF_NODE_PREFIX two_entries"
  have A: "inj_on row_sha ?A" "0 \<notin> row_sha ` ?A" using pair_root_inputs pair_hashes inj_on_subset [of row_sha pair_inputs ?A] by blast+
  have "keyed_kind row_sha state_ctor LEAF_NODE_PREFIX" by (simp add: keyed_kind_def)
  from differences_are_reported [OF m(3,4), unfolded m(5,6), OF refl this A]
  obtain ds where ds: "find_difference row_sha None None m m' = Some ds" "\<forall>k. one_entry k \<noteq> two_entries k \<longrightarrow> reported (set ds) one_entry two_entries k" by blast
  have "reported (set ds) one_entry two_entries key_b" using ds(2) pair_nibbles(5) by (simp add: one_entry_def two_entries_def)
  then have "Added key_b \<in> set ds" using pair_nibbles(5) by (auto simp: reported_def one_entry_def two_entries_def)
  then show ?thesis using m(1,2) ds(1) by blast
qed

end
