(* ===== verification/Spec2Isabelle.thy ===== *)
theory Spec2Isabelle
  imports Consensus_Timer Close_Resolution Engine_Agreement Tx_Queue Amount Number_Rounding Shamap_Store Shamap_Diff
begin

text \<open>
  A verification library for the parts of the XRP Ledger node rxrpl that decide what the ledger is: the
  consensus engine and everything it counts with, the queue that feeds it, the hash trees that hold a
  ledger's entries, and the decimal arithmetic of the amounts in them.

  \<^bold>\<open>The program.\<close> A node runs rounds of consensus (\<^verbatim>\<open>crates/consensus\<close>). It closes a ledger with a set of
  candidate transactions, proposes that set, exchanges positions with the validators of its trusted
  list, resolves the disputed transactions by votes against rising thresholds, and accepts a set and a
  close time once a quorum agrees. Validations of accepted ledgers are collected in a trie that names
  the preferred ledger, and validators that stop validating are put on the negative list, which lowers
  the quorum. Candidate sets and ledgers are Merkle radix trees (\<^verbatim>\<open>crates/shamap\<close>) named by their root
  hash. Transactions that do not fit a ledger wait in the queue (\<^verbatim>\<open>crates/txq\<close>). Amounts are native drops
  or 16-digit decimals (\<^verbatim>\<open>crates/amount\<close>).

  \<^bold>\<open>Conventions.\<close> \<open>Prelude\<close> holds the shared vocabulary: \<open>u32\<close>, \<open>u64\<close>, \<open>u128\<close> and \<open>usize\<close> are natural
  numbers with the wrapping, saturating and checked operations written out, bytes and hashes are words
  of 8 and 256 bits, a hash map is an association list with distinct keys (\<open>hm_get\<close>, \<open>hm_insert\<close>,
  \<open>hm_remove\<close>, \<open>hm_retain\<close>), a \<open>Result\<close> is a sum with the error on the left, and a panic is \<open>None\<close>. Structs
  are records, enums are datatypes, and every operation is an executable function that returns the
  changed state. SHA-512Half, the signature scheme, the consensus adapter and the two clocks are
  parameters. Node stores are functions from hashes to bytes; the in-memory store is modelled itself.

  \<^bold>\<open>Consensus.\<close>
  \<^item> \<open>Consensus_Params\<close>: \<^verbatim>\<open>params.rs\<close>, \<^verbatim>\<open>phase.rs\<close>, \<^verbatim>\<open>stall.rs\<close>, \<^verbatim>\<open>validation_current.rs\<close>; the avalanche
    thresholds never wrap and only rise, a resync is asked for after exactly three stalls in a row.
  \<^item> \<open>Consensus_Timer\<close> (\<^verbatim>\<open>timer.rs\<close>) and \<open>Close_Resolution\<close> (\<^verbatim>\<open>close_resolution.rs\<close>): the heartbeat with its
    adaptive open phase, and the rounding of close times.
  \<^item> \<open>Consensus_Types\<close> (\<^verbatim>\<open>types.rs\<close>): proposals, validations, transaction sets and disputed transactions;
    what the two signatures bind. \<open>Tx_Set_Root\<close>: \<open>transaction_set_root\<close>, the root hash of a candidate set
    computed from the identifiers, and that it ends within the 64 nibbles of a key.
  \<^item> \<open>Proposal_Tracker\<close> (\<^verbatim>\<open>proposal_tracker.rs\<close>): bounded memory and acceptance of proposals. The locale
    \<open>proposal_dedup\<close> is what the engine relies on; the tracker interprets it.
  \<^item> \<open>Unl\<close> (\<^verbatim>\<open>unl.rs\<close>) and \<open>Negative_Unl\<close> (\<^verbatim>\<open>negative_unl.rs\<close>): the trusted list, its keys and expirations, the
    quorum, the reliability rule and its cap, which holds at every evaluation for the trusted set of
    that moment, but is not enforced again when the list shrinks.
  \<^item> \<open>Ledger_Trie\<close> (\<^verbatim>\<open>ledger_trie.rs\<close>) refines a multiset of branches, by a representation relation; the
    preferred ledger is the end of the heaviest greedy walk. The locale \<open>branch_votes\<close> is its contract.
    \<open>Validations_Trie\<close> (\<^verbatim>\<open>validations_trie.rs\<close>) adds the latest vote per node, freshness and the cache.
  \<^item> \<open>Consensus_Engine\<close> (\<^verbatim>\<open>engine.rs\<close>): the state and every handler. \<open>Engine_Safety\<close> has the reachable states
    of the engine as an inductive relation over its handlers and the invariant all of them keep;
    \<open>Engine_Properties\<close> and \<open>Engine_Agreement\<close> derive the properties: quorum behind every acceptance, the
    end of every round, the phases, the disputes, the close time, wrong parents, flag ledgers, buffers.

  \<^bold>\<open>Queue.\<close> \<open>Tx_Queue\<close> (\<^verbatim>\<open>queue.rs\<close>, \<^verbatim>\<open>fee.rs\<close>): under every sequence of operations the account indexes
  agree with the queued entries and the fee index points at them (at all of them when no two
  submissions pay the same fee level), what each submission answers, the two ways to drain it.

  \<^bold>\<open>Hash trees.\<close> \<open>Shamap_Node\<close> has leaves, inner nodes, the node store and its byte formats; \<open>Shamap\<close> the
  lookups and the operations that change a map. \<open>Shamap_Contents\<close> relates a tree to the finite map it
  holds (\<open>holds\<close>: at every level the branches split the keys by nibble, a single entry is a leaf, and
  every stored hash is the digest of the part below) and proves what each operation does to it.
  \<open>Shamap_Properties\<close> concludes that the tree refines a map, that the root hash depends on the entries
  alone and determines them, and that the candidate set root is the root of the tree. \<open>Shamap_Walk\<close>
  shows that the visitor and both iterators (one locale, \<open>leaf_iterator\<close>, interpreted twice) list the
  entries in key order, \<open>Shamap_Store\<close> that a flushed tree can be reopened from any store with the
  contract \<open>node_store\<close>, \<open>Shamap_Diff\<close> that the comparison of two trees reports every difference.

  \<^bold>\<open>Amounts.\<close> \<open>Iou_Amount\<close>, \<open>Iou_Arithmetic\<close> and \<open>Iou_Decimal\<close> model \<^verbatim>\<open>iou.rs\<close>: normal form, order, products,
  quotients, sums and directed roundings, ratios (exact but for the cast of the quotient to 64 bits),
  decimal strings. \<open>Amount\<close> is \<^verbatim>\<open>amount.rs\<close>, \<open>Quality\<close> is
  \<^verbatim>\<open>quality.rs\<close>, \<open>Number\<close> and \<open>Number_Rounding\<close> are \<^verbatim>\<open>number.rs\<close> with its guard digits and rounding modes.

  \<^bold>\<open>Bounds and fuel.\<close> The operations that change a tree recurse on a depth the source keeps in a \<open>u8\<close>; past
  255 they are \<open>None\<close>, and the refinement shows that a key's 64 nibbles keep them from it. Recursive
  walks get 64 levels, which is what a tree over 256-bit keys can have; that they return is part of
  each theorem. The iterators and Newton's iteration are loops that may not end (\<open>None\<close>), and their
  theorems state that they do. Fuel in \<open>transaction_set_root\<close> is proved to be enough.

  \<^bold>\<open>Assumptions.\<close> Theorems on hash trees that compare hashes assume that the hash function has no collision,
  and no zero value, on the inputs the trees at hand hash, which are finitely many and written out;
  each has a witness with a concrete function. Reference counts are not values: where recomputing
  hashes stops at a shared child, an arbitrary function says which children are shared.

  \<^bold>\<open>Not modelled.\<close> The peer network and its message codec (\<^verbatim>\<open>overlay\<close>, \<^verbatim>\<open>p2p-proto\<close>), the servers and clients
  (\<^verbatim>\<open>rpc-server\<close>, \<^verbatim>\<open>rpc-api\<close>, \<^verbatim>\<open>rpc-client\<close>, \<^verbatim>\<open>grpc-server\<close>), databases and their caches (\<^verbatim>\<open>storage\<close>,
  \<^verbatim>\<open>nodestore\<close>), configuration and key files are input and output around the code above. Transaction
  execution (\<^verbatim>\<open>tx-engine\<close>, \<^verbatim>\<open>hooks\<close>), path finding, the ledger objects and their field codec (\<^verbatim>\<open>ledger\<close>,
  \<^verbatim>\<open>protocol\<close>, \<^verbatim>\<open>codec\<close>), amendment voting and the node's event loop (\<^verbatim>\<open>node\<close>) work on JSON documents and
  binary field tables and would each need a model of those first. Signature and hash primitives are
  parameters. Of the trees, the read-only queries that serve peers by node id or look for missing nodes are left out.
\<close>

end
